(* ===== verification/Tcpshm_Prelude.thy ===== *)
theory Tcpshm_Prelude
  imports Main "HOL-Library.Word" "HOL-Library.Monad_Syntax"
begin

text \<open>
  Shared vocabulary of the development: the machine integer types, bounds-checked array
  access, contiguous slices of arrays, the rounding-up division that turns message sizes
  into block counts, and the signed reading of a difference of two wrapping counters.

  Convention for undefined behaviour: an operation whose C++ execution may leave an array
  or spin forever has a result of type \<open>'a option\<close>. \<open>None\<close> means that the execution has
  no normal return (an access outside the array, or a loop that never ends); a null
  pointer or a \<open>false\<close> that the code really returns is an ordinary value inside \<open>Some\<close>.
\<close>

unbundle bit_operations_syntax

type_synonym u8 = "8 word"
type_synonym u16 = "16 word"
type_synonym u32 = "32 word"
type_synonym u64 = "64 word"

named_theorems segment_simps \<open>slices of arrays that were written elsewhere\<close>
named_theorems unat_exact \<open>word operations that do not wrap, read as natural numbers\<close>

section \<open>Arrays\<close>

definition array_get :: "'a list \<Rightarrow> nat \<Rightarrow> 'a option" where
  "array_get xs i = (if i < length xs then Some (xs ! i) else None)"

definition array_set :: "'a list \<Rightarrow> nat \<Rightarrow> 'a \<Rightarrow> 'a list option" where
  "array_set xs i x = (if i < length xs then Some (xs[i := x]) else None)"

text \<open>The C library's \<open>memmove\<close> inside one array, and \<open>memcpy\<close> from another one, counted in elements.\<close>

definition memmove :: "nat \<Rightarrow> nat \<Rightarrow> nat \<Rightarrow> 'a list \<Rightarrow> 'a list option" where
  "memmove dst src n xs =
     (if dst + n \<le> length xs \<and> src + n \<le> length xs
      then Some (take dst xs @ take n (drop src xs) @ drop (dst + n) xs) else None)"

definition memcpy :: "nat \<Rightarrow> 'a list \<Rightarrow> 'a list \<Rightarrow> 'a list option" where
  "memcpy dst ys xs =
     (if dst + length ys \<le> length xs
      then Some (take dst xs @ ys @ drop (dst + length ys) xs) else None)"

definition segment :: "nat \<Rightarrow> nat \<Rightarrow> 'a list \<Rightarrow> 'a list" where
  "segment i j xs = take (j - i) (drop i xs)"

lemma array_get_Some [simp]: "i < length xs \<Longrightarrow> array_get xs i = Some (xs ! i)"
  by (simp add: array_get_def)

lemma array_get_eq_Some: "array_get xs i = Some x \<longleftrightarrow> i < length xs \<and> x = xs ! i"
  by (auto simp: array_get_def)

lemma array_set_Some [simp]: "i < length xs \<Longrightarrow> array_set xs i x = Some (xs[i := x])"
  by (simp add: array_set_def)

lemma array_set_eq_Some: "array_set xs i x = Some ys \<longleftrightarrow> i < length xs \<and> ys = xs[i := x]"
  by (auto simp: array_set_def)

lemma length_memmove: "memmove d s n xs = Some ys \<Longrightarrow> length ys = length xs"
  by (auto simp: memmove_def split: if_splits)

lemma length_memcpy: "memcpy d zs xs = Some ys \<Longrightarrow> length ys = length xs"
  by (auto simp: memcpy_def split: if_splits)

subsection \<open>Slices\<close>

lemma length_segment [simp]: "j \<le> length xs \<Longrightarrow> length (segment i j xs) = j - i"
  by (simp add: segment_def)

lemma segment_empty [simp]: "segment i i xs = []"
  by (simp add: segment_def)

lemma segment_all [simp]: "length xs = n \<Longrightarrow> segment 0 n xs = xs"
  by (simp add: segment_def)

lemma nth_segment: "j \<le> length xs \<Longrightarrow> k < j - i \<Longrightarrow> segment i j xs ! k = xs ! (i + k)"
  by (simp add: segment_def)

lemma segment_eqI:
  assumes "j \<le> length xs" and "j \<le> length ys" and "\<And>k. i \<le> k \<Longrightarrow> k < j \<Longrightarrow> xs ! k = ys ! k"
  shows "segment i j xs = segment i j ys"
  using assms by (intro nth_equalityI) (auto simp: nth_segment)

lemma segment_append:
  assumes "i \<le> j" and "j \<le> k"
  shows "segment i j xs @ segment j k xs = segment i k xs"
proof -
  have "drop j xs = drop (j - i) (drop i xs)" and "k - i = (j - i) + (k - j)"
    using assms by simp_all
  then show ?thesis unfolding segment_def by (simp only: take_add)
qed

lemma segment_Cons: "i < j \<Longrightarrow> j \<le> length xs \<Longrightarrow> segment i j xs = xs ! i # segment (Suc i) j xs"
  by (simp add: segment_def Cons_nth_drop_Suc[symmetric] take_Cons' diff_Suc split: nat.splits)

lemma segment_update_outside [segment_simps]:
  assumes "k < i \<or> j \<le> k" and "j \<le> length xs"
  shows "segment i j (xs[k := x]) = segment i j xs"
  using assms by (intro segment_eqI) auto

lemma take_segment: "take n (segment i j xs) = segment i (min (i + n) j) xs"
  by (simp add: segment_def min_def) arith

lemma drop_segment: "drop n (segment i j xs) = segment (i + n) j xs"
  by (simp add: segment_def drop_take add.commute)

lemma segment_memmove_front:
  assumes "memmove 0 r n xs = Some ys"
  shows "segment 0 n ys = segment r (r + n) xs"
  using assms by (auto simp: memmove_def segment_def split: if_splits)

lemma memcpy_total: "d + length ys \<le> length xs \<Longrightarrow> \<exists>zs. memcpy d ys xs = Some zs"
  by (simp add: memcpy_def)

lemma segment_memcpy_inside:
  assumes "memcpy d zs xs = Some ys"
  shows "segment d (d + length zs) ys = zs"
  using assms by (auto simp: memcpy_def segment_def split: if_splits)

lemma segment_memcpy_before:
  assumes "memcpy d zs xs = Some ys" and "j \<le> d"
  shows "segment i j ys = segment i j xs"
proof -
  from assms have ys: "ys = take d xs @ zs @ drop (d + length zs) xs" and le: "d + length zs \<le> length xs"
    by (auto simp: memcpy_def split: if_splits)
  show ?thesis
    using assms(2) le by (intro segment_eqI) (auto simp: ys nth_append)
qed

lemma segment_memcpy_after:
  assumes "memcpy d zs xs = Some ys" and "d + length zs \<le> i" and "j \<le> length xs"
  shows "segment i j ys = segment i j xs"
proof -
  from assms have ys: "ys = take d xs @ zs @ drop (d + length zs) xs" and le: "d + length zs \<le> length xs"
    by (auto simp: memcpy_def split: if_splits)
  show ?thesis
    using assms(2,3) le by (intro segment_eqI) (auto simp: ys nth_append)
qed

section \<open>Block counts\<close>

text \<open>\<open>(n + k - 1) / k\<close>, the number of \<open>k\<close>-byte blocks that hold \<open>n\<close> bytes.\<close>

definition blocks :: "nat \<Rightarrow> nat \<Rightarrow> nat" where
  "blocks k n = (n + k - 1) div k"

lemma blocks_bounds:
  assumes "0 < k"
  shows "n \<le> k * blocks k n" and "k * blocks k n < n + k"
proof -
  have "(n + k - 1) mod k < k" using assms by simp
  moreover have "k * blocks k n + (n + k - 1) mod k = n + k - 1"
    by (simp add: blocks_def)
  ultimately show "n \<le> k * blocks k n" and "k * blocks k n < n + k"
    using assms by linarith+
qed

lemma blocks_pos_iff [simp]: "0 < k \<Longrightarrow> 0 < blocks k n \<longleftrightarrow> 0 < n"
  using blocks_bounds [of k n] by (cases "blocks k n") auto

lemma blocks_eq_0_iff [simp]: "0 < k \<Longrightarrow> blocks k n = 0 \<longleftrightarrow> n = 0"
  using blocks_pos_iff [of k n] by linarith

lemma blocks_0 [simp]: "0 < k \<Longrightarrow> blocks k 0 = 0"
  by simp

lemma blocks_mono: "m \<le> n \<Longrightarrow> blocks k m \<le> blocks k n"
  unfolding blocks_def by (rule div_le_mono) simp

lemma blocks_add_self: "0 < k \<Longrightarrow> blocks k (n + k) = Suc (blocks k n)"
proof -
  assume "0 < k"
  then have "n + k + k - 1 = (n + k - 1) + k" by simp
  with \<open>0 < k\<close> show ?thesis unfolding blocks_def by (simp only: div_add_self2)
qed

lemma unat_u16_less: "unat (s :: u16) < 65536"
  using unsigned_less [of s, where ?'a = nat] by simp

lemma unat_u32_less: "unat (s :: u32) < 2 ^ 32"
  using unsigned_less [of s, where ?'a = nat] by simp

lemma blocks8_u16: "blocks 8 (unat (s :: u16)) \<le> 8192"
proof -
  have "unat s \<le> 65535" using unat_u16_less [of s] by simp
  then have "blocks 8 (unat s) \<le> blocks 8 65535" by (rule blocks_mono)
  then show ?thesis by (simp add: blocks_def)
qed

lemma blocks64_u16: "blocks 64 (unat (s :: u16)) \<le> 1024"
proof -
  have "unat s \<le> 65535" using unat_u16_less [of s] by simp
  then have "blocks 64 (unat s) \<le> blocks 64 65535" by (rule blocks_mono)
  then show ?thesis by (simp add: blocks_def)
qed

section \<open>Wrapping counters\<close>

lemma unat_add_exact [unat_exact]:
  "unat a + unat b < 2 ^ LENGTH('a) \<Longrightarrow> unat (a + b) = unat a + unat b" for a b :: "'a::len word"
  by (simp add: unat_word_ariths)

lemma unat_sub_exact [unat_exact]:
  "unat b \<le> unat a \<Longrightarrow> unat (a - b) = unat a - unat b" for a b :: "'a::len word"
  by (simp add: unat_sub_if')

lemma unat_of_nat_exact [unat_exact]:
  "n < 2 ^ LENGTH('a) \<Longrightarrow> unat (word_of_nat n :: 'a::len word) = n"
  by (simp add: unat_of_nat)

text \<open>\<open>size += sizeof(MsgHeader)\<close> on a \<open>uint16_t\<close> is exact up to 65527 and wraps beyond.\<close>

lemma unat_size_plus_header: "unat (sz :: u16) + 8 < 65536 \<Longrightarrow> unat (sz + 8) = unat sz + 8"
  by (subst unat_add_exact) simp_all

text \<open>
  \<open>(int)(a - b)\<close> on \<open>uint32_t\<close> counters: the two's complement reading of the wrapped
  difference. It is the true difference as long as the counters are less than
  \<open>2\<^sup>3\<^sup>1\<close> apart, wherever they stand on the circle.
\<close>

definition sdiff :: "u32 \<Rightarrow> u32 \<Rightarrow> int" where
  "sdiff a b = sint (a - b)"

lemma sint_of_int_exact:
  assumes "- (2 ^ 31) \<le> x" and "x < 2 ^ 31"
  shows "sint (word_of_int x :: u32) = x"
  using assms by (simp add: sint_sbintrunc' signed_take_bit_int_eq_self)

lemma sdiff_exact:
  assumes "a = word_of_nat m" and "b = word_of_nat n"
    and "int m < int n + 2 ^ 31" and "int n \<le> int m + 2 ^ 31"
  shows "sdiff a b = int m - int n"
proof -
  have "a - b = word_of_int (int m - int n)"
    using assms(1,2) by simp
  then show ?thesis
    using sint_of_int_exact [of "int m - int n"] assms(3,4) unfolding sdiff_def by simp
qed

lemma sdiff_self [simp]: "sdiff a a = 0"
  by (simp add: sdiff_def)

lemma sint_u32: "sint (x :: u32) = (if unat x < 2 ^ 31 then int (unat x) else int (unat x) - 2 ^ 32)"
proof (cases "unat x < 2 ^ 31")
  case True
  have "sint (word_of_int (int (unat x)) :: u32) = int (unat x)"
    using True by (intro sint_of_int_exact) (simp_all del: of_nat_unat)
  moreover have "word_of_int (int (unat x)) = x" by simp
  ultimately show ?thesis using True by simp
next
  case False
  have "word_of_int (2 ^ 32) = (0 :: u32)" by simp
  then have "word_of_int (int (unat x) - 2 ^ 32) = x"
    by (simp only: wi_hom_sub [symmetric]) simp
  moreover have "sint (word_of_int (int (unat x) - 2 ^ 32) :: u32) = int (unat x) - 2 ^ 32"
    using False unat_u32_less [of x] by (intro sint_of_int_exact) (simp_all del: of_nat_unat)
  ultimately show ?thesis using False by presburger
qed

lemma sdiff_nonneg_unat: "0 \<le> sdiff a b \<longleftrightarrow> unat (a - b) < 2 ^ 31"
  using unat_u32_less [of "a - b"] by (simp add: sdiff_def sint_u32 del: of_nat_unat)

lemma sdiff_pos_unat: "0 < sdiff a b \<longleftrightarrow> 0 < unat (a - b) \<and> unat (a - b) < 2 ^ 31"
  using unat_u32_less [of "a - b"] by (simp add: sdiff_def sint_u32 del: of_nat_unat)

end
