(* ===== verification/Endian_Header.thy ===== *)
theory Endian_Header
  imports Tcpshm_Prelude
begin

text \<open>
  Byte order and the message header: \<open>tcp_bswap16/32/64\<close> of \<^verbatim>\<open>os.h\<close>, the class \<open>Endian\<close> of
  \<^verbatim>\<open>endian.h\<close> and the struct \<open>MsgHeader\<close> of \<^verbatim>\<open>msg_header.h\<close>.

  Memory is bytes. \<open>mem_bytes little n x\<close> are the \<open>n\<close> bytes at which a host stores the integer
  \<open>x\<close>, least significant byte first exactly when the host is little endian; the host's byte
  order (\<open>Endian::IsLittle\<close>, \<open>std::endian::native\<close>) is the parameter \<open>IsLittle\<close> of every
  definition that depends on it. The theorems show what the conversions are for: the bytes that
  leave a host do not depend on its byte order, and a peer of any byte order reads back the
  value that was sent.
\<close>

named_theorems byte_order \<open>conversion, storing and loading of integers and headers\<close>

section \<open>Integers in memory\<close>

primrec to_le :: "nat \<Rightarrow> 'a::len word \<Rightarrow> u8 list" where
  "to_le 0 x = []"
| "to_le (Suc n) x = ucast x # to_le n (drop_bit 8 x)"

primrec of_le :: "u8 list \<Rightarrow> 'a::len word" where
  "of_le [] = 0"
| "of_le (b # bs) = ucast b OR push_bit 8 (of_le bs)"

lemma length_to_le [simp]: "length (to_le n x) = n"
  by (induction n arbitrary: x) simp_all

lemma of_le_to_le: "of_le (to_le n x) = take_bit (8 * n) x"
proof (induction n arbitrary: x)
  case (Suc n)
  have "ucast (ucast x :: u8) = take_bit 8 x"
    by (rule bit_word_eqI) (simp add: bit_simps)
  moreover have "push_bit 8 (take_bit (8 * n) (drop_bit 8 x)) OR take_bit 8 x = take_bit (8 * Suc n) x"
    by (rule bit_word_eqI) (auto simp: bit_simps)
  ultimately show ?case by (simp add: Suc.IH or.commute)
qed simp

lemma bit_of_le_less: "bit (of_le bs :: 'a::len word) k \<Longrightarrow> k < 8 * length bs"
  by (induction bs arbitrary: k) (fastforce simp: bit_simps dest: bit_imp_le_length)+

lemma to_le_of_le:
  "8 * length bs \<le> LENGTH('a) \<Longrightarrow> to_le (length bs) (of_le bs :: 'a::len word) = bs"
proof (induction bs)
  case (Cons b bs)
  let ?w = "of_le bs :: 'a word"
  have "ucast (ucast b OR push_bit 8 ?w) = b"
    using Cons.prems by (intro bit_word_eqI) (auto simp: bit_simps)
  moreover have "drop_bit 8 (ucast b OR push_bit 8 ?w) = ?w"
    using Cons.prems by (intro bit_word_eqI) (auto simp: bit_simps dest: bit_imp_le_length bit_of_le_less)
  ultimately show ?case using Cons by simp
qed simp

text \<open>The bytes of an integer in the memory of a host, and the integer that a host reads from bytes.\<close>

definition mem_bytes :: "bool \<Rightarrow> nat \<Rightarrow> 'a::len word \<Rightarrow> u8 list" where
  "mem_bytes little n x = (if little then to_le n x else rev (to_le n x))"

definition mem_word :: "bool \<Rightarrow> u8 list \<Rightarrow> 'a::len word" where
  "mem_word little bs = of_le (if little then bs else rev bs)"

lemma length_mem_bytes [simp]: "length (mem_bytes little n x) = n"
  by (simp add: mem_bytes_def)

lemma mem_word_bytes [byte_order]:
  "LENGTH('a) = 8 * n \<Longrightarrow> mem_word little (mem_bytes little n x) = (x :: 'a::len word)"
  by (simp add: mem_word_def mem_bytes_def of_le_to_le take_bit_word_eq_self)

lemma mem_bytes_word [byte_order]:
  "LENGTH('a) = 8 * length bs \<Longrightarrow> n = length bs \<Longrightarrow>
   mem_bytes little n (mem_word little bs :: 'a::len word) = bs"
  using to_le_of_le [of bs, where ?'a = 'a] to_le_of_le [of "rev bs", where ?'a = 'a]
  by (simp add: mem_word_def mem_bytes_def)

section \<open>Byte swapping and Endian::Convert\<close>

text \<open>
  \<open>__builtin_bswap16/32/64\<close> and \<open>_byteswap_ushort/ulong/uint64\<close>: the value with the order of its
  bytes reversed.
\<close>

definition tcp_bswap16 :: "u16 \<Rightarrow> u16" where
  "tcp_bswap16 x = of_le (rev (to_le 2 x))"

definition tcp_bswap32 :: "u32 \<Rightarrow> u32" where
  "tcp_bswap32 x = of_le (rev (to_le 4 x))"

definition tcp_bswap64 :: "u64 \<Rightarrow> u64" where
  "tcp_bswap64 x = of_le (rev (to_le 8 x))"

text \<open>\<open>Endian<ToLittle>::Convert\<close>, dispatching on \<open>sizeof(T)\<close> as the template does.\<close>

definition Convert :: "bool \<Rightarrow> bool \<Rightarrow> 'a::len word \<Rightarrow> 'a word" where
  "Convert ToLittle IsLittle t =
     (if ToLittle = IsLittle then t
      else if LENGTH('a) = 16 then ucast (tcp_bswap16 (ucast t))
      else if LENGTH('a) = 32 then ucast (tcp_bswap32 (ucast t))
      else if LENGTH('a) = 64 then ucast (tcp_bswap64 (ucast t))
      else t)"

lemma to_le_swap:
  fixes x :: "'a::len word"
  assumes "LENGTH('a) = 8 * n"
  shows "to_le n (of_le (rev (to_le n x)) :: 'a word) = rev (to_le n x)"
  using to_le_of_le [of "rev (to_le n x)", where ?'a = 'a] assms by simp

lemma tcp_bswap_bytes [byte_order]:
  "to_le 2 (tcp_bswap16 x) = rev (to_le 2 x)"
  "to_le 4 (tcp_bswap32 y) = rev (to_le 4 y)"
  "to_le 8 (tcp_bswap64 z) = rev (to_le 8 z)"
  unfolding tcp_bswap16_def tcp_bswap32_def tcp_bswap64_def
  by (rule to_le_swap, simp)+

lemma Convert_width:
  "Convert wl hl (x :: u16) = (if wl = hl then x else tcp_bswap16 x)"
  "Convert wl hl (y :: u32) = (if wl = hl then y else tcp_bswap32 y)"
  "Convert wl hl (z :: u64) = (if wl = hl then z else tcp_bswap64 z)"
  by (simp_all add: Convert_def)

text \<open>What a host stores after \<open>Convert\<close> is the value in the wire's byte order.\<close>

lemma mem_bytes_Convert [byte_order]:
  "mem_bytes hl 2 (Convert wl hl (x :: u16)) = mem_bytes wl 2 x"
  "mem_bytes hl 4 (Convert wl hl (y :: u32)) = mem_bytes wl 4 y"
  "mem_bytes hl 8 (Convert wl hl (z :: u64)) = mem_bytes wl 8 z"
  by (auto simp: Convert_width mem_bytes_def tcp_bswap_bytes)

lemma mem_word_bytes_width [byte_order]:
  "mem_word hl (mem_bytes hl 2 x) = (x :: u16)"
  "mem_word hl (mem_bytes hl 4 y) = (y :: u32)"
  "mem_word hl (mem_bytes hl 8 z) = (z :: u64)"
  by (simp_all add: mem_word_bytes)

lemma Convert_load [byte_order]:
  "Convert wl hl (mem_word hl (mem_bytes wl 2 x)) = (x :: u16)"
  "Convert wl hl (mem_word hl (mem_bytes wl 4 y)) = (y :: u32)"
  "Convert wl hl (mem_word hl (mem_bytes wl 8 z)) = (z :: u64)"
  by (auto simp: mem_word_def mem_bytes_def Convert_width tcp_bswap16_def tcp_bswap32_def
      tcp_bswap64_def of_le_to_le to_le_swap take_bit_word_eq_self)

section \<open>Conversions are involutions\<close>

text \<open>
  The contract every \<open>ConvertByteOrder\<close> of the sources relies on: the same in-place conversion
  is applied before sending and after receiving, and, in \<open>TcpShmClient::Connect\<close>, a second time
  to get the local values back.
\<close>

locale in_place_conversion =
  fixes conv :: "'a \<Rightarrow> 'a"
  assumes conv_conv [simp]: "conv (conv x) = x"
begin

lemma conv_eq_iff: "conv x = conv y \<longleftrightarrow> x = y"
  by (metis conv_conv)

lemma conv_swap: "conv x = y \<longleftrightarrow> x = conv y"
  by (metis conv_conv)

lemma bij_conv: "bij conv"
  by (rule o_bij [of conv]) (simp_all add: fun_eq_iff)

end

lemma Convert_Convert [simp]:
  "Convert wl hl (Convert wl hl (x :: u16)) = x"
  "Convert wl hl (Convert wl hl (y :: u32)) = y"
  "Convert wl hl (Convert wl hl (z :: u64)) = z"
  by (metis Convert_load mem_bytes_Convert mem_word_bytes_width)+

interpretation conv16: in_place_conversion "Convert wl hl :: u16 \<Rightarrow> u16" for wl hl
  by unfold_locales simp

interpretation conv32: in_place_conversion "Convert wl hl :: u32 \<Rightarrow> u32" for wl hl
  by unfold_locales simp

interpretation conv64: in_place_conversion "Convert wl hl :: u64 \<Rightarrow> u64" for wl hl
  by unfold_locales simp

section \<open>MsgHeader\<close>

record msg_header =
  hdr_size :: u16
  hdr_msg_type :: u16
  hdr_ack_seq :: u32

definition sizeof_MsgHeader :: nat where
  "sizeof_MsgHeader = 8"

definition ConvertByteOrder :: "bool \<Rightarrow> bool \<Rightarrow> msg_header \<Rightarrow> msg_header" where
  "ConvertByteOrder ToLittle IsLittle h =
     \<lparr>hdr_size = Convert ToLittle IsLittle (hdr_size h),
      hdr_msg_type = Convert ToLittle IsLittle (hdr_msg_type h),
      hdr_ack_seq = Convert ToLittle IsLittle (hdr_ack_seq h)\<rparr>"

interpretation conv_header: in_place_conversion "ConvertByteOrder wl hl" for wl hl
  by unfold_locales (simp add: ConvertByteOrder_def)

lemma ConvertByteOrder_sel [simp]:
  "hdr_size (ConvertByteOrder wl hl h) = Convert wl hl (hdr_size h)"
  "hdr_msg_type (ConvertByteOrder wl hl h) = Convert wl hl (hdr_msg_type h)"
  "hdr_ack_seq (ConvertByteOrder wl hl h) = Convert wl hl (hdr_ack_seq h)"
  by (simp_all add: ConvertByteOrder_def)

text \<open>The eight bytes of a header in memory, and the header read from eight bytes.\<close>

definition hdr_bytes :: "bool \<Rightarrow> msg_header \<Rightarrow> u8 list" where
  "hdr_bytes little h =
     mem_bytes little 2 (hdr_size h) @ mem_bytes little 2 (hdr_msg_type h) @ mem_bytes little 4 (hdr_ack_seq h)"

definition hdr_of_bytes :: "bool \<Rightarrow> u8 list \<Rightarrow> msg_header" where
  "hdr_of_bytes little bs =
     \<lparr>hdr_size = mem_word little (take 2 bs),
      hdr_msg_type = mem_word little (take 2 (drop 2 bs)),
      hdr_ack_seq = mem_word little (take 4 (drop 4 bs))\<rparr>"

lemma length_hdr_bytes [simp]: "length (hdr_bytes little h) = 8"
  by (simp add: hdr_bytes_def)

lemma hdr_of_bytes_bytes [simp]: "hdr_of_bytes little (hdr_bytes little h) = h"
  by (simp add: hdr_of_bytes_def hdr_bytes_def mem_word_bytes_width)

lemma hdr_bytes_of_bytes [simp]:
  assumes "length bs = 8"
  shows "hdr_bytes little (hdr_of_bytes little bs) = bs"
proof -
  have "take 2 bs @ take 2 (drop 2 bs) @ take 4 (drop 4 bs) = bs"
    using assms by (simp add: append_eq_conv_conj take_drop min_def)
  then show ?thesis using assms by (simp add: hdr_bytes_def hdr_of_bytes_def mem_bytes_word)
qed

lemma Convert_same [simp]: "Convert hl hl x = x"
  by (simp add: Convert_def)

lemma ConvertByteOrder_same [simp]: "ConvertByteOrder hl hl h = h"
  by (simp add: ConvertByteOrder_def)

lemma hdr_bytes_Convert [byte_order]: "hdr_bytes hl (ConvertByteOrder wl hl h) = hdr_bytes wl h"
  by (simp add: hdr_bytes_def mem_bytes_Convert)

lemma Convert_hdr_of_bytes [byte_order]:
  "ConvertByteOrder wl hl (hdr_of_bytes hl (hdr_bytes wl h)) = h"
  by (simp add: hdr_bytes_def hdr_of_bytes_def ConvertByteOrder_def Convert_load)

section \<open>Arrays of 8-byte cells\<close>

text \<open>
  Both message queues store their data in arrays of 8-byte cells whose static type is
  \<open>MsgHeader\<close>; the cells behind a header hold the payload bytes of the message.
  \<open>cells_bytes\<close> is the byte view of such an array; \<open>memcpy_cells\<close> is a \<open>memcpy\<close> of bytes to a
  byte offset of it.
\<close>

definition cells_bytes :: "bool \<Rightarrow> msg_header list \<Rightarrow> u8 list" where
  "cells_bytes hl cs = concat (map (hdr_bytes hl) cs)"

fun bytes_cells :: "bool \<Rightarrow> u8 list \<Rightarrow> msg_header list" where
  "bytes_cells hl bs = (if length bs < 8 then [] else hdr_of_bytes hl (take 8 bs) # bytes_cells hl (drop 8 bs))"

declare bytes_cells.simps [simp del]

definition memcpy_cells :: "bool \<Rightarrow> nat \<Rightarrow> u8 list \<Rightarrow> msg_header list \<Rightarrow> msg_header list option" where
  "memcpy_cells hl off bs cs = map_option (bytes_cells hl) (memcpy off bs (cells_bytes hl cs))"

lemma cells_bytes_simps [simp]:
  "cells_bytes hl [] = []"
  "cells_bytes hl (c # cs) = hdr_bytes hl c @ cells_bytes hl cs"
  "cells_bytes hl (cs @ ds) = cells_bytes hl cs @ cells_bytes hl ds"
  by (simp_all add: cells_bytes_def)

lemma length_cells_bytes [simp]: "length (cells_bytes hl cs) = 8 * length cs"
  by (induction cs) simp_all

lemma bytes_cells_bytes [simp]: "bytes_cells hl (cells_bytes hl cs) = cs"
  by (induction cs) (simp_all add: bytes_cells.simps)

lemma cells_bytes_of_bytes:
  "8 dvd length bs \<Longrightarrow> cells_bytes hl (bytes_cells hl bs) = bs"
proof (induction hl bs rule: bytes_cells.induct)
  case (1 hl bs)
  then show ?case
    by (cases "length bs < 8") (auto simp: bytes_cells.simps [of hl bs] dvd_imp_le dest: dvd_imp_le)
qed

lemma length_bytes_cells: "length (bytes_cells hl bs) = length bs div 8"
proof (induction hl bs rule: bytes_cells.induct)
  case (1 hl bs)
  then show ?case
    by (cases "length bs < 8") (simp_all add: bytes_cells.simps [of hl bs] le_div_geq)
qed

lemma cells_bytes_inject [simp]: "cells_bytes hl cs = cells_bytes hl ds \<longleftrightarrow> cs = ds"
  by (metis bytes_cells_bytes)

lemma cells_bytes_take: "cells_bytes hl (take n cs) = take (8 * n) (cells_bytes hl cs)"
proof (cases "n \<le> length cs")
  case True
  have "cells_bytes hl cs = cells_bytes hl (take n cs) @ cells_bytes hl (drop n cs)"
    by (simp flip: cells_bytes_simps(3))
  with True show ?thesis by simp
qed simp

lemma cells_bytes_drop: "cells_bytes hl (drop n cs) = drop (8 * n) (cells_bytes hl cs)"
proof (cases "n \<le> length cs")
  case True
  have "cells_bytes hl cs = cells_bytes hl (take n cs) @ cells_bytes hl (drop n cs)"
    by (simp flip: cells_bytes_simps(3))
  with True show ?thesis by simp
qed simp

lemma cells_bytes_segment:
  "cells_bytes hl (segment i j cs) = segment (8 * i) (8 * j) (cells_bytes hl cs)"
  by (simp add: segment_def cells_bytes_take cells_bytes_drop diff_mult_distrib2)

lemma memcpy_cells_SomeD:
  assumes "memcpy_cells hl off bs cs = Some ds"
  shows "length ds = length cs"
    and "memcpy off bs (cells_bytes hl cs) = Some (cells_bytes hl ds)"
proof -
  from assms obtain ys where ys: "memcpy off bs (cells_bytes hl cs) = Some ys" and ds: "ds = bytes_cells hl ys"
    by (auto simp: memcpy_cells_def)
  have len: "length ys = 8 * length cs" using length_memcpy [OF ys] by simp
  then show "length ds = length cs" by (simp add: ds length_bytes_cells)
  show "memcpy off bs (cells_bytes hl cs) = Some (cells_bytes hl ds)"
    using ys len by (simp add: ds cells_bytes_of_bytes)
qed

lemma memcpy_cells_total:
  "off + length bs \<le> 8 * length cs \<Longrightarrow> \<exists>ds. memcpy_cells hl off bs cs = Some ds"
  by (simp add: memcpy_cells_def memcpy_def)

lemma memcpy_cells_before:
  assumes "memcpy_cells hl off bs cs = Some ds" and "8 * j \<le> off"
  shows "segment i j ds = segment i j cs"
proof -
  have "cells_bytes hl (segment i j ds) = cells_bytes hl (segment i j cs)"
    unfolding cells_bytes_segment
    using memcpy_cells_SomeD(2) [OF assms(1)] assms(2) by (rule segment_memcpy_before)
  then show ?thesis by simp
qed

lemma memcpy_cells_after:
  assumes "memcpy_cells hl off bs cs = Some ds" and "off + length bs \<le> 8 * i" and "j \<le> length cs"
  shows "segment i j ds = segment i j cs"
proof -
  have "cells_bytes hl (segment i j ds) = cells_bytes hl (segment i j cs)"
    unfolding cells_bytes_segment
    using memcpy_cells_SomeD(2) [OF assms(1)] assms(2,3) by (intro segment_memcpy_after) simp_all
  then show ?thesis by simp
qed

lemma memcpy_cells_nth_outside:
  assumes "memcpy_cells hl off bs cs = Some ds" and "k < length cs"
    and "8 * Suc k \<le> off \<or> off + length bs \<le> 8 * k"
  shows "ds ! k = cs ! k"
proof -
  have "segment k (Suc k) ds = segment k (Suc k) cs"
    using assms memcpy_cells_before [OF assms(1)] memcpy_cells_after [OF assms(1)] by (metis Suc_leI)
  then have "segment k (Suc k) ds ! 0 = segment k (Suc k) cs ! 0" by simp
  then show ?thesis
    using assms(2) memcpy_cells_SomeD(1) [OF assms(1)] by (simp add: nth_segment)
qed

lemma memcpy_cells_inside:
  assumes "memcpy_cells hl off bs cs = Some ds"
  shows "segment off (off + length bs) (cells_bytes hl ds) = bs"
  using memcpy_cells_SomeD(2) [OF assms] by (rule segment_memcpy_inside)

section \<open>Properties\<close>

text \<open>A message header crosses between hosts of any byte orders. The eight bytes a sender leaves in
  memory after \<open>ConvertByteOrder\<close> are the header in the configured wire order whatever the sender's
  own byte order (\<open>hl\<close>) is, and a receiver of any byte order (\<open>hl'\<close>) that loads those bytes and
  converts in place gets the header that was sent.\<close>

theorem header_crosses_hosts:
  "hdr_bytes hl (ConvertByteOrder wl hl h) = hdr_bytes wl h \<and>
   ConvertByteOrder wl hl' (hdr_of_bytes hl' (hdr_bytes hl (ConvertByteOrder wl hl h))) = h"
  by (simp add: byte_order)

text \<open>\<open>Endian::Convert\<close> at the widths of the wire format: for 16, 32 and 64 bits the stored bytes of
  the converted value are the value in wire order, and converting what any peer loads from them
  gives the value back.\<close>

theorem Convert_crosses_hosts:
  "mem_bytes hl 2 (Convert wl hl (x :: u16)) = mem_bytes wl 2 x \<and>
   mem_bytes hl 4 (Convert wl hl (y :: u32)) = mem_bytes wl 4 y \<and>
   mem_bytes hl 8 (Convert wl hl (z :: u64)) = mem_bytes wl 8 z \<and>
   Convert wl hl' (mem_word hl' (mem_bytes hl 2 (Convert wl hl x))) = x \<and>
   Convert wl hl' (mem_word hl' (mem_bytes hl 4 (Convert wl hl y))) = y \<and>
   Convert wl hl' (mem_word hl' (mem_bytes hl 8 (Convert wl hl z))) = z"
  by (simp add: byte_order)

end
