(* ===== verification/Os_Layer.thy ===== *)
theory Os_Layer
  imports Endian_Header
begin

text \<open>
  The operating system layer, \<^verbatim>\<open>os.h\<close> (its POSIX branches). The kernel is not part of the sources:
  it is the parameter \<open>os\<close>, a record of the system calls over an arbitrary type \<open>'w\<close> of worlds. What
  the code relies on is stated by predicates over that record (\<open>send_ok\<close>, \<open>recv_ok\<close>, \<open>stream_send\<close>,
  \<open>stream_recv\<close>: the documented behaviour of \<open>send\<close>, \<open>recv\<close> and \<open>readv\<close> on a stream socket), which
  appear as hypotheses of the theorems. \<open>script_os\<close> is a concrete kernel that replays given results;
  it shows that the hypotheses can hold.

  A system call that returns a number \<open>\<le> 0\<close> has transferred nothing; \<open>sys_errno\<close> is the error
  number of the last call.
\<close>

section \<open>System calls\<close>

text \<open>An IPv4 address and port, and the socket options the code sets (timeouts in seconds and microseconds).\<close>

type_synonym sockaddr = "u32 \<times> u16"

datatype sockopt = SO_REUSEADDR bool | TCP_NODELAY bool | SO_RCVTIMEO int int | SO_SNDTIMEO int int

record 'w os =
  sys_send :: "int \<Rightarrow> u8 list \<Rightarrow> 'w \<Rightarrow> int \<times> 'w"
  sys_recv :: "int \<Rightarrow> nat \<Rightarrow> 'w \<Rightarrow> (int \<times> u8 list) \<times> 'w"
  sys_readv :: "int \<Rightarrow> nat list \<Rightarrow> 'w \<Rightarrow> (int \<times> u8 list) \<times> 'w"
  sys_errno :: "'w \<Rightarrow> int"
  sys_close :: "int \<Rightarrow> 'w \<Rightarrow> int \<times> 'w"
  sys_new :: "nat \<Rightarrow> 'w \<Rightarrow> u8 list \<times> 'w"
  sys_open :: "string \<Rightarrow> bool \<Rightarrow> 'w \<Rightarrow> int \<times> 'w"
  sys_shm_open :: "string \<Rightarrow> bool \<Rightarrow> 'w \<Rightarrow> int \<times> 'w"
  sys_ftruncate :: "int \<Rightarrow> nat \<Rightarrow> 'w \<Rightarrow> int \<times> 'w"
  sys_shm_unlink :: "string \<Rightarrow> 'w \<Rightarrow> int \<times> 'w"
  sys_mkdir :: "string \<Rightarrow> 'w \<Rightarrow> int \<times> 'w"
  sys_socket :: "'w \<Rightarrow> int \<times> 'w"
  sys_accept :: "int \<Rightarrow> 'w \<Rightarrow> (int \<times> sockaddr) \<times> 'w"
  sys_bind :: "int \<Rightarrow> sockaddr \<Rightarrow> 'w \<Rightarrow> int \<times> 'w"
  sys_listen :: "int \<Rightarrow> int \<Rightarrow> 'w \<Rightarrow> int \<times> 'w"
  sys_connect :: "int \<Rightarrow> sockaddr \<Rightarrow> 'w \<Rightarrow> int \<times> 'w"
  sys_setsockopt :: "int \<Rightarrow> sockopt \<Rightarrow> 'w \<Rightarrow> int \<times> 'w"
  sys_getfl :: "int \<Rightarrow> 'w \<Rightarrow> int \<times> 'w"
  sys_setfl :: "int \<Rightarrow> int \<Rightarrow> 'w \<Rightarrow> int \<times> 'w"
  sys_inet_pton :: "string \<Rightarrow> u32 option"

definition INVALID_TCP_SOCKET :: int where
  "INVALID_TCP_SOCKET = - 1"

definition TCP_ERR_AGAIN :: int where
  "TCP_ERR_AGAIN = 11"

definition tcp_get_last_error :: "'w os \<Rightarrow> 'w \<Rightarrow> int" where
  "tcp_get_last_error os w = sys_errno os w"

definition tcp_close :: "'w os \<Rightarrow> int \<Rightarrow> 'w \<Rightarrow> int \<times> 'w" where
  "tcp_close os s w = sys_close os s w"

definition tcp_send :: "'w os \<Rightarrow> int \<Rightarrow> u8 list \<Rightarrow> 'w \<Rightarrow> int \<times> 'w" where
  "tcp_send os s buf w = sys_send os s buf w"

definition tcp_socket :: "'w os \<Rightarrow> 'w \<Rightarrow> int \<times> 'w" where
  "tcp_socket os w = sys_socket os w"

definition tcp_accept :: "'w os \<Rightarrow> int \<Rightarrow> 'w \<Rightarrow> (int \<times> sockaddr) \<times> 'w" where
  "tcp_accept os s w = sys_accept os s w"

definition tcp_bind :: "'w os \<Rightarrow> int \<Rightarrow> sockaddr \<Rightarrow> 'w \<Rightarrow> int \<times> 'w" where
  "tcp_bind os s addr w = sys_bind os s addr w"

definition tcp_listen :: "'w os \<Rightarrow> int \<Rightarrow> int \<Rightarrow> 'w \<Rightarrow> int \<times> 'w" where
  "tcp_listen os s backlog w = sys_listen os s backlog w"

definition tcp_connect :: "'w os \<Rightarrow> int \<Rightarrow> sockaddr \<Rightarrow> 'w \<Rightarrow> int \<times> 'w" where
  "tcp_connect os s addr w = sys_connect os s addr w"

definition tcp_setsockopt :: "'w os \<Rightarrow> int \<Rightarrow> sockopt \<Rightarrow> 'w \<Rightarrow> int \<times> 'w" where
  "tcp_setsockopt os s opt w = sys_setsockopt os s opt w"

text \<open>\<open>fcntl\<close> with \<open>F_SETFL\<close> and \<open>F_GETFL\<close>.\<close>

definition O_NONBLOCK :: int where
  "O_NONBLOCK = 0x800"

definition tcp_set_nonblocking :: "'w os \<Rightarrow> int \<Rightarrow> 'w \<Rightarrow> int \<times> 'w" where
  "tcp_set_nonblocking os s w = sys_setfl os s O_NONBLOCK w"

definition tcp_set_blocking :: "'w os \<Rightarrow> int \<Rightarrow> 'w \<Rightarrow> int \<times> 'w" where
  "tcp_set_blocking os s w =
     (case sys_getfl os s w of
        (flags, w1) \<Rightarrow> if flags < 0 then (flags, w1) else sys_setfl os s (flags AND NOT O_NONBLOCK) w1)"

text \<open>\<open>tcp_set_timeout\<close>; \<open>opt\<close> is \<open>SO_RCVTIMEO\<close> or \<open>SO_SNDTIMEO\<close>, and the timeout is not negative.\<close>

definition tcp_set_timeout :: "'w os \<Rightarrow> int \<Rightarrow> (int \<Rightarrow> int \<Rightarrow> sockopt) \<Rightarrow> int \<Rightarrow> 'w \<Rightarrow> int \<times> 'w" where
  "tcp_set_timeout os s opt timeout_ms w = sys_setsockopt os s (opt (timeout_ms div 1000) (timeout_ms mod 1000 * 1000)) w"

text \<open>
  An address that is cleared with \<open>memset\<close> and then filled in by \<open>inet_pton\<close> (which leaves it alone
  when the text is not an address) and \<open>htons\<close>; the pair has the port as a number.
\<close>

definition make_sockaddr :: "'w os \<Rightarrow> string \<Rightarrow> u16 \<Rightarrow> sockaddr" where
  "make_sockaddr os ipv4 port = (case sys_inet_pton os ipv4 of None \<Rightarrow> 0 | Some a \<Rightarrow> a, port)"

definition tcp_mkdir :: "'w os \<Rightarrow> string \<Rightarrow> 'w \<Rightarrow> int \<times> 'w" where
  "tcp_mkdir os path w = sys_mkdir os path w"

text \<open>\<open>recv\<close> stores the bytes it got at offset \<open>off\<close> of the caller's buffer.\<close>

definition tcp_recv :: "'w os \<Rightarrow> int \<Rightarrow> nat \<Rightarrow> nat \<Rightarrow> u8 list \<Rightarrow> 'w \<Rightarrow> (int \<times> u8 list \<times> 'w) option" where
  "tcp_recv os s off len buf w =
     (case sys_recv os s len w of
        ((ret, data), w') \<Rightarrow>
          if ret \<le> 0 then Some (ret, buf, w')
          else map_option (\<lambda>buf'. (ret, buf', w')) (memcpy off data buf))"

text \<open>
  \<open>readv\<close> with the two buffers of \<open>DoRecv\<close>: \<open>len\<close> bytes at offset \<open>off\<close> of the first one, and a
  second one of \<open>extra\<close> bytes. It fills the first before it touches the second; the result has the
  bytes put into the second one.
\<close>

definition tcp_readv ::
    "'w os \<Rightarrow> int \<Rightarrow> nat \<Rightarrow> nat \<Rightarrow> nat \<Rightarrow> u8 list \<Rightarrow> 'w \<Rightarrow> (int \<times> u8 list \<times> u8 list \<times> 'w) option" where
  "tcp_readv os s off len extra buf w =
     (case sys_readv os s [len, extra] w of
        ((ret, data), w') \<Rightarrow>
          if ret \<le> 0 then Some (ret, buf, [], w')
          else map_option (\<lambda>buf'. (ret, buf', drop len data, w')) (memcpy off (take len data) buf))"

section \<open>Memory mapping\<close>

text \<open>
  \<open>my_mmap<T>\<close> maps a file or shared-memory object as an object of type \<open>T\<close>. The type variable \<open>'t\<close>
  stands for \<open>T\<close>; \<open>map_fd\<close> is the kernel's \<open>mmap\<close> of a file descriptor with the mapped bytes read as a
  \<open>T\<close> (\<open>None\<close> for \<open>MAP_FAILED\<close>), \<open>unmap\<close> is \<open>munmap\<close>, which leaves the contents in the file. The flag
  of \<open>sys_open\<close> and \<open>sys_shm_open\<close> is \<open>O_CREAT\<close>. A result \<open>Inr\<close> carries the text stored in
  \<open>error_msg\<close>.
\<close>

record ('t, 'w) map_ops =
  map_sizeof :: nat
  map_fd :: "int \<Rightarrow> 'w \<Rightarrow> 't option \<times> 'w"
  unmap :: "'t \<Rightarrow> 'w \<Rightarrow> 'w"

definition mmap_and_close :: "'w os \<Rightarrow> ('t, 'w) map_ops \<Rightarrow> int \<Rightarrow> 'w \<Rightarrow> ('t + string) \<times> 'w" where
  "mmap_and_close os T fd w =
     (case map_fd T fd w of
        (ret, w1) \<Rightarrow>
          case sys_close os fd w1 of
            (_, w2) \<Rightarrow> (case ret of None \<Rightarrow> Inr ''mmap'' | Some p \<Rightarrow> Inl p, w2))"

definition my_mmap :: "'w os \<Rightarrow> ('t, 'w) map_ops \<Rightarrow> string \<Rightarrow> bool \<Rightarrow> 'w \<Rightarrow> ('t + string) \<times> 'w" where
  "my_mmap os T filename use_shm w =
     (case (if use_shm then sys_shm_open os filename True w else sys_open os filename True w) of
        (fd, w1) \<Rightarrow>
          if fd = - 1 then (Inr ''open'', w1)
          else case sys_ftruncate os fd (map_sizeof T) w1 of
                 (r, w2) \<Rightarrow>
                   if r \<noteq> 0 then (Inr ''ftruncate'', snd (sys_close os fd w2))
                   else mmap_and_close os T fd w2)"

definition my_mmap_existing :: "'w os \<Rightarrow> ('t, 'w) map_ops \<Rightarrow> string \<Rightarrow> bool \<Rightarrow> 'w \<Rightarrow> ('t + string) \<times> 'w" where
  "my_mmap_existing os T filename use_shm w =
     (case (if use_shm then sys_shm_open os filename False w else sys_open os filename False w) of
        (fd, w1) \<Rightarrow> if fd = - 1 then (Inr ''open'', w1) else mmap_and_close os T fd w1)"

definition my_munmap :: "('t, 'w) map_ops \<Rightarrow> 't \<Rightarrow> 'w \<Rightarrow> 'w" where
  "my_munmap T p w = unmap T p w"

definition my_shm_unlink :: "'w os \<Rightarrow> string \<Rightarrow> 'w \<Rightarrow> int \<times> 'w" where
  "my_shm_unlink os filename w = sys_shm_unlink os filename w"

section \<open>The loops that send and receive a whole buffer\<close>

text \<open>\<open>tcp_send_all\<close>: whether everything was sent, the error number it stores otherwise, the world.\<close>

function tcp_send_loop :: "'w os \<Rightarrow> int \<Rightarrow> u8 list \<Rightarrow> nat \<Rightarrow> 'w \<Rightarrow> bool \<times> int option \<times> 'w" where
  "tcp_send_loop os s buf sent_total w =
     (if sent_total < length buf
      then case tcp_send os s (drop sent_total buf) w of
             (ret, w') \<Rightarrow>
               if ret \<le> 0 then (False, Some (if ret < 0 then tcp_get_last_error os w' else 0), w')
               else tcp_send_loop os s buf (sent_total + nat ret) w'
      else (True, None, w))"
  by pat_completeness auto
termination
  by (relation "measure (\<lambda>(_, _, buf, sent_total, _). length buf - sent_total)") auto

declare tcp_send_loop.simps [simp del]

definition tcp_send_all :: "'w os \<Rightarrow> int \<Rightarrow> u8 list \<Rightarrow> 'w \<Rightarrow> bool \<times> int option \<times> 'w" where
  "tcp_send_all os s buf w = tcp_send_loop os s buf 0 w"

text \<open>\<open>tcp_recv_all\<close>: the buffer starts as \<open>buf\<close>, of which \<open>len\<close> bytes are to be filled.\<close>

function tcp_recv_loop ::
    "'w os \<Rightarrow> int \<Rightarrow> nat \<Rightarrow> nat \<Rightarrow> u8 list \<Rightarrow> 'w \<Rightarrow> (bool \<times> int option \<times> u8 list \<times> 'w) option" where
  "tcp_recv_loop os s len recv_total buf w =
     (if recv_total < len
      then case tcp_recv os s recv_total (len - recv_total) buf w of
             None \<Rightarrow> None
           | Some (ret, buf', w') \<Rightarrow>
               if ret \<le> 0 then Some (False, Some (if ret < 0 then tcp_get_last_error os w' else 0), buf', w')
               else tcp_recv_loop os s len (recv_total + nat ret) buf' w'
      else Some (True, None, buf, w))"
  by pat_completeness auto
termination
  by (relation "measure (\<lambda>(_, _, len, recv_total, _, _). len - recv_total)") auto

declare tcp_recv_loop.simps [simp del]

definition tcp_recv_all ::
    "'w os \<Rightarrow> int \<Rightarrow> nat \<Rightarrow> u8 list \<Rightarrow> 'w \<Rightarrow> (bool \<times> int option \<times> u8 list \<times> 'w) option" where
  "tcp_recv_all os s len buf w = tcp_recv_loop os s len 0 buf w"

section \<open>What the code relies on\<close>

text \<open>
  \<open>send\<close> never claims more than it was given; \<open>recv\<close> and \<open>readv\<close> return as many bytes as they say
  and never more than there was room for.
\<close>

definition send_ok :: "'w os \<Rightarrow> bool" where
  "send_ok os \<longleftrightarrow> (\<forall>s buf w. fst (sys_send os s buf w) \<le> int (length buf))"

text \<open>\<open>send\<close> of a non-empty buffer transfers at least one byte or reports an error.\<close>

definition send_progress :: "'w os \<Rightarrow> bool" where
  "send_progress os \<longleftrightarrow> (\<forall>s buf w. buf \<noteq> [] \<longrightarrow> fst (sys_send os s buf w) \<noteq> 0)"

definition recv_ok :: "'w os \<Rightarrow> bool" where
  "recv_ok os \<longleftrightarrow>
     (\<forall>s len w. case sys_recv os s len w of ((ret, data), _) \<Rightarrow>
        0 < ret \<longrightarrow> ret \<le> int len \<and> length data = nat ret) \<and>
     (\<forall>s lens w. case sys_readv os s lens w of ((ret, data), _) \<Rightarrow>
        0 < ret \<longrightarrow> ret \<le> int (sum_list lens) \<and> length data = nat ret)"

text \<open>\<open>new char[n]\<close> gives an array of \<open>n\<close> bytes with arbitrary contents.\<close>

definition new_ok :: "'w os \<Rightarrow> bool" where
  "new_ok os \<longleftrightarrow> (\<forall>n w. length (fst (sys_new os n w)) = n)"

text \<open>
  A stream socket: the bytes a \<open>send\<close> accepts are appended to what the socket has carried so far
  (\<open>out s w\<close>), and a \<open>recv\<close> takes bytes from the front of what arrives (\<open>inp s w\<close>).
\<close>

definition stream_send :: "'w os \<Rightarrow> (int \<Rightarrow> 'w \<Rightarrow> u8 list) \<Rightarrow> bool" where
  "stream_send os out \<longleftrightarrow>
     (\<forall>s buf w. case sys_send os s buf w of (ret, w') \<Rightarrow> out s w' = out s w @ take (nat ret) buf)"

definition stream_recv :: "'w os \<Rightarrow> (int \<Rightarrow> 'w \<Rightarrow> u8 list) \<Rightarrow> bool" where
  "stream_recv os inp \<longleftrightarrow>
     (\<forall>s len w. case sys_recv os s len w of ((ret, data), w') \<Rightarrow>
        inp s w = (if 0 < ret then data else []) @ inp s w') \<and>
     (\<forall>s lens w. case sys_readv os s lens w of ((ret, data), w') \<Rightarrow>
        inp s w = (if 0 < ret then data else []) @ inp s w') \<and>
     (\<forall>s n w. inp s (snd (sys_new os n w)) = inp s w)"

lemma send_okD: "send_ok os \<Longrightarrow> sys_send os s buf w = (ret, w') \<Longrightarrow> ret \<le> int (length buf)"
  unfolding send_ok_def by (metis fst_conv)

lemma send_progressD: "send_progress os \<Longrightarrow> sys_send os s buf w = (ret, w') \<Longrightarrow> buf \<noteq> [] \<Longrightarrow> ret \<noteq> 0"
  unfolding send_progress_def by (metis fst_conv)

lemma recv_okD:
  assumes "recv_ok os" and "0 < ret"
  shows "sys_recv os s len w = ((ret, data), w') \<Longrightarrow> ret \<le> int len \<and> length data = nat ret"
    and "sys_readv os s lens w = ((ret, data), w') \<Longrightarrow> ret \<le> int (sum_list lens) \<and> length data = nat ret"
proof -
  show "ret \<le> int len \<and> length data = nat ret" if "sys_recv os s len w = ((ret, data), w')"
    using assms that unfolding recv_ok_def by (metis (mono_tags, lifting) case_prod_conv)
  show "ret \<le> int (sum_list lens) \<and> length data = nat ret" if "sys_readv os s lens w = ((ret, data), w')"
    using assms that unfolding recv_ok_def by (metis (mono_tags, lifting) case_prod_conv)
qed

lemma stream_sendD:
  "stream_send os out \<Longrightarrow> sys_send os s buf w = (ret, w') \<Longrightarrow> out s w' = out s w @ take (nat ret) buf"
  unfolding stream_send_def by (metis (mono_tags, lifting) case_prod_conv)

lemma stream_recvD:
  assumes "stream_recv os inp"
  shows "sys_recv os s len w = ((ret, data), w') \<Longrightarrow> inp s w = (if 0 < ret then data else []) @ inp s w'"
    and "sys_readv os s lens w = ((ret, data), w') \<Longrightarrow> inp s w = (if 0 < ret then data else []) @ inp s w'"
    and "inp s (snd (sys_new os n w)) = inp s w"
proof -
  note r = assms [unfolded stream_recv_def, THEN conjunct1, THEN spec [of _ s], THEN spec [of _ len], THEN spec [of _ w]]
    and v = assms [unfolded stream_recv_def, THEN conjunct2, THEN conjunct1, THEN spec [of _ s], THEN spec [of _ lens], THEN spec [of _ w]]
  show "inp s w = (if 0 < ret then data else []) @ inp s w'" if "sys_recv os s len w = ((ret, data), w')"
    using r that by simp
  show "inp s w = (if 0 < ret then data else []) @ inp s w'" if "sys_readv os s lens w = ((ret, data), w')"
    using v that by simp
  show "inp s (snd (sys_new os n w)) = inp s w" using assms by (simp add: stream_recv_def)
qed

section \<open>The loops are correct\<close>

lemma tcp_send_loop_stream:
  "send_ok os \<Longrightarrow> stream_send os out \<Longrightarrow> n \<le> length buf \<Longrightarrow> tcp_send_loop os s buf n w = (ok, err, w') \<Longrightarrow>
   \<exists>k \<le> length buf. n \<le> k \<and> out s w' = out s w @ segment n k buf \<and> (ok \<longleftrightarrow> k = length buf)"
proof (induction os s buf n w rule: tcp_send_loop.induct)
  case (1 os s buf n w)
  obtain ret w1 where step: "sys_send os s (drop n buf) w = (ret, w1)" by fastforce
  have out1: "out s w1 = out s w @ take (nat ret) (drop n buf)" by (rule stream_sendD [OF "1.prems"(2) step])
  have ret: "ret \<le> int (length buf - n)" using send_okD [OF "1.prems"(1) step] by simp
  consider "n = length buf" | "n < length buf" "ret \<le> 0" | "n < length buf" "0 < ret" using "1.prems"(3) by linarith
  then show ?case
  proof cases
    case 1
    then show ?thesis using "1.prems"(4) by (subst (asm) tcp_send_loop.simps) simp
  next
    case 2
    then have "ok = False" "w' = w1" using "1.prems"(4) step
      by (subst (asm) tcp_send_loop.simps, simp add: tcp_send_def)+
    then show ?thesis using 2 out1 by (intro exI [of _ n]) simp
  next
    case 3
    have rest: "tcp_send_loop os s buf (n + nat ret) w1 = (ok, err, w')"
      using "1.prems"(4) 3 step by (subst (asm) tcp_send_loop.simps) (simp add: tcp_send_def)
    have "n + nat ret \<le> length buf" using ret 3 by linarith
    with "1.IH" [OF 3(1) _ _ "1.prems"(1,2) _ rest] step 3 obtain k where
      k: "k \<le> length buf" "n + nat ret \<le> k" "ok \<longleftrightarrow> k = length buf" "out s w' = out s w1 @ segment (n + nat ret) k buf"
      by (auto simp: tcp_send_def)
    have "take (nat ret) (drop n buf) @ segment (n + nat ret) k buf = segment n k buf"
      using segment_append [of n "n + nat ret" k buf] k(2) by (simp add: segment_def)
    then show ?thesis using k out1 by (intro exI [of _ k]) simp
  qed
qed

lemma tcp_recv_loop_stream:
  "recv_ok os \<Longrightarrow> stream_recv os inp \<Longrightarrow> n \<le> len \<Longrightarrow> len \<le> length buf \<Longrightarrow>
   \<exists>ok err buf' w' k. tcp_recv_loop os s len n buf w = Some (ok, err, buf', w') \<and> n \<le> k \<and> k \<le> len \<and>
     length buf' = length buf \<and> take n buf' = take n buf \<and>
     inp s w = segment n k buf' @ inp s w' \<and> (ok \<longleftrightarrow> k = len)"
proof (induction os s len n buf w rule: tcp_recv_loop.induct)
  case (1 os s len n buf w)
  obtain ret data w1 where step: "sys_recv os s (len - n) w = ((ret, data), w1)" by (metis surj_pair)
  have inp1: "inp s w = (if 0 < ret then data else []) @ inp s w1" by (rule stream_recvD(1) [OF "1.prems"(2) step])
  consider "n = len" | "n < len" "ret \<le> 0" | "n < len" "0 < ret" using "1.prems"(3) by linarith
  then show ?case
  proof cases
    case 1
    then have "tcp_recv_loop os s len n buf w = Some (True, None, buf, w)" by (subst tcp_recv_loop.simps) simp
    then show ?thesis using 1
      by - (rule exI [of _ True], rule exI [of _ None], rule exI [of _ buf], rule exI [of _ w], rule exI [of _ len], simp)
  next
    case 2
    then have "\<exists>err. tcp_recv_loop os s len n buf w = Some (False, err, buf, w1)"
      using step by (subst tcp_recv_loop.simps) (simp add: tcp_recv_def)
    then obtain err where "tcp_recv_loop os s len n buf w = Some (False, err, buf, w1)" by blast
    then show ?thesis using 2 inp1
      by - (rule exI [of _ False], rule exI [of _ err], rule exI [of _ buf], rule exI [of _ w1], rule exI [of _ n], simp)
  next
    case 3
    have ret: "ret \<le> int (len - n)" "length data = nat ret" using recv_okD(1) [OF "1.prems"(1) 3(2) step] by simp_all
    then have fits: "n + length data \<le> len" using 3 by linarith
    then have "n + length data \<le> length buf" using "1.prems"(4) by linarith
    then obtain buf1 where buf1: "memcpy n data buf = Some buf1" by (simp add: memcpy_def)
    have len1: "length buf1 = length buf" by (rule length_memcpy [OF buf1])
    have rcv: "tcp_recv os s n (len - n) buf w = Some (ret, buf1, w1)"
      using step 3 buf1 by (simp add: tcp_recv_def)
    have unfold: "tcp_recv_loop os s len n buf w = tcp_recv_loop os s len (n + nat ret) buf1 w1"
      using 3 rcv by (subst tcp_recv_loop.simps) simp
    have "\<not> ret \<le> 0" and "n + nat ret \<le> len" and "len \<le> length buf1"
      using 3 fits ret(2) len1 "1.prems"(4) by simp_all
    from "1.IH" [OF 3(1) rcv refl refl this(1) "1.prems"(1,2) this(2,3)]
    obtain ok err buf' w' k where rest: "tcp_recv_loop os s len (n + nat ret) buf1 w1 = Some (ok, err, buf', w')"
      "n + nat ret \<le> k" "k \<le> len" "length buf' = length buf1" "take (n + nat ret) buf' = take (n + nat ret) buf1"
      "inp s w1 = segment (n + nat ret) k buf' @ inp s w'" "ok \<longleftrightarrow> k = len"
      by blast
    have "segment n (n + nat ret) buf' = drop n (take (n + nat ret) buf')" by (simp add: segment_def drop_take)
    also have "\<dots> = drop n (take (n + nat ret) buf1)" by (simp only: rest(5))
    also have "\<dots> = data" using segment_memcpy_inside [OF buf1] ret(2) by (simp add: segment_def drop_take)
    finally have "inp s w = segment n k buf' @ inp s w'"
      using inp1 3 rest(2,6) segment_append [of n "n + nat ret" k buf'] by simp
    moreover have "take n buf' = take n buf"
    proof -
      have "take n buf' = take n (take (n + nat ret) buf1)" by (simp flip: rest(5))
      also have "\<dots> = take n buf" using buf1 by (auto simp: memcpy_def split: if_splits)
      finally show ?thesis .
    qed
    ultimately show ?thesis using rest unfold len1
      by - (rule exI [of _ ok], rule exI [of _ err], rule exI [of _ buf'], rule exI [of _ w'], rule exI [of _ k], simp)
  qed
qed

section \<open>A scripted kernel\<close>

text \<open>
  A concrete world: what has been sent on the socket, what will arrive, and the largest number of
  bytes that the next calls transfer (0: the call would block). When the list is used up, every call
  would block.
\<close>

record script_world =
  sw_out :: "u8 list"
  sw_inp :: "u8 list"
  sw_limits :: "nat list"
  sw_closed :: "int list"

definition sw_next :: "script_world \<Rightarrow> nat \<times> script_world" where
  "sw_next w = (case sw_limits w of [] \<Rightarrow> (0, w) | n # ns \<Rightarrow> (n, w\<lparr>sw_limits := ns\<rparr>))"

definition script_recv :: "int \<Rightarrow> nat \<Rightarrow> script_world \<Rightarrow> (int \<times> u8 list) \<times> script_world" where
  "script_recv s len w =
     (let (n, w') = sw_next w; data = take (min n len) (sw_inp w')
      in if data = [] then ((- 1, []), w')
         else ((int (length data), data), w'\<lparr>sw_inp := drop (min n len) (sw_inp w')\<rparr>))"

definition script_os :: "script_world os" where
  "script_os =
     \<lparr>sys_send = (\<lambda>s buf w. let (n, w') = sw_next w; k = min n (length buf)
                     in if k = 0 then (- 1, w') else (int k, w'\<lparr>sw_out := sw_out w' @ take k buf\<rparr>)),
      sys_recv = script_recv,
      sys_readv = (\<lambda>s lens. script_recv s (sum_list lens)),
      sys_errno = (\<lambda>w. TCP_ERR_AGAIN),
      sys_close = (\<lambda>s w. (0, w\<lparr>sw_closed := sw_closed w @ [s]\<rparr>)),
      sys_new = (\<lambda>n w. (replicate n 0, w)),
      sys_open = (\<lambda>f c w. (3, w)), sys_shm_open = (\<lambda>f c w. (3, w)),
      sys_ftruncate = (\<lambda>fd n w. (0, w)), sys_shm_unlink = (\<lambda>f w. (0, w)),
      sys_mkdir = (\<lambda>f w. (0, w)), sys_socket = (\<lambda>w. (5, w)), sys_accept = (\<lambda>s w. ((6, (0, 0)), w)),
      sys_bind = (\<lambda>s a w. (0, w)), sys_listen = (\<lambda>s n w. (0, w)), sys_connect = (\<lambda>s a w. (0, w)),
      sys_setsockopt = (\<lambda>s opt w. (0, w)), sys_getfl = (\<lambda>s w. (0, w)), sys_setfl = (\<lambda>s n w. (0, w)),
      sys_inet_pton = (\<lambda>s. None)\<rparr>"

lemma sw_next_out [simp]: "sw_next w = (n, w') \<Longrightarrow> sw_out w' = sw_out w \<and> sw_inp w' = sw_inp w"
  by (auto simp: sw_next_def split: list.splits)

lemma script_send_ok: "send_ok script_os"
  by (auto simp: send_ok_def script_os_def Let_def split: prod.splits)

lemma script_send_progress: "send_progress script_os"
  by (auto simp: send_progress_def script_os_def Let_def split: prod.splits)

lemma script_recv_ok: "recv_ok script_os"
  by (auto simp: recv_ok_def script_os_def script_recv_def Let_def split: prod.splits)

lemma script_new_ok: "new_ok script_os"
  by (simp add: new_ok_def script_os_def)

lemma script_stream_send: "stream_send script_os (\<lambda>s. sw_out)"
  by (auto simp: stream_send_def script_os_def Let_def split: prod.splits)

lemma script_stream_recv: "stream_recv script_os (\<lambda>s. sw_inp)"
  by (auto simp: stream_recv_def script_os_def script_recv_def Let_def split: prod.splits dest: sw_next_out)

section \<open>Properties\<close>

text \<open>C30: \<open>tcp_send_all\<close> on a stream socket, however the kernel splits the transfer: it puts a prefix of
  the buffer on the stream, in order and without a gap or a repetition, and returns true exactly
  when that prefix is the whole buffer.\<close>

theorem tcp_send_all_stream:
  assumes "send_ok os" and "stream_send os out"
  shows "case tcp_send_all os s buf w of (ok, err, w') \<Rightarrow>
           \<exists>k \<le> length buf. out s w' = out s w @ take k buf \<and> (ok \<longleftrightarrow> k = length buf)"
  using tcp_send_loop_stream [OF assms, of 0 buf s w]
  by (auto simp: tcp_send_all_def segment_def split: prod.splits)

theorem tcp_send_all_stream_witness:
  "case tcp_send_all script_os 5 [1, 2, 3] \<lparr>sw_out = [9], sw_inp = [], sw_limits = [2, 2], sw_closed = []\<rparr> of (ok, err, w') \<Rightarrow>
     \<exists>k \<le> 3. sw_out w' = [9] @ take k [1, 2, 3] \<and> (ok \<longleftrightarrow> k = 3)"
  using tcp_send_all_stream [OF script_send_ok script_stream_send, where s = 5 and buf = "[1, 2, 3]" and
      w = "\<lparr>sw_out = [9], sw_inp = [], sw_limits = [2, 2], sw_closed = []\<rparr>"]
  by (simp add: eval_nat_numeral)

text \<open>C31: \<open>tcp_recv_all\<close> on a stream socket: it stays inside the given buffer, stores the bytes of the
  stream from the front of the buffer in order however the kernel splits them, and returns true
  exactly when all the requested bytes have arrived; whatever it took off the stream is in the
  buffer.\<close>

theorem tcp_recv_all_stream:
  assumes "recv_ok os" and "stream_recv os inp" and "len \<le> length buf"
  shows "\<exists>ok err buf' w' k. tcp_recv_all os s len buf w = Some (ok, err, buf', w') \<and>
           k \<le> len \<and> length buf' = length buf \<and> inp s w = take k buf' @ inp s w' \<and> (ok \<longleftrightarrow> k = len)"
  using tcp_recv_loop_stream [OF assms(1,2) _ assms(3), of 0 s w]
  by (auto simp: tcp_recv_all_def segment_def)

theorem tcp_recv_all_stream_witness:
  "\<exists>ok err buf' w' k. tcp_recv_all script_os 5 3 [0, 0, 0, 0]
       \<lparr>sw_out = [], sw_inp = [7, 8, 9, 10], sw_limits = [1, 9], sw_closed = []\<rparr> = Some (ok, err, buf', w') \<and>
     k \<le> 3 \<and> length buf' = 4 \<and> [7, 8, 9, 10] = take k buf' @ sw_inp w' \<and> (ok \<longleftrightarrow> k = 3)"
  using tcp_recv_all_stream [OF script_recv_ok script_stream_recv, of 3 "[0, 0, 0, 0]" 5
      "\<lparr>sw_out = [], sw_inp = [7, 8, 9, 10], sw_limits = [1, 9], sw_closed = []\<rparr>"]
  by (simp add: eval_nat_numeral)

end
