(* ===== verification/Stored_Message.thy ===== *)
theory Stored_Message
  imports Endian_Header
begin

text \<open>
  A message stored in a queue is a list of 8-byte cells: its header and the payload behind it. This
  theory has the application's part of writing one (\<open>Send\<close> of \<^verbatim>\<open>client.cpp\<close>, \<open>writeResponse\<close> of
  \<^verbatim>\<open>server.cpp\<close>: set the type, copy the body behind the header) and the reader's view of one.
  A queue for TCP stores headers in the wire's byte order (\<open>wl\<close>), shared memory in the host's
  (\<open>wl = hl\<close>).
\<close>

definition zero_header :: msg_header where
  "zero_header = \<lparr>hdr_size = 0, hdr_msg_type = 0, hdr_ack_seq = 0\<rparr>"

text \<open>\<open>header->msg_type = mt; memcpy(header + 1, body.data(), body.size())\<close>, with the header at cell \<open>i\<close>.\<close>

definition fill_msg :: "bool \<Rightarrow> nat \<Rightarrow> u16 \<Rightarrow> u8 list \<Rightarrow> msg_header list \<Rightarrow> msg_header list option" where
  "fill_msg IsLittle i mt body cs = do {
     header \<leftarrow> array_get cs i;
     cs' \<leftarrow> array_set cs i (header\<lparr>hdr_msg_type := mt\<rparr>);
     memcpy_cells IsLittle (8 * Suc i) body cs'
   }"

text \<open>The size field of a stored message.\<close>

definition msg_size :: "bool \<Rightarrow> bool \<Rightarrow> msg_header list \<Rightarrow> nat" where
  "msg_size wl hl m = unat (Convert wl hl (hdr_size (hd m)))"

text \<open>The body and the type of a stored message, as the receiver of its cells sees them.\<close>

definition msg_body :: "bool \<Rightarrow> bool \<Rightarrow> msg_header list \<Rightarrow> u8 list" where
  "msg_body wl hl m = take (msg_size wl hl m - 8) (cells_bytes hl (tl m))"

definition msg_header_of :: "bool \<Rightarrow> bool \<Rightarrow> msg_header list \<Rightarrow> msg_header" where
  "msg_header_of wl hl m = ConvertByteOrder wl hl (hd m)"

lemma fill_msg_spec:
  assumes "i < length cs" and "8 * Suc i + length body \<le> 8 * length cs"
  obtains ds where "fill_msg hl i mt body cs = Some ds"
    and "length ds = length cs"
    and "ds ! i = (cs ! i)\<lparr>hdr_msg_type := mt\<rparr>"
    and "\<And>k. k < length cs \<Longrightarrow> k < i \<or> 8 * Suc i + length body \<le> 8 * k \<Longrightarrow> ds ! k = cs ! k"
    and "\<And>k. segment k i ds = segment k i cs"
    and "segment (8 * Suc i) (8 * Suc i + length body) (cells_bytes hl ds) = body"
proof -
  let ?cs = "cs[i := (cs ! i)\<lparr>hdr_msg_type := mt\<rparr>]"
  obtain ds where ds: "memcpy_cells hl (8 * Suc i) body ?cs = Some ds"
    using memcpy_cells_total [of "8 * Suc i" body ?cs hl] assms(2) by auto
  have len: "length ds = length cs" using memcpy_cells_SomeD(1) [OF ds] by simp
  have keep: "ds ! k = ?cs ! k" if "k < length cs" "k \<le> i \<or> 8 * Suc i + length body \<le> 8 * k" for k
    using memcpy_cells_nth_outside [OF ds, of k] that by auto
  have outside: "ds ! k = cs ! k" if "k < length cs" "k < i \<or> 8 * Suc i + length body \<le> 8 * k" for k
    using keep [of k] that by auto
  moreover have "segment k i ds = segment k i cs" for k
    using assms(1) len outside by (intro segment_eqI) simp_all
  moreover have "ds ! i = (cs ! i)\<lparr>hdr_msg_type := mt\<rparr>" using keep [of i] assms(1) by simp
  moreover have "fill_msg hl i mt body cs = Some ds"
    using assms(1) ds by (simp add: fill_msg_def)
  ultimately show ?thesis
    using that [of ds] len memcpy_cells_inside [OF ds] by blast
qed

end
