(* ===== verification/Queue_Interface.thy ===== *)
theory Queue_Interface
  imports Tcpshm_Prelude
begin

text \<open>
  The contracts that \<open>TcpShmConnection\<close> relies on. Whether a connection runs over TCP or over
  shared memory, \<open>Alloc\<close> and \<open>Push\<close> must behave as one FIFO send queue with a bounded capacity.
  \<open>send_queue\<close> is that contract: \<open>holds q ms\<close> relates a concrete queue to the messages it
  contains, \<open>send x q\<close> is allocate, fill and push (\<open>False\<close> when there is no room), and
  \<open>carries x m\<close> says that the stored message \<open>m\<close> is what the application wrote. \<open>fifo_queue\<close>
  adds the receiving end. Both are interpreted on the models of the two queues.
\<close>

locale send_queue =
  fixes holds :: "'q \<Rightarrow> 'm list \<Rightarrow> bool"
    and send :: "'x \<Rightarrow> 'q \<Rightarrow> ('q \<times> bool) option"
    and sendable :: "'x \<Rightarrow> bool"
    and carries :: "'q \<Rightarrow> 'x \<Rightarrow> 'm \<Rightarrow> bool"
  assumes send_returns: "holds q ms \<Longrightarrow> sendable x \<Longrightarrow> \<exists>q' ok. send x q = Some (q', ok)"
    and send_accept: "holds q ms \<Longrightarrow> sendable x \<Longrightarrow> send x q = Some (q', True) \<Longrightarrow>
          \<exists>m. holds q' (ms @ [m]) \<and> carries q x m"
    and send_reject: "holds q ms \<Longrightarrow> sendable x \<Longrightarrow> send x q = Some (q', False) \<Longrightarrow> holds q' ms"
begin

text \<open>A batch of messages, and which of them the queue took.\<close>

fun send_batch :: "'x list \<Rightarrow> 'q \<Rightarrow> ('q \<times> bool list) option" where
  "send_batch [] q = Some (q, [])"
| "send_batch (x # xs) q =
     (case send x q of
        None \<Rightarrow> None
      | Some (q', ok) \<Rightarrow> map_option (\<lambda>(q'', oks). (q'', ok # oks)) (send_batch xs q'))"

lemma send_batch_returns:
  "holds q ms \<Longrightarrow> list_all sendable xs \<Longrightarrow> \<exists>q' oks. send_batch xs q = Some (q', oks)"
proof (induction xs arbitrary: q ms)
  case (Cons x xs)
  then have sx: "sendable x" by simp
  obtain q' ok where step: "send x q = Some (q', ok)" using send_returns [OF Cons.prems(1) sx] by blast
  moreover obtain ms' where "holds q' ms'"
    using step send_accept [OF Cons.prems(1) sx] send_reject [OF Cons.prems(1) sx] by (cases ok) auto
  ultimately show ?case using Cons by fastforce
qed simp

text \<open>
  The queue ends up with its old messages followed by exactly the accepted ones, in order.
\<close>

lemma send_batch_appends:
  "holds q ms \<Longrightarrow> list_all sendable xs \<Longrightarrow> send_batch xs q = Some (q', oks) \<Longrightarrow>
   length oks = length xs \<and>
   (\<exists>new. holds q' (ms @ new) \<and>
      list_all2 (\<lambda>x m. \<exists>q. carries q x m) (map fst (filter snd (zip xs oks))) new)"
proof (induction xs arbitrary: q ms oks)
  case (Cons x xs)
  then obtain q1 ok oks' where step: "send x q = Some (q1, ok)"
    and rest: "send_batch xs q1 = Some (q', oks')" and oks: "oks = ok # oks'"
    by (auto split: option.splits)
  have sx: "sendable x" and sxs: "list_all sendable xs" using Cons.prems by simp_all
  show ?case
  proof (cases ok)
    case True
    then obtain m where "holds q1 (ms @ [m])" and c: "carries q x m"
      using send_accept [OF Cons.prems(1) sx] step by auto
    from Cons.IH [OF this(1) sxs rest] obtain new where "length oks' = length xs"
      "holds q' (ms @ m # new)"
      "list_all2 (\<lambda>x m. \<exists>q. carries q x m) (map fst (filter snd (zip xs oks'))) new" by auto
    then show ?thesis using c True oks by (intro conjI exI [of _ "m # new"]) auto
  next
    case False
    then have "holds q1 ms" using send_reject [OF Cons.prems(1) sx] step by simp
    from Cons.IH [OF this sxs rest] show ?thesis using False oks by auto
  qed
qed auto

end

text \<open>
  Writer and reader taking turns in any order: what a run of operations wrote (the messages the
  queue took) and what it read.
\<close>

datatype 'x queue_op = Write 'x | Read

fun queue_run :: "('x \<Rightarrow> 'q \<Rightarrow> ('q \<times> bool) option) \<Rightarrow> ('q \<Rightarrow> ('q \<times> 'm option) option) \<Rightarrow> ('q \<Rightarrow> 'q option) \<Rightarrow>
    'x queue_op list \<Rightarrow> 'q \<Rightarrow> ('q \<times> 'x list \<times> 'm list) option" where
  "queue_run send front pop [] q = Some (q, [], [])"
| "queue_run send front pop (Write x # ops) q = do {
     (q1, ok) \<leftarrow> send x q;
     (q2, written, got) \<leftarrow> queue_run send front pop ops q1;
     Some (q2, if ok then x # written else written, got)
   }"
| "queue_run send front pop (Read # ops) q = do {
     (q1, m) \<leftarrow> front q;
     (case m of
        None \<Rightarrow> queue_run send front pop ops q1
      | Some m \<Rightarrow> do {
          q2 \<leftarrow> pop q1;
          (q3, written, got) \<leftarrow> queue_run send front pop ops q2;
          Some (q3, written, m # got)
        })
   }"

fun written_op :: "('x \<Rightarrow> bool) \<Rightarrow> 'x queue_op \<Rightarrow> bool" where
  "written_op P (Write x) = P x"
| "written_op P Read = True"

text \<open>
  The receiving end: \<open>front\<close> may tidy up the queue and returns the oldest message without
  removing it; \<open>pop\<close> removes the message \<open>front\<close> returned.
\<close>

locale fifo_queue = send_queue holds send sendable carries
  for holds :: "'q \<Rightarrow> 'm list \<Rightarrow> bool"
    and send :: "'x \<Rightarrow> 'q \<Rightarrow> ('q \<times> bool) option"
    and sendable :: "'x \<Rightarrow> bool"
    and carries :: "'q \<Rightarrow> 'x \<Rightarrow> 'm \<Rightarrow> bool" +
  fixes front :: "'q \<Rightarrow> ('q \<times> 'm option) option"
    and pop :: "'q \<Rightarrow> 'q option"
  assumes front_empty: "holds q [] \<Longrightarrow> \<exists>q'. front q = Some (q', None) \<and> holds q' []"
    and front_oldest: "holds q (m # ms) \<Longrightarrow>
          \<exists>q' q''. front q = Some (q', Some m) \<and> holds q' (m # ms) \<and> pop q' = Some q'' \<and> holds q'' ms"
begin

text \<open>Draining the queue: fuel counts the messages still to be taken.\<close>

fun drain :: "nat \<Rightarrow> 'q \<Rightarrow> ('q \<times> 'm list) option" where
  "drain 0 q = Some (q, [])"
| "drain (Suc n) q =
     (case front q of
        None \<Rightarrow> None
      | Some (q', None) \<Rightarrow> Some (q', [])
      | Some (q', Some m) \<Rightarrow>
          (case pop q' of None \<Rightarrow> None
           | Some q'' \<Rightarrow> map_option (\<lambda>(r, ms). (r, m # ms)) (drain n q'')))"

lemma drain_in_order:
  "holds q ms \<Longrightarrow> \<exists>q'. drain n q = Some (q', take n ms) \<and> holds q' (drop n ms)"
proof (induction n arbitrary: q ms)
  case (Suc n)
  show ?case
  proof (cases ms)
    case Nil
    then show ?thesis using front_empty Suc.prems by fastforce
  next
    case (Cons m ms')
    then obtain q' q'' where "front q = Some (q', Some m)" "pop q' = Some q''" "holds q'' ms'"
      using front_oldest Suc.prems by blast
    with Suc.IH [OF this(3)] Cons show ?thesis by auto
  qed
qed auto

text \<open>What one side sends in a batch is what the other side takes out, in the same order.\<close>

lemma batch_then_drain:
  assumes "holds q []" and "list_all sendable xs" and "send_batch xs q = Some (q1, oks)"
  obtains q2 got where "drain (length xs) q1 = Some (q2, got)" and "holds q2 []"
    and "list_all2 (\<lambda>x m. \<exists>q. carries q x m) (map fst (filter snd (zip xs oks))) got"
proof -
  obtain new where new: "length oks = length xs" "holds q1 new"
    "list_all2 (\<lambda>x m. \<exists>q. carries q x m) (map fst (filter snd (zip xs oks))) new"
    using send_batch_appends [OF assms] by auto
  have "length (filter snd (zip xs oks)) \<le> length xs"
    using length_filter_le [of snd "zip xs oks"] new(1) by simp
  then have "length new \<le> length xs"
    using list_all2_lengthD [OF new(3)] by simp
  with drain_in_order [OF new(2), of "length xs"] that new(3) show ?thesis by auto
qed

text \<open>
  In every interleaving of writes and reads, what is read and what is left in the queue is what
  was there followed by what was written: nothing is lost, duplicated or reordered.
\<close>

lemma run_fifo:
  "holds q ms \<Longrightarrow> list_all (written_op sendable) ops \<Longrightarrow>
   \<exists>q' written got new left. queue_run send front pop ops q = Some (q', written, got) \<and>
     list_all2 (\<lambda>x m. \<exists>q. carries q x m) written new \<and> ms @ new = got @ left \<and> holds q' left"
proof (induction ops arbitrary: q ms)
  case Nil
  then show ?case by (intro exI [of _ q] exI [of _ "[]"] exI [of _ ms]) simp
next
  case (Cons op ops)
  note IH = Cons.IH and q = Cons.prems(1)
  have ops: "list_all (written_op sendable) ops" using Cons.prems(2) by simp
  show ?case
  proof (cases op)
    case (Write x)
    then have x: "sendable x" using Cons.prems(2) by simp
    obtain q1 ok where step: "send x q = Some (q1, ok)" using send_returns [OF q x] by blast
    show ?thesis
    proof (cases ok)
      case True
      then obtain m where m: "holds q1 (ms @ [m])" "carries q x m" using send_accept [OF q x] step by auto
      from IH [OF this(1) ops] obtain q' written got new left
        where "queue_run send front pop ops q1 = Some (q', written, got)"
          "list_all2 (\<lambda>x m. \<exists>q. carries q x m) written new" "ms @ m # new = got @ left" "holds q' left" by auto
      then show ?thesis using Write step True m(2)
        by (intro exI [of _ q'] exI [of _ "x # written"] exI [of _ got] exI [of _ "m # new"] exI [of _ left]) auto
    next
      case False
      then have "holds q1 ms" using send_reject [OF q x] step by auto
      from IH [OF this ops] show ?thesis using Write step False by auto
    qed
  next
    case Read
    show ?thesis
    proof (cases ms)
      case Nil
      then obtain q1 where "front q = Some (q1, None)" "holds q1 []" using front_empty q by blast
      with IH [OF this(2) ops] Read Nil show ?thesis by simp
    next
      case (Cons m ms')
      then obtain q1 q2 where f: "front q = Some (q1, Some m)" "pop q1 = Some q2" "holds q2 ms'"
        using front_oldest q by blast
      from IH [OF f(3) ops] obtain q' written got new left
        where "queue_run send front pop ops q2 = Some (q', written, got)"
          "list_all2 (\<lambda>x m. \<exists>q. carries q x m) written new" "ms' @ new = got @ left" "holds q' left" by auto
      then show ?thesis using Read Cons f(1,2)
        by (intro exI [of _ q'] exI [of _ written] exI [of _ "m # got"] exI [of _ new] exI [of _ left]) auto
    qed
  qed
qed

end

end
