(* ===== verification/Ptcp_Queue.thy ===== *)
theory Ptcp_Queue
  imports Stored_Message Queue_Interface
begin

text \<open>
  The persistent send queue of a TCP connection: the class \<open>PTCPQueue\<close> of \<^verbatim>\<open>ptcp_queue.h\<close>, the
  single-threaded queue that lives in the memory-mapped \<^verbatim>\<open>.ptcp\<close> file. It keeps every message
  until the peer acknowledges it; \<open>read_idx_ <= send_idx_ <= write_idx_\<close> delimit the messages
  not yet acknowledged and, among them, the cells not yet handed to the socket.

  The model keeps the queue as the class lays it out: an array of 8-byte cells, 32-bit indices
  and sequence numbers that wrap. The abstract state of a queue is the list of its
  unacknowledged messages, each the list of its cells (header first, in wire byte order);
  \<open>ptcp_rel\<close> relates the two and is the invariant of the class.
\<close>

section \<open>The class\<close>

record ptcp_queue =
  pq_blk :: "msg_header list"
  pq_write_idx :: u32
  pq_read_idx :: u32
  pq_send_idx :: u32
  pq_read_seq_num :: u32
  pq_ack_seq_num :: u32

definition PTCP_BLK_CNT :: "u32 \<Rightarrow> u32" where
  "PTCP_BLK_CNT Bytes = Bytes div 8"

text \<open>The tail of \<open>Alloc\<close>: write the size into the header cell and return its address.\<close>

definition ptcp_alloc_header :: "u16 \<Rightarrow> ptcp_queue \<Rightarrow> (ptcp_queue \<times> u32 option) option" where
  "ptcp_alloc_header sz q = do {
     header \<leftarrow> array_get (pq_blk q) (unat (pq_write_idx q));
     b \<leftarrow> array_set (pq_blk q) (unat (pq_write_idx q)) (header\<lparr>hdr_size := sz\<rparr>);
     Some (q\<lparr>pq_blk := b\<rparr>, Some (pq_write_idx q))
   }"

definition ptcp_Alloc :: "u32 \<Rightarrow> u16 \<Rightarrow> ptcp_queue \<Rightarrow> (ptcp_queue \<times> u32 option) option" where
  "ptcp_Alloc Bytes sz0 q =
     (let sz = sz0 + 8;
          blk_sz = word_of_nat (blocks 8 (unat sz)) :: u32;
          avail_sz = PTCP_BLK_CNT Bytes - pq_write_idx q
      in if avail_sz < blk_sz
         then if avail_sz + pq_read_idx q < blk_sz then Some (q, None)
              else do {
                b \<leftarrow> memmove 0 (unat (pq_read_idx q)) (unat (pq_write_idx q - pq_read_idx q)) (pq_blk q);
                ptcp_alloc_header sz
                  (q\<lparr>pq_blk := b,
                     pq_write_idx := pq_write_idx q - pq_read_idx q,
                     pq_send_idx := pq_send_idx q - pq_read_idx q,
                     pq_read_idx := 0\<rparr>)
              }
         else ptcp_alloc_header sz q)"

definition ptcp_Push :: "bool \<Rightarrow> bool \<Rightarrow> ptcp_queue \<Rightarrow> ptcp_queue option" where
  "ptcp_Push ToLittle IsLittle q = do {
     header \<leftarrow> array_get (pq_blk q) (unat (pq_write_idx q));
     let blk_sz = word_of_nat (blocks 8 (unat (hdr_size header)));
     b \<leftarrow> array_set (pq_blk q) (unat (pq_write_idx q))
            (ConvertByteOrder ToLittle IsLittle (header\<lparr>hdr_ack_seq := pq_ack_seq_num q\<rparr>));
     Some (q\<lparr>pq_blk := b, pq_write_idx := pq_write_idx q + blk_sz\<rparr>)
   }"

text \<open>\<open>GetSendable\<close> returns the signed block count and the index of the first cell to send.\<close>

definition ptcp_GetSendable :: "ptcp_queue \<Rightarrow> int \<times> u32" where
  "ptcp_GetSendable q = (sint (pq_write_idx q - pq_send_idx q), pq_send_idx q)"

definition ptcp_Sendout :: "int \<Rightarrow> ptcp_queue \<Rightarrow> ptcp_queue" where
  "ptcp_Sendout blk_sz q = q\<lparr>pq_send_idx := pq_send_idx q + word_of_int blk_sz\<rparr>"

text \<open>The \<open>do ... while\<close> loop of \<open>Ack\<close>.\<close>

function ptcp_ack_loop :: "bool \<Rightarrow> bool \<Rightarrow> u32 \<Rightarrow> ptcp_queue \<Rightarrow> ptcp_queue option" where
  "ptcp_ack_loop ToLittle IsLittle ack_seq q =
     (case array_get (pq_blk q) (unat (pq_read_idx q)) of
        None \<Rightarrow> None
      | Some header \<Rightarrow>
          let q' = q\<lparr>pq_read_idx := pq_read_idx q
                        + word_of_nat (blocks 8 (unat (Convert ToLittle IsLittle (hdr_size header)))),
                     pq_read_seq_num := pq_read_seq_num q + 1\<rparr>
          in if pq_read_seq_num q' \<noteq> ack_seq then ptcp_ack_loop ToLittle IsLittle ack_seq q' else Some q')"
  by pat_completeness auto
termination
proof (relation "measure (\<lambda>(_, _, ack_seq, q). unat (ack_seq - pq_read_seq_num q - 1))")
  fix wl hl :: bool and ack_seq :: u32 and q q' :: ptcp_queue and header
  assume "q' = q\<lparr>pq_read_idx := pq_read_idx q + word_of_nat (blocks 8 (unat (Convert wl hl (hdr_size header)))),
                 pq_read_seq_num := pq_read_seq_num q + 1\<rparr>"
    and ne: "pq_read_seq_num q' \<noteq> ack_seq"
  then have "ack_seq - pq_read_seq_num q' - 1 = (ack_seq - pq_read_seq_num q - 1) - 1"
    and "ack_seq - pq_read_seq_num q - 1 \<noteq> 0"
    by (auto simp: algebra_simps)
  then have "unat (ack_seq - pq_read_seq_num q' - 1) < unat (ack_seq - pq_read_seq_num q - 1)"
    by (metis measure_unat)
  then show "((wl, hl, ack_seq, q'), wl, hl, ack_seq, q)
      \<in> measure (\<lambda>(_, _, ack_seq, q). unat (ack_seq - pq_read_seq_num q - 1))"
    by simp
qed simp

declare ptcp_ack_loop.simps [simp del]

definition ptcp_Ack :: "bool \<Rightarrow> bool \<Rightarrow> u32 \<Rightarrow> ptcp_queue \<Rightarrow> ptcp_queue option" where
  "ptcp_Ack ToLittle IsLittle ack_seq q =
     (if sdiff ack_seq (pq_read_seq_num q) \<le> 0 then Some q
      else do {
        q' \<leftarrow> ptcp_ack_loop ToLittle IsLittle ack_seq q;
        Some (if pq_read_idx q' = pq_write_idx q'
              then q'\<lparr>pq_read_idx := 0, pq_write_idx := 0, pq_send_idx := 0\<rparr> else q')
      })"

definition ptcp_LoginAck :: "bool \<Rightarrow> bool \<Rightarrow> u32 \<Rightarrow> ptcp_queue \<Rightarrow> ptcp_queue option" where
  "ptcp_LoginAck ToLittle IsLittle ack_seq q = do {
     q' \<leftarrow> ptcp_Ack ToLittle IsLittle ack_seq q;
     Some (q'\<lparr>pq_send_idx := pq_read_idx q'\<rparr>)
   }"

text \<open>\<open>MyAck\<close> returns a reference to \<open>ack_seq_num_\<close>: reading it, and the only write through it.\<close>

definition ptcp_MyAck :: "ptcp_queue \<Rightarrow> u32" where
  "ptcp_MyAck q = pq_ack_seq_num q"

definition ptcp_MyAck_incr :: "ptcp_queue \<Rightarrow> ptcp_queue" where
  "ptcp_MyAck_incr q = q\<lparr>pq_ack_seq_num := pq_ack_seq_num q + 1\<rparr>"

text \<open>
  The loop of \<open>SanityCheckAndGetSeq\<close>: the inner \<open>None\<close> is the early \<open>return false\<close>, the outer
  \<open>None\<close> no normal return. The queue it scans comes from a file, so nothing is known about it.
\<close>

partial_function (option) ptcp_sanity_loop ::
    "bool \<Rightarrow> bool \<Rightarrow> ptcp_queue \<Rightarrow> u32 \<Rightarrow> u32 \<Rightarrow> (u32 \<times> u32) option option" where
  "ptcp_sanity_loop ToLittle IsLittle q idx e =
     (if idx < pq_write_idx q
      then case array_get (pq_blk q) (unat idx) of
             None \<Rightarrow> None
           | Some cell \<Rightarrow>
               let header = ConvertByteOrder ToLittle IsLittle cell
               in if sdiff (pq_ack_seq_num q) (hdr_ack_seq header) < 0 then Some None
                  else ptcp_sanity_loop ToLittle IsLittle q
                         (idx + word_of_nat (blocks 8 (unat (hdr_size header)))) (e + 1)
      else Some (Some (idx, e)))"

declare ptcp_sanity_loop.simps [code]

definition ptcp_SanityCheckAndGetSeq ::
    "bool \<Rightarrow> bool \<Rightarrow> ptcp_queue \<Rightarrow> (u32 \<times> u32) option option" where
  "ptcp_SanityCheckAndGetSeq ToLittle IsLittle q = do {
     r \<leftarrow> ptcp_sanity_loop ToLittle IsLittle q (pq_read_idx q) (pq_read_seq_num q);
     Some (case r of
             None \<Rightarrow> None
           | Some (idx, e) \<Rightarrow> if idx \<noteq> pq_write_idx q then None else Some (pq_read_seq_num q, e))
   }"

text \<open>An application's write through this queue; \<open>False\<close> when \<open>Alloc\<close> returned the null pointer.\<close>

definition ptcp_send :: "u32 \<Rightarrow> bool \<Rightarrow> bool \<Rightarrow> u16 \<Rightarrow> u8 list \<Rightarrow> ptcp_queue \<Rightarrow> (ptcp_queue \<times> bool) option" where
  "ptcp_send Bytes ToLittle IsLittle mt body q = do {
     (q1, p) \<leftarrow> ptcp_Alloc Bytes (word_of_nat (length body)) q;
     (case p of
        None \<Rightarrow> Some (q1, False)
      | Some i \<Rightarrow> do {
          b \<leftarrow> fill_msg IsLittle (unat i) mt body (pq_blk q1);
          q2 \<leftarrow> ptcp_Push ToLittle IsLittle (q1\<lparr>pq_blk := b\<rparr>);
          Some (q2, True)
        })
   }"

section \<open>Messages in the queue\<close>

text \<open>When a list of cells is one stored message.\<close>

definition wf_msg :: "bool \<Rightarrow> bool \<Rightarrow> msg_header list \<Rightarrow> bool" where
  "wf_msg wl hl m \<longleftrightarrow> 8 \<le> msg_size wl hl m \<and> length m = blocks 8 (msg_size wl hl m)"

definition ptcp_rel :: "u32 \<Rightarrow> bool \<Rightarrow> bool \<Rightarrow> ptcp_queue \<Rightarrow> msg_header list list \<Rightarrow> bool" where
  "ptcp_rel Bytes wl hl q ms \<longleftrightarrow>
     length (pq_blk q) = unat (PTCP_BLK_CNT Bytes) \<and>
     unat (pq_read_idx q) \<le> unat (pq_send_idx q) \<and>
     unat (pq_send_idx q) \<le> unat (pq_write_idx q) \<and>
     unat (pq_write_idx q) \<le> length (pq_blk q) \<and>
     segment (unat (pq_read_idx q)) (unat (pq_write_idx q)) (pq_blk q) = concat ms \<and>
     list_all (wf_msg wl hl) ms"

lemma wf_msg_nonempty: "wf_msg wl hl m \<Longrightarrow> m \<noteq> []"
  by (auto simp: wf_msg_def)

lemma ptcp_relD:
  assumes "ptcp_rel Bytes wl hl q ms"
  shows "length (pq_blk q) = unat (PTCP_BLK_CNT Bytes)"
    and "unat (pq_read_idx q) \<le> unat (pq_send_idx q)"
    and "unat (pq_send_idx q) \<le> unat (pq_write_idx q)"
    and "unat (pq_write_idx q) \<le> unat (PTCP_BLK_CNT Bytes)"
    and "segment (unat (pq_read_idx q)) (unat (pq_write_idx q)) (pq_blk q) = concat ms"
    and "list_all (wf_msg wl hl) ms"
  using assms by (simp_all add: ptcp_rel_def)

lemma PTCP_BLK_CNT_bound: "unat (PTCP_BLK_CNT Bytes) < 2 ^ 29"
  using unat_u32_less [of Bytes] by (simp add: PTCP_BLK_CNT_def unat_div)

lemma ptcp_rel_length:
  "ptcp_rel Bytes wl hl q ms \<Longrightarrow> length (concat ms) = unat (pq_write_idx q) - unat (pq_read_idx q)"
  using ptcp_relD [of Bytes wl hl q ms] by (metis length_segment)

section \<open>Alloc\<close>

lemma ptcp_alloc_header_rel:
  assumes rel: "ptcp_rel Bytes wl hl q ms" and w: "unat (pq_write_idx q) < unat (PTCP_BLK_CNT Bytes)"
  obtains b where "ptcp_alloc_header sz q = Some (q\<lparr>pq_blk := b\<rparr>, Some (pq_write_idx q))"
    and "ptcp_rel Bytes wl hl (q\<lparr>pq_blk := b\<rparr>) ms"
    and "hdr_size (b ! unat (pq_write_idx q)) = sz"
proof -
  let ?w = "unat (pq_write_idx q)"
  let ?b = "(pq_blk q)[?w := (pq_blk q ! ?w)\<lparr>hdr_size := sz\<rparr>]"
  have w': "?w < length (pq_blk q)" using rel w by (simp add: ptcp_relD(1))
  then have "ptcp_alloc_header sz q = Some (q\<lparr>pq_blk := ?b\<rparr>, Some (pq_write_idx q))"
    and "hdr_size (?b ! ?w) = sz"
    by (simp_all add: ptcp_alloc_header_def)
  moreover have "ptcp_rel Bytes wl hl (q\<lparr>pq_blk := ?b\<rparr>) ms"
    using rel w' by (simp add: ptcp_rel_def segment_simps)
  ultimately show ?thesis using that by blast
qed

text \<open>Moving the live cells to the front keeps the messages.\<close>

definition ptcp_compact :: "msg_header list \<Rightarrow> ptcp_queue \<Rightarrow> ptcp_queue" where
  "ptcp_compact b q =
     q\<lparr>pq_blk := b,
       pq_write_idx := pq_write_idx q - pq_read_idx q,
       pq_send_idx := pq_send_idx q - pq_read_idx q,
       pq_read_idx := 0\<rparr>"

lemma ptcp_compact_rel:
  assumes rel: "ptcp_rel Bytes wl hl q ms"
  obtains b where "memmove 0 (unat (pq_read_idx q)) (unat (pq_write_idx q - pq_read_idx q)) (pq_blk q) = Some b"
    and "ptcp_rel Bytes wl hl (ptcp_compact b q) ms"
proof -
  note R = ptcp_relD [OF rel]
  let ?r = "unat (pq_read_idx q)" and ?w = "unat (pq_write_idx q)"
  have rw: "?r \<le> ?w" using R by linarith
  have idx: "unat (pq_write_idx q - pq_read_idx q) = ?w - ?r"
    "unat (pq_send_idx q - pq_read_idx q) = unat (pq_send_idx q) - ?r"
    using R by (simp_all add: unat_exact)
  have "?r + (?w - ?r) \<le> length (pq_blk q)" using R rw by simp
  then obtain b where b: "memmove 0 ?r (?w - ?r) (pq_blk q) = Some b"
    by (simp add: memmove_def)
  have "segment 0 (?w - ?r) b = segment ?r ?w (pq_blk q)"
    using segment_memmove_front [OF b] rw by simp
  moreover have "length b = unat (PTCP_BLK_CNT Bytes)" using length_memmove [OF b] R by simp
  ultimately have "ptcp_rel Bytes wl hl (ptcp_compact b q) ms"
    using R rw unfolding ptcp_rel_def ptcp_compact_def by (simp add: idx diff_le_mono le_diff_conv)
  then show ?thesis using that b by (simp add: idx)
qed

text \<open>The two comparisons of \<open>Alloc\<close>, read without wrap-around.\<close>

lemma ptcp_Alloc_guards:
  assumes rel: "ptcp_rel Bytes wl hl q ms" and sz: "unat (sz :: u16) + 8 < 65536"
  shows "unat (sz + 8) = unat sz + 8"
    and "PTCP_BLK_CNT Bytes - pq_write_idx q < (word_of_nat (blocks 8 (unat sz + 8)) :: u32) \<longleftrightarrow>
         unat (PTCP_BLK_CNT Bytes) < unat (pq_write_idx q) + blocks 8 (unat sz + 8)"
    and "PTCP_BLK_CNT Bytes - pq_write_idx q + pq_read_idx q < (word_of_nat (blocks 8 (unat sz + 8)) :: u32) \<longleftrightarrow>
         unat (PTCP_BLK_CNT Bytes) < length (concat ms) + blocks 8 (unat sz + 8)"
proof -
  note R = ptcp_relD [OF rel] and L = ptcp_rel_length [OF rel]
  show usz: "unat (sz + 8) = unat sz + 8" using sz by (rule unat_size_plus_header)
  have "blocks 8 (unat sz + 8) \<le> 8192" using blocks8_u16 [of "sz + 8"] by (simp add: usz)
  then have un: "unat (word_of_nat (blocks 8 (unat sz + 8)) :: u32) = blocks 8 (unat sz + 8)"
    by (simp add: unat_exact)
  have avail: "unat (PTCP_BLK_CNT Bytes - pq_write_idx q) = unat (PTCP_BLK_CNT Bytes) - unat (pq_write_idx q)"
    using R by (simp add: unat_exact)
  have total: "unat (PTCP_BLK_CNT Bytes - pq_write_idx q + pq_read_idx q)
      = unat (PTCP_BLK_CNT Bytes) - unat (pq_write_idx q) + unat (pq_read_idx q)"
    using R avail PTCP_BLK_CNT_bound [of Bytes] by (subst unat_add_exact) simp_all
  show "PTCP_BLK_CNT Bytes - pq_write_idx q < (word_of_nat (blocks 8 (unat sz + 8)) :: u32) \<longleftrightarrow>
      unat (PTCP_BLK_CNT Bytes) < unat (pq_write_idx q) + blocks 8 (unat sz + 8)"
    unfolding word_less_nat_alt un avail using R by linarith
  show "PTCP_BLK_CNT Bytes - pq_write_idx q + pq_read_idx q < (word_of_nat (blocks 8 (unat sz + 8)) :: u32) \<longleftrightarrow>
      unat (PTCP_BLK_CNT Bytes) < length (concat ms) + blocks 8 (unat sz + 8)"
    unfolding word_less_nat_alt un total L using R by linarith
qed

lemma ptcp_Alloc_rel:
  assumes rel: "ptcp_rel Bytes wl hl q ms"
    and sz: "unat (sz :: u16) + 8 < 65536"
    and fits: "length (concat ms) + blocks 8 (unat sz + 8) \<le> unat (PTCP_BLK_CNT Bytes)"
  obtains q' where "ptcp_Alloc Bytes sz q = Some (q', Some (pq_write_idx q'))"
    and "ptcp_rel Bytes wl hl q' ms"
    and "unat (pq_write_idx q') + blocks 8 (unat sz + 8) \<le> unat (PTCP_BLK_CNT Bytes)"
    and "hdr_size (pq_blk q' ! unat (pq_write_idx q')) = sz + 8"
    and "pq_read_seq_num q' = pq_read_seq_num q" and "pq_ack_seq_num q' = pq_ack_seq_num q"
    and "unat (pq_send_idx q') - unat (pq_read_idx q') = unat (pq_send_idx q) - unat (pq_read_idx q)"
proof -
  note R = ptcp_relD [OF rel] and G = ptcp_Alloc_guards [OF rel sz]
  have n_pos: "0 < blocks 8 (unat sz + 8)" by simp
  show ?thesis
  proof (cases "unat (PTCP_BLK_CNT Bytes) < unat (pq_write_idx q) + blocks 8 (unat sz + 8)")
    case False
    then have "unat (pq_write_idx q) < unat (PTCP_BLK_CNT Bytes)" using n_pos by linarith
    then obtain b where "ptcp_alloc_header (sz + 8) q = Some (q\<lparr>pq_blk := b\<rparr>, Some (pq_write_idx q))"
      and "ptcp_rel Bytes wl hl (q\<lparr>pq_blk := b\<rparr>) ms"
      and "hdr_size (b ! unat (pq_write_idx q)) = sz + 8"
      by (rule ptcp_alloc_header_rel [OF rel])
    with False show ?thesis
      by (intro that [of "q\<lparr>pq_blk := b\<rparr>"]) (simp_all add: ptcp_Alloc_def Let_def G)
  next
    case True
    obtain b where b: "memmove 0 (unat (pq_read_idx q)) (unat (pq_write_idx q - pq_read_idx q)) (pq_blk q) = Some b"
      and crel: "ptcp_rel Bytes wl hl (ptcp_compact b q) ms"
      by (rule ptcp_compact_rel [OF rel])
    have cw: "unat (pq_write_idx (ptcp_compact b q)) = length (concat ms)"
      using ptcp_rel_length [OF crel] by (simp add: ptcp_compact_def)
    then have "unat (pq_write_idx (ptcp_compact b q)) < unat (PTCP_BLK_CNT Bytes)"
      using fits n_pos by linarith
    then obtain b' where "ptcp_alloc_header (sz + 8) (ptcp_compact b q)
        = Some ((ptcp_compact b q)\<lparr>pq_blk := b'\<rparr>, Some (pq_write_idx (ptcp_compact b q)))"
      and "ptcp_rel Bytes wl hl ((ptcp_compact b q)\<lparr>pq_blk := b'\<rparr>) ms"
      and "hdr_size (b' ! unat (pq_write_idx (ptcp_compact b q))) = sz + 8"
      by (rule ptcp_alloc_header_rel [OF crel])
    moreover have "unat (pq_send_idx q - pq_read_idx q) = unat (pq_send_idx q) - unat (pq_read_idx q)"
      using R by (simp add: unat_exact)
    ultimately show ?thesis
      using True b cw fits
      by (intro that [of "(ptcp_compact b q)\<lparr>pq_blk := b'\<rparr>"])
        (simp_all add: ptcp_Alloc_def Let_def G ptcp_compact_def)
  qed
qed

lemma ptcp_Alloc_full:
  assumes rel: "ptcp_rel Bytes wl hl q ms"
    and sz: "unat (sz :: u16) + 8 < 65536"
    and full: "unat (PTCP_BLK_CNT Bytes) < length (concat ms) + blocks 8 (unat sz + 8)"
  shows "ptcp_Alloc Bytes sz q = Some (q, None)"
proof -
  have "unat (PTCP_BLK_CNT Bytes) < unat (pq_write_idx q) + blocks 8 (unat sz + 8)"
    using full ptcp_rel_length [OF rel] by linarith
  then show ?thesis using full by (simp add: ptcp_Alloc_def Let_def ptcp_Alloc_guards [OF rel sz])
qed

section \<open>Filling and Push\<close>

definition pushed_msg :: "bool \<Rightarrow> bool \<Rightarrow> ptcp_queue \<Rightarrow> msg_header list" where
  "pushed_msg wl hl q =
     (let w = unat (pq_write_idx q); h = pq_blk q ! w
      in ConvertByteOrder wl hl (h\<lparr>hdr_ack_seq := pq_ack_seq_num q\<rparr>)
         # segment (Suc w) (w + blocks 8 (unat (hdr_size h))) (pq_blk q))"

lemma ptcp_Push_rel:
  assumes rel: "ptcp_rel Bytes wl hl q ms"
    and sz: "n = unat (hdr_size (pq_blk q ! unat (pq_write_idx q)))" "8 \<le> n"
    and room: "unat (pq_write_idx q) + blocks 8 n \<le> unat (PTCP_BLK_CNT Bytes)"
  obtains b where "ptcp_Push wl hl q = Some (q\<lparr>pq_blk := b, pq_write_idx := pq_write_idx q + word_of_nat (blocks 8 n)\<rparr>)"
    and "ptcp_rel Bytes wl hl
           (q\<lparr>pq_blk := b, pq_write_idx := pq_write_idx q + word_of_nat (blocks 8 n)\<rparr>) (ms @ [pushed_msg wl hl q])"
proof -
  note R = ptcp_relD [OF rel]
  let ?w = "unat (pq_write_idx q)"
  let ?h = "ConvertByteOrder wl hl ((pq_blk q ! ?w)\<lparr>hdr_ack_seq := pq_ack_seq_num q\<rparr>)"
  let ?b = "(pq_blk q)[?w := ?h]"
  have pos: "0 < blocks 8 n" using sz by simp
  with room R have w: "?w < length (pq_blk q)" by linarith
  have "blocks 8 n \<le> 8192" using blocks8_u16 sz by simp
  then have w': "unat (pq_write_idx q + word_of_nat (blocks 8 n)) = ?w + blocks 8 n"
    using room PTCP_BLK_CNT_bound [of Bytes] by (subst unat_add_exact) (simp_all add: unat_exact)
  have push: "ptcp_Push wl hl q = Some (q\<lparr>pq_blk := ?b, pq_write_idx := pq_write_idx q + word_of_nat (blocks 8 n)\<rparr>)"
    using w sz by (simp add: ptcp_Push_def)
  have hw: "?b ! ?w = ?h" using w by simp
  have "segment ?w (?w + blocks 8 n) ?b = ?b ! ?w # segment (Suc ?w) (?w + blocks 8 n) ?b"
    using room R pos by (intro segment_Cons) simp_all
  then have tail: "segment ?w (?w + blocks 8 n) ?b = pushed_msg wl hl q"
    unfolding hw using room R sz(1) by (simp add: pushed_msg_def Let_def segment_simps)
  have "segment (unat (pq_read_idx q)) (?w + blocks 8 n) ?b
      = segment (unat (pq_read_idx q)) ?w ?b @ segment ?w (?w + blocks 8 n) ?b"
    using R by (intro segment_append [symmetric]) simp_all
  also have "\<dots> = concat (ms @ [pushed_msg wl hl q])"
    using w R by (simp add: tail segment_simps)
  finally have cells: "segment (unat (pq_read_idx q)) (?w + blocks 8 n) ?b = concat (ms @ [pushed_msg wl hl q])" .
  have "wf_msg wl hl (pushed_msg wl hl q)"
    using tail room R w sz by (auto simp: wf_msg_def msg_size_def pushed_msg_def Let_def)
  then have "ptcp_rel Bytes wl hl
      (q\<lparr>pq_blk := ?b, pq_write_idx := pq_write_idx q + word_of_nat (blocks 8 n)\<rparr>) (ms @ [pushed_msg wl hl q])"
    using R cells room by (simp add: ptcp_rel_def w')
  then show ?thesis using that push by blast
qed

section \<open>Sending a message\<close>

lemma ptcp_send_full:
  assumes "ptcp_rel Bytes wl hl q ms" and "length body + 8 < 65536"
    and "unat (PTCP_BLK_CNT Bytes) < length (concat ms) + blocks 8 (length body + 8)"
  shows "ptcp_send Bytes wl hl mt body q = Some (q, False)"
  using assms ptcp_Alloc_full [of Bytes wl hl q ms "word_of_nat (length body)"]
  by (simp add: ptcp_send_def unat_exact)

lemma ptcp_send_rel:
  assumes rel: "ptcp_rel Bytes wl hl q ms" and len: "length body + 8 < 65536"
    and fits: "length (concat ms) + blocks 8 (length body + 8) \<le> unat (PTCP_BLK_CNT Bytes)"
  obtains q' m where "ptcp_send Bytes wl hl mt body q = Some (q', True)"
    and "ptcp_rel Bytes wl hl q' (ms @ [m])"
    and "msg_header_of wl hl m
       = \<lparr>hdr_size = word_of_nat (length body + 8), hdr_msg_type = mt, hdr_ack_seq = pq_ack_seq_num q\<rparr>"
    and "msg_body wl hl m = body"
    and "pq_read_seq_num q' = pq_read_seq_num q" and "pq_ack_seq_num q' = pq_ack_seq_num q"
    and "unat (pq_send_idx q') - unat (pq_read_idx q') = unat (pq_send_idx q) - unat (pq_read_idx q)"
proof -
  let ?sz = "word_of_nat (length body) :: u16" and ?n = "blocks 8 (length body + 8)"
  have usz: "unat ?sz = length body" using len by (simp add: unat_exact)
  have usz8: "unat (?sz + 8) = length body + 8" using unat_size_plus_header [of ?sz] usz len by simp
  obtain q1 where alloc: "ptcp_Alloc Bytes ?sz q = Some (q1, Some (pq_write_idx q1))"
    and rel1: "ptcp_rel Bytes wl hl q1 ms"
    and room: "unat (pq_write_idx q1) + ?n \<le> unat (PTCP_BLK_CNT Bytes)"
    and hsz: "hdr_size (pq_blk q1 ! unat (pq_write_idx q1)) = ?sz + 8"
    and seqs: "pq_read_seq_num q1 = pq_read_seq_num q" "pq_ack_seq_num q1 = pq_ack_seq_num q"
    and sent: "unat (pq_send_idx q1) - unat (pq_read_idx q1) = unat (pq_send_idx q) - unat (pq_read_idx q)"
    by (rule ptcp_Alloc_rel [OF rel, of ?sz]) (use len fits usz in simp_all)
  let ?w = "unat (pq_write_idx q1)"
  have lenb: "length (pq_blk q1) = unat (PTCP_BLK_CNT Bytes)" by (rule ptcp_relD(1) [OF rel1])
  have cells: "8 * Suc ?w + length body \<le> 8 * (?w + ?n)"
    using blocks_bounds(1) [of 8 "length body + 8"] by simp
  have "0 < ?n" by simp
  then have w: "?w < length (pq_blk q1)" using room lenb by linarith
  obtain b where fill: "fill_msg hl ?w mt body (pq_blk q1) = Some b"
    and lb: "length b = length (pq_blk q1)"
    and hb: "b ! ?w = (pq_blk q1 ! ?w)\<lparr>hdr_msg_type := mt\<rparr>"
    and before: "\<And>k. segment k ?w b = segment k ?w (pq_blk q1)"
    and inside: "segment (8 * Suc ?w) (8 * Suc ?w + length body) (cells_bytes hl b) = body"
    by (rule fill_msg_spec [OF w, of body hl mt]) (use cells room lenb in simp_all)
  let ?q = "q1\<lparr>pq_blk := b\<rparr>"
  have rel2: "ptcp_rel Bytes wl hl ?q ms" using rel1 lb before by (simp add: ptcp_rel_def)
  have n: "length body + 8 = unat (hdr_size (pq_blk ?q ! unat (pq_write_idx ?q)))" using hb hsz usz8 by simp
  obtain b' where push: "ptcp_Push wl hl ?q = Some (?q\<lparr>pq_blk := b', pq_write_idx := pq_write_idx ?q + word_of_nat ?n\<rparr>)"
    and rel3: "ptcp_rel Bytes wl hl (?q\<lparr>pq_blk := b', pq_write_idx := pq_write_idx ?q + word_of_nat ?n\<rparr>)
                 (ms @ [pushed_msg wl hl ?q])"
    by (rule ptcp_Push_rel [OF rel2 n]) (use room in simp_all)
  have "msg_body wl hl (pushed_msg wl hl ?q)
      = take (length body) (segment (8 * Suc ?w) (8 * (?w + ?n)) (cells_bytes hl b))"
    using hb hsz usz8 by (simp add: pushed_msg_def msg_body_def msg_size_def Let_def cells_bytes_segment)
  also have "\<dots> = body" using inside cells by (simp add: take_segment)
  finally have "msg_body wl hl (pushed_msg wl hl ?q) = body" .
  moreover have "msg_header_of wl hl (pushed_msg wl hl ?q)
       = \<lparr>hdr_size = word_of_nat (length body + 8), hdr_msg_type = mt, hdr_ack_seq = pq_ack_seq_num q\<rparr>"
    using hb hsz seqs by (simp add: pushed_msg_def msg_header_of_def Let_def)
  moreover have "ptcp_send Bytes wl hl mt body q
      = Some (?q\<lparr>pq_blk := b', pq_write_idx := pq_write_idx ?q + word_of_nat ?n\<rparr>, True)"
    using alloc fill push by (simp add: ptcp_send_def)
  ultimately show ?thesis
    using that rel3 seqs sent by fastforce
qed

section \<open>Acknowledgement\<close>

text \<open>The part of the invariant that does not mention \<open>send_idx_\<close>.\<close>

definition ptcp_live :: "u32 \<Rightarrow> bool \<Rightarrow> bool \<Rightarrow> ptcp_queue \<Rightarrow> msg_header list list \<Rightarrow> bool" where
  "ptcp_live Bytes wl hl q ms \<longleftrightarrow>
     length (pq_blk q) = unat (PTCP_BLK_CNT Bytes) \<and>
     unat (pq_read_idx q) \<le> unat (pq_write_idx q) \<and>
     unat (pq_write_idx q) \<le> length (pq_blk q) \<and>
     segment (unat (pq_read_idx q)) (unat (pq_write_idx q)) (pq_blk q) = concat ms \<and>
     list_all (wf_msg wl hl) ms"

lemma ptcp_rel_live:
  "ptcp_rel Bytes wl hl q ms \<longleftrightarrow>
     ptcp_live Bytes wl hl q ms \<and> unat (pq_read_idx q) \<le> unat (pq_send_idx q) \<and>
     unat (pq_send_idx q) \<le> unat (pq_write_idx q)"
  by (auto simp: ptcp_rel_def ptcp_live_def)

lemma ptcp_live_length:
  "ptcp_live Bytes wl hl q ms \<Longrightarrow> unat (pq_read_idx q) + length (concat ms) = unat (pq_write_idx q)"
  unfolding ptcp_live_def by (metis le_add_diff_inverse length_segment)

text \<open>The first stored message, and the queue behind it.\<close>

lemma ptcp_live_Cons:
  assumes "ptcp_live Bytes wl hl q (m # ms)"
  shows "unat (pq_read_idx q) < length (pq_blk q)"
    and "blocks 8 (unat (Convert wl hl (hdr_size (pq_blk q ! unat (pq_read_idx q))))) = length m"
    and "unat (pq_read_idx q + word_of_nat (length m)) = unat (pq_read_idx q) + length m"
    and "ptcp_live Bytes wl hl (q\<lparr>pq_read_idx := pq_read_idx q + word_of_nat (length m), pq_read_seq_num := s\<rparr>) ms"
proof -
  let ?r = "unat (pq_read_idx q)" and ?w = "unat (pq_write_idx q)"
  have L: "length (pq_blk q) = unat (PTCP_BLK_CNT Bytes)" "?w \<le> length (pq_blk q)"
    and cells: "segment ?r ?w (pq_blk q) = m @ concat ms" and wf: "wf_msg wl hl m" "list_all (wf_msg wl hl) ms"
    using assms by (simp_all add: ptcp_live_def)
  have total: "?r + (length m + length (concat ms)) = ?w" using ptcp_live_length [OF assms] by simp
  have m: "m \<noteq> []" by (rule wf_msg_nonempty [OF wf(1)])
  then have pos: "0 < length m" by simp
  have rw: "?r < ?w" using total pos by linarith
  then show r: "?r < length (pq_blk q)" using L by linarith
  have "pq_blk q ! ?r = segment ?r ?w (pq_blk q) ! 0"
    using rw L by (subst nth_segment) simp_all
  then have "pq_blk q ! ?r = hd m" using m by (simp add: cells hd_conv_nth nth_append)
  then show "blocks 8 (unat (Convert wl hl (hdr_size (pq_blk q ! ?r)))) = length m"
    using wf(1) by (simp add: wf_msg_def msg_size_def)
  have "length m \<le> 8192"
    using wf(1) blocks8_u16 by (auto simp: wf_msg_def msg_size_def)
  then show r': "unat (pq_read_idx q + word_of_nat (length m)) = ?r + length m"
    using total L PTCP_BLK_CNT_bound [of Bytes] by (subst unat_add_exact) (simp_all add: unat_exact)
  have "segment (?r + length m) ?w (pq_blk q) = concat ms"
    using arg_cong [OF cells, of "drop (length m)"] by (simp add: drop_segment)
  then show "ptcp_live Bytes wl hl (q\<lparr>pq_read_idx := pq_read_idx q + word_of_nat (length m), pq_read_seq_num := s\<rparr>) ms"
    using L wf total by (simp add: ptcp_live_def r')
qed

lemma ptcp_ack_loop_live:
  assumes "ptcp_live Bytes wl hl q ms"
    and "unat (ack - pq_read_seq_num q) = Suc k" and "Suc k \<le> length ms"
  shows "\<exists>r. ptcp_ack_loop wl hl ack q = Some (q\<lparr>pq_read_idx := r, pq_read_seq_num := ack\<rparr>) \<and>
             ptcp_live Bytes wl hl (q\<lparr>pq_read_idx := r, pq_read_seq_num := ack\<rparr>) (drop (Suc k) ms) \<and>
             unat r = unat (pq_read_idx q) + length (concat (take (Suc k) ms))"
  using assms
proof (induction k arbitrary: q ms)
  case 0
  then obtain m ms' where ms: "ms = m # ms'" by (cases ms) auto
  note C = ptcp_live_Cons [OF 0(1) [unfolded ms]]
  have "ack - pq_read_seq_num q = 1" using 0(2) by (metis One_nat_def unat_1 word_unat_eq_iff)
  then have "pq_read_seq_num q + 1 = ack" by (simp add: algebra_simps)
  then show ?case
    using C(1,2,3) C(4) [of ack]
    by (intro exI [of _ "pq_read_idx q + word_of_nat (length m)"]) (simp add: ptcp_ack_loop.simps ms)
next
  case (Suc k)
  then obtain m ms' where ms: "ms = m # ms'" by (cases ms) auto
  note C = ptcp_live_Cons [OF Suc.prems(1) [unfolded ms]]
  let ?q = "q\<lparr>pq_read_idx := pq_read_idx q + word_of_nat (length m), pq_read_seq_num := pq_read_seq_num q + 1\<rparr>"
  have "unat (ack - pq_read_seq_num q - 1) = unat (ack - pq_read_seq_num q) - unat (1 :: u32)"
    using Suc.prems(2) by (intro unat_sub_exact) simp
  then have left: "unat (ack - pq_read_seq_num ?q) = Suc k"
    using Suc.prems(2) by (simp add: diff_diff_eq)
  then have "pq_read_seq_num ?q \<noteq> ack" by auto
  then have step: "ptcp_ack_loop wl hl ack q = ptcp_ack_loop wl hl ack ?q"
    using C(1,2) by (simp add: ptcp_ack_loop.simps [of wl hl ack q])
  have "Suc k \<le> length ms'" using Suc.prems(3) ms by simp
  from Suc.IH [OF C(4) left this] show ?case
    unfolding step using C(3) by (auto simp: ms add.assoc)
qed

lemma ptcp_Ack_stale: "sdiff ack (pq_read_seq_num q) \<le> 0 \<Longrightarrow> ptcp_Ack wl hl ack q = Some q"
  by (simp add: ptcp_Ack_def)

lemma ptcp_ack_loop_blk: "ptcp_ack_loop wl hl ack q = Some q' \<Longrightarrow> pq_blk q' = pq_blk q"
proof (induction wl hl ack q rule: ptcp_ack_loop.induct)
  case (1 wl hl ack q)
  then obtain header where h: "array_get (pq_blk q) (unat (pq_read_idx q)) = Some header"
    by (subst (asm) (2) ptcp_ack_loop.simps) (auto split: option.splits)
  from "1.prems" "1.IH" [OF h refl] show ?case
    by (subst (asm) ptcp_ack_loop.simps) (auto simp: h Let_def split: if_splits)
qed

lemma ptcp_Ack_blk: "ptcp_Ack wl hl ack q = Some q' \<Longrightarrow> pq_blk q' = pq_blk q"
  by (auto simp: ptcp_Ack_def Option.bind_eq_Some_conv dest!: ptcp_ack_loop_blk split: if_splits)

lemma wf_concat_empty: "list_all (wf_msg wl hl) ms \<Longrightarrow> concat ms = [] \<longleftrightarrow> ms = []"
  by (cases ms) (auto dest: wf_msg_nonempty)

lemma ptcp_Ack_live:
  assumes live: "ptcp_live Bytes wl hl q ms"
    and k: "k = unat (ack - pq_read_seq_num q)" "0 < k" "k < 2 ^ 31" "k \<le> length ms"
  obtains q' where "ptcp_Ack wl hl ack q = Some q'"
    and "ptcp_live Bytes wl hl q' (drop k ms)"
    and "pq_read_seq_num q' = ack" and "pq_ack_seq_num q' = pq_ack_seq_num q"
    and "drop k ms = [] \<Longrightarrow> unat (pq_read_idx q') = 0 \<and> unat (pq_write_idx q') = 0 \<and> unat (pq_send_idx q') = 0"
    and "drop k ms \<noteq> [] \<Longrightarrow> unat (pq_read_idx q') = unat (pq_read_idx q) + length (concat (take k ms)) \<and>
           pq_write_idx q' = pq_write_idx q \<and> pq_send_idx q' = pq_send_idx q"
proof -
  obtain j where j: "k = Suc j" using k(2) by (cases k) auto
  have "unat (ack - pq_read_seq_num q) = Suc j" and "Suc j \<le> length ms"
    using k j by simp_all
  from ptcp_ack_loop_live [OF live this] obtain q1 where loop: "ptcp_ack_loop wl hl ack q = Some q1"
    and live1: "ptcp_live Bytes wl hl q1 (drop k ms)"
    and r1: "unat (pq_read_idx q1) = unat (pq_read_idx q) + length (concat (take k ms))"
    and sel: "pq_read_seq_num q1 = ack" "pq_ack_seq_num q1 = pq_ack_seq_num q"
      "pq_write_idx q1 = pq_write_idx q" "pq_send_idx q1 = pq_send_idx q"
    unfolding j by force
  have wf1: "list_all (wf_msg wl hl) (drop k ms)" using live1 by (simp add: ptcp_live_def)
  have "pq_read_idx q1 = pq_write_idx q1 \<longleftrightarrow> concat (drop k ms) = []"
    using ptcp_live_length [OF live1] by (auto simp: word_unat_eq_iff simp del: concat_eq_Nil_conv)
  then have empty: "pq_read_idx q1 = pq_write_idx q1 \<longleftrightarrow> drop k ms = []"
    using wf_concat_empty [OF wf1] by simp
  have "\<not> sdiff ack (pq_read_seq_num q) \<le> 0"
    using sdiff_pos_unat [of ack "pq_read_seq_num q"] k by simp
  then have ack: "ptcp_Ack wl hl ack q
      = Some (if drop k ms = [] then q1\<lparr>pq_read_idx := 0, pq_write_idx := 0, pq_send_idx := 0\<rparr> else q1)"
    using loop empty by (simp add: ptcp_Ack_def)
  show ?thesis
  proof (cases "drop k ms = []")
    case True
    then show ?thesis
      using ack sel live1
      by (intro that [of "q1\<lparr>pq_read_idx := 0, pq_write_idx := 0, pq_send_idx := 0\<rparr>"])
        (simp_all add: ptcp_live_def)
  next
    case False
    then show ?thesis using that [of q1] ack sel live1 r1 by simp
  qed
qed

lemma ptcp_Ack_rel:
  assumes rel: "ptcp_rel Bytes wl hl q ms"
    and k: "k = unat (ack - pq_read_seq_num q)" "k < 2 ^ 31" "k \<le> length ms"
    and sent: "length (concat (take k ms)) \<le> unat (pq_send_idx q) - unat (pq_read_idx q)"
  obtains q' where "ptcp_Ack wl hl ack q = Some q'" and "ptcp_rel Bytes wl hl q' (drop k ms)"
    and "pq_read_seq_num q' = ack" and "pq_ack_seq_num q' = pq_ack_seq_num q"
proof (cases "k = 0")
  case True
  then have "ack = pq_read_seq_num q" using k(1) by (simp add: unat_eq_zero)
  then show ?thesis using True rel by (intro that [of q]) (simp_all add: ptcp_Ack_stale)
next
  case False
  have live: "ptcp_live Bytes wl hl q ms" using rel by (simp add: ptcp_rel_live)
  have k0: "0 < k" using False by simp
  show ?thesis
  proof (rule ptcp_Ack_live [OF live k(1) k0 k(2,3)])
    fix q'
    assume ack: "ptcp_Ack wl hl ack q = Some q'" "ptcp_live Bytes wl hl q' (drop k ms)"
      "pq_read_seq_num q' = ack" "pq_ack_seq_num q' = pq_ack_seq_num q"
      and idx: "drop k ms = [] \<Longrightarrow> unat (pq_read_idx q') = 0 \<and> unat (pq_write_idx q') = 0 \<and> unat (pq_send_idx q') = 0"
        "drop k ms \<noteq> [] \<Longrightarrow> unat (pq_read_idx q') = unat (pq_read_idx q) + length (concat (take k ms)) \<and>
           pq_write_idx q' = pq_write_idx q \<and> pq_send_idx q' = pq_send_idx q"
    have "unat (pq_read_idx q') \<le> unat (pq_send_idx q') \<and> unat (pq_send_idx q') \<le> unat (pq_write_idx q')"
      using idx rel sent by (cases "drop k ms = []") (auto simp: ptcp_rel_def)
    with ack show ?thesis by (intro that [of q']) (simp_all add: ptcp_rel_live)
  qed
qed

section \<open>Sending and resending\<close>

text \<open>The cells between \<open>send_idx_\<close> and \<open>write_idx_\<close> are what the socket still has to be given.\<close>

definition unsent :: "ptcp_queue \<Rightarrow> msg_header list" where
  "unsent q = segment (unat (pq_send_idx q)) (unat (pq_write_idx q)) (pq_blk q)"

lemma unsent_drop:
  assumes "ptcp_rel Bytes wl hl q ms"
  shows "unsent q = drop (unat (pq_send_idx q) - unat (pq_read_idx q)) (concat ms)"
    and "unat (pq_send_idx q) - unat (pq_read_idx q) \<le> length (concat ms)"
  using ptcp_relD [OF assms] ptcp_rel_length [OF assms]
  by (simp_all add: unsent_def drop_segment flip: ptcp_relD(5) [OF assms])

lemma ptcp_send_unsent:
  assumes "ptcp_rel Bytes wl hl q ms" and "ptcp_rel Bytes wl hl q' (ms @ [m])"
    and "unat (pq_send_idx q') - unat (pq_read_idx q') = unat (pq_send_idx q) - unat (pq_read_idx q)"
  shows "unsent q' = unsent q @ m"
  using unsent_drop [OF assms(1)] unsent_drop [OF assms(2)] assms(3) by simp

lemma ptcp_GetSendable_unsent:
  assumes "ptcp_rel Bytes wl hl q ms"
  shows "ptcp_GetSendable q = (int (length (unsent q)), pq_send_idx q)"
proof -
  note R = ptcp_relD [OF assms]
  have "unat (pq_write_idx q - pq_send_idx q) = length (unsent q)"
    using R by (simp add: unat_exact unsent_def)
  moreover have "length (unsent q) < 2 ^ 31"
    using R PTCP_BLK_CNT_bound [of Bytes] by (simp add: unsent_def)
  ultimately show ?thesis by (simp add: ptcp_GetSendable_def sint_u32 del: of_nat_unat)
qed

lemma ptcp_Sendout_rel:
  assumes rel: "ptcp_rel Bytes wl hl q ms" and n: "n \<le> length (unsent q)"
  shows "ptcp_rel Bytes wl hl (ptcp_Sendout (int n) q) ms"
    and "unsent (ptcp_Sendout (int n) q) = drop n (unsent q)"
proof -
  note R = ptcp_relD [OF rel]
  have "n \<le> unat (pq_write_idx q) - unat (pq_send_idx q)" using n R by (simp add: unsent_def)
  then have "unat (pq_send_idx q + word_of_nat n) = unat (pq_send_idx q) + n"
    using R PTCP_BLK_CNT_bound [of Bytes] by (subst unat_add_exact) (simp_all add: unat_exact)
  then show "ptcp_rel Bytes wl hl (ptcp_Sendout (int n) q) ms"
    and "unsent (ptcp_Sendout (int n) q) = drop n (unsent q)"
    using R \<open>n \<le> _ - _\<close> by (auto simp: ptcp_Sendout_def ptcp_rel_def unsent_def drop_segment)
qed

lemma ptcp_LoginAck_rel:
  assumes rel: "ptcp_rel Bytes wl hl q ms"
    and k: "k = unat (ack - pq_read_seq_num q)" "k < 2 ^ 31" "k \<le> length ms"
  obtains q' where "ptcp_LoginAck wl hl ack q = Some q'" and "ptcp_rel Bytes wl hl q' (drop k ms)"
    and "unsent q' = concat (drop k ms)"
    and "pq_read_seq_num q' = ack" and "pq_ack_seq_num q' = pq_ack_seq_num q"
proof -
  have live: "ptcp_live Bytes wl hl q ms" using rel by (simp add: ptcp_rel_live)
  obtain q1 where ack: "ptcp_Ack wl hl ack q = Some q1" "ptcp_live Bytes wl hl q1 (drop k ms)"
    "pq_read_seq_num q1 = ack" "pq_ack_seq_num q1 = pq_ack_seq_num q"
  proof (cases "k = 0")
    case True
    then have "ack = pq_read_seq_num q" using k(1) by (simp add: unat_eq_zero)
    then show ?thesis using live True by (intro that [of q]) (simp_all add: ptcp_Ack_stale)
  next
    case False
    then have "0 < k" by simp
    from ptcp_Ack_live [OF live k(1) this k(2,3)] that show ?thesis by metis
  qed
  let ?q = "q1\<lparr>pq_send_idx := pq_read_idx q1\<rparr>"
  have "ptcp_LoginAck wl hl ack q = Some ?q" using ack by (simp add: ptcp_LoginAck_def)
  moreover have "ptcp_rel Bytes wl hl ?q (drop k ms)" and "unsent ?q = concat (drop k ms)"
    using ack(2) by (simp_all add: ptcp_rel_live ptcp_live_def unsent_def)
  ultimately show ?thesis using that ack by simp
qed

section \<open>The sanity check\<close>

text \<open>No stored message acknowledges more than this side has consumed.\<close>

definition acks_ok :: "bool \<Rightarrow> bool \<Rightarrow> ptcp_queue \<Rightarrow> msg_header list list \<Rightarrow> bool" where
  "acks_ok wl hl q ms \<longleftrightarrow>
     list_all (\<lambda>m. 0 \<le> sdiff (pq_ack_seq_num q) (hdr_ack_seq (msg_header_of wl hl m))) ms"

lemma ptcp_live_frame [simp]:
  "ptcp_live Bytes wl hl (q\<lparr>pq_read_seq_num := s\<rparr>) = ptcp_live Bytes wl hl q"
  "ptcp_live Bytes wl hl (q\<lparr>pq_send_idx := i\<rparr>) = ptcp_live Bytes wl hl q"
  by (simp_all add: ptcp_live_def fun_eq_iff)

lemma ptcp_live_first_cell:
  assumes "ptcp_live Bytes wl hl q (m # ms)"
  shows "pq_blk q ! unat (pq_read_idx q) = hd m" and "pq_read_idx q < pq_write_idx q"
proof -
  have cells: "segment (unat (pq_read_idx q)) (unat (pq_write_idx q)) (pq_blk q) = m @ concat ms"
    and m: "m \<noteq> []" and le: "unat (pq_write_idx q) \<le> length (pq_blk q)"
    using assms by (auto simp: ptcp_live_def dest: wf_msg_nonempty)
  have lt: "unat (pq_read_idx q) < unat (pq_write_idx q)"
    using ptcp_live_length [OF assms] m by (cases m) auto
  then show "pq_read_idx q < pq_write_idx q" by (simp add: word_less_nat_alt)
  have "pq_blk q ! unat (pq_read_idx q) = (m @ concat ms) ! 0"
    unfolding cells [symmetric] using lt le by (simp add: nth_segment)
  then show "pq_blk q ! unat (pq_read_idx q) = hd m" using m by (simp add: nth_append hd_conv_nth)
qed

lemma ptcp_sanity_loop_live:
  "ptcp_live Bytes wl hl (q\<lparr>pq_read_idx := idx\<rparr>) ms \<Longrightarrow> acks_ok wl hl q ms \<Longrightarrow>
   ptcp_sanity_loop wl hl q idx e = Some (Some (pq_write_idx q, e + word_of_nat (length ms)))"
proof (induction ms arbitrary: idx e)
  case Nil
  then have "unat idx = unat (pq_write_idx q)" using ptcp_live_length [OF Nil.prems(1)] by simp
  then have "idx = pq_write_idx q" by (simp add: word_unat_eq_iff)
  then show ?case by (simp add: ptcp_sanity_loop.simps)
next
  case (Cons m ms)
  note C = ptcp_live_Cons [OF Cons.prems(1)] and F = ptcp_live_first_cell [OF Cons.prems(1)]
  have "ptcp_live Bytes wl hl (q\<lparr>pq_read_idx := idx + word_of_nat (length m)\<rparr>) ms"
    using C(4) by simp
  moreover have "acks_ok wl hl q ms" using Cons.prems(2) by (simp add: acks_ok_def)
  ultimately have IH: "ptcp_sanity_loop wl hl q (idx + word_of_nat (length m)) (e + 1)
      = Some (Some (pq_write_idx q, e + 1 + word_of_nat (length ms)))" by (rule Cons.IH)
  have "\<not> sdiff (pq_ack_seq_num q) (Convert wl hl (hdr_ack_seq (hd m))) < 0"
    using Cons.prems(2) by (simp add: acks_ok_def msg_header_of_def)
  then show ?case
    using C(1,2) F IH by (subst ptcp_sanity_loop.simps) (simp add: Let_def algebra_simps)
qed

lemma ptcp_sanity_live:
  assumes "ptcp_live Bytes wl hl q ms" and "acks_ok wl hl q ms"
  shows "ptcp_SanityCheckAndGetSeq wl hl q
       = Some (Some (pq_read_seq_num q, pq_read_seq_num q + word_of_nat (length ms)))"
  using ptcp_sanity_loop_live [of Bytes wl hl "pq_read_idx q" q ms] assms
  by (simp add: ptcp_SanityCheckAndGetSeq_def)

text \<open>A header with size 0 inside the queue sends the check into an endless loop.\<close>

definition zero_sized_at :: "bool \<Rightarrow> bool \<Rightarrow> ptcp_queue \<Rightarrow> u32 \<Rightarrow> bool" where
  "zero_sized_at wl hl q idx \<longleftrightarrow>
     idx < pq_write_idx q \<and> unat idx < length (pq_blk q) \<and>
     hdr_size (pq_blk q ! unat idx) = 0 \<and>
     0 \<le> sdiff (pq_ack_seq_num q) (Convert wl hl (hdr_ack_seq (pq_blk q ! unat idx)))"

lemma Convert_0 [simp]: "Convert wl hl (0 :: u16) = 0"
  by (simp add: Convert_width tcp_bswap16_def numeral_2_eq_2)


text \<open>What a scan that reaches \<open>write_idx_\<close> has seen.\<close>

definition scanned :: "bool \<Rightarrow> bool \<Rightarrow> ptcp_queue \<Rightarrow> u32 \<Rightarrow> u32 \<Rightarrow> u32 \<Rightarrow> msg_header list list \<Rightarrow> bool" where
  "scanned wl hl q idx e e' ms \<longleftrightarrow>
     unat idx \<le> unat (pq_write_idx q) \<and> \<not> zero_sized_at wl hl q idx \<and>
     segment (unat idx) (unat (pq_write_idx q)) (pq_blk q) = concat ms \<and>
     (\<forall>m \<in> set ms. m \<noteq> [] \<and> length m = blocks 8 (msg_size wl hl m)) \<and> acks_ok wl hl q ms \<and>
     e' = e + word_of_nat (length ms)"

lemma scanned_step:
  assumes lt: "idx < pq_write_idx q" "pq_write_idx q \<le> PTCP_BLK_CNT Bytes"
    and len: "length (pq_blk q) = unat (PTCP_BLK_CNT Bytes)"
    and h: "h = pq_blk q ! unat idx" "0 \<le> sdiff (pq_ack_seq_num q) (Convert wl hl (hdr_ack_seq h))"
    and n: "n = blocks 8 (unat (Convert wl hl (hdr_size h)))"
    and rest: "scanned wl hl q (idx + word_of_nat n) (e + 1) e' ms"
  shows "\<exists>ms. scanned wl hl q idx e e' ms"
proof -
  have i: "unat idx < unat (pq_write_idx q)" "unat (pq_write_idx q) \<le> length (pq_blk q)"
    using lt len by (simp_all add: word_less_nat_alt word_le_nat_alt)
  have nz: "n \<noteq> 0"
  proof
    assume "n = 0"
    moreover from this have "hdr_size h = 0"
      using n conv16.conv_swap [of wl hl "hdr_size h" 0] by (simp add: unat_eq_zero)
    ultimately show False
      using rest lt i h by (simp add: scanned_def zero_sized_at_def)
  qed
  have "n \<le> 8192" using n blocks8_u16 by simp
  then have i': "unat (idx + word_of_nat n) = unat idx + n"
    using i len PTCP_BLK_CNT_bound [of Bytes] by (subst unat_add_exact) (simp_all add: unat_exact)
  let ?m = "segment (unat idx) (unat idx + n) (pq_blk q)"
  have le: "unat idx + n \<le> unat (pq_write_idx q)" using rest by (simp add: scanned_def i')
  then have m: "?m = h # segment (Suc (unat idx)) (unat idx + n) (pq_blk q)"
    using nz i h by (subst segment_Cons) simp_all
  have "segment (unat idx) (unat (pq_write_idx q)) (pq_blk q) = ?m @ concat ms"
    using rest le segment_append [of "unat idx" "unat idx + n" "unat (pq_write_idx q)" "pq_blk q"]
    by (simp add: scanned_def i')
  moreover have "length ?m = n" using le i by simp
  moreover have "msg_size wl hl ?m = unat (Convert wl hl (hdr_size h))" by (simp add: m msg_size_def)
  moreover have "hdr_ack_seq (msg_header_of wl hl ?m) = Convert wl hl (hdr_ack_seq h)"
    by (simp add: m msg_header_of_def)
  moreover have "\<not> zero_sized_at wl hl q idx" using nz n h by (auto simp: zero_sized_at_def)
  ultimately have "scanned wl hl q idx e e' (?m # ms)"
    using rest i nz n h(2) by (auto simp: scanned_def acks_ok_def)
  then show ?thesis ..
qed

lemma ptcp_sanity_loop_scanned:
  assumes "ptcp_sanity_loop wl hl q idx e = Some (Some (pq_write_idx q, e'))"
    and "length (pq_blk q) = unat (PTCP_BLK_CNT Bytes)" and "pq_write_idx q \<le> PTCP_BLK_CNT Bytes"
  shows "\<exists>ms. scanned wl hl q idx e e' ms"
proof -
  let ?P = "\<lambda>wl hl q idx e r. \<forall>e'. r = Some (pq_write_idx q, e') \<longrightarrow>
      length (pq_blk q) = unat (PTCP_BLK_CNT Bytes) \<longrightarrow> pq_write_idx q \<le> PTCP_BLK_CNT Bytes \<longrightarrow>
      (\<exists>ms. scanned wl hl q idx e e' ms)"
  have "?P wl hl q idx e (Some (pq_write_idx q, e'))"
  proof (rule ptcp_sanity_loop.raw_induct [where P = ?P, OF _ assms(1)], intro allI impI)
    fix f wl hl q idx e r e'
    assume IH: "\<And>wl hl q idx e r. f wl hl q idx e = Some r \<Longrightarrow> ?P wl hl q idx e r"
      and eq: "(if idx < pq_write_idx q
        then case array_get (pq_blk q) (unat idx) of None \<Rightarrow> None
             | Some cell \<Rightarrow>
                 let header = ConvertByteOrder wl hl cell
                 in if sdiff (pq_ack_seq_num q) (hdr_ack_seq header) < 0 then Some None
                    else f wl hl q (idx + word_of_nat (blocks 8 (unat (hdr_size header)))) (e + 1)
        else Some (Some (idx, e))) = Some r"
      and r: "r = Some (pq_write_idx q, e')"
      and len: "length (pq_blk q) = unat (PTCP_BLK_CNT Bytes)" and le: "pq_write_idx q \<le> PTCP_BLK_CNT Bytes"
    show "\<exists>ms. scanned wl hl q idx e e' ms"
    proof (cases "idx < pq_write_idx q")
      case True
      let ?h = "pq_blk q ! unat idx"
      have ok: "0 \<le> sdiff (pq_ack_seq_num q) (Convert wl hl (hdr_ack_seq ?h))"
        and rec: "f wl hl q (idx + word_of_nat (blocks 8 (unat (Convert wl hl (hdr_size ?h))))) (e + 1) = Some r"
        using eq True r by (auto simp: array_get_def Let_def split: if_splits)
      from IH [OF rec] r len le obtain ms where
        "scanned wl hl q (idx + word_of_nat (blocks 8 (unat (Convert wl hl (hdr_size ?h))))) (e + 1) e' ms" by blast
      then show ?thesis by (rule scanned_step [OF True le len refl ok refl])
    next
      case False
      then have "scanned wl hl q idx e e' []"
        using eq r by (auto simp: scanned_def acks_ok_def zero_sized_at_def)
      then show ?thesis ..
    qed
  qed
  with assms show ?thesis by blast
qed

section \<open>The zeroed queue\<close>

text \<open>
  A fresh file (\<open>ftruncate\<close> fills with zeros) and \<open>PTCPConnection::Reset\<close>
  (\<open>memset(q_, 0, sizeof(PTCPQ))\<close>).
\<close>

definition ptcp_zeroed :: "u32 \<Rightarrow> ptcp_queue" where
  "ptcp_zeroed Bytes =
     \<lparr>pq_blk = replicate (unat (PTCP_BLK_CNT Bytes)) zero_header, pq_write_idx = 0, pq_read_idx = 0,
      pq_send_idx = 0, pq_read_seq_num = 0, pq_ack_seq_num = 0\<rparr>"

lemma ptcp_zeroed_rel: "ptcp_rel Bytes wl hl (ptcp_zeroed Bytes) []"
  by (simp add: ptcp_rel_def ptcp_zeroed_def)

section \<open>The queue as a send queue\<close>

interpretation ptcp_sq: send_queue
  "ptcp_rel Bytes wl hl"
  "\<lambda>(mt, body). ptcp_send Bytes wl hl mt body"
  "\<lambda>(mt, body). length body + 8 < 65536"
  "\<lambda>q (mt, body) m. msg_body wl hl m = body \<and>
     msg_header_of wl hl m
       = \<lparr>hdr_size = word_of_nat (length body + 8), hdr_msg_type = mt, hdr_ack_seq = pq_ack_seq_num q\<rparr>"
  for Bytes wl hl
proof (unfold_locales, goal_cases)
  case (1 q ms x)
  then show ?case
    using ptcp_send_full ptcp_send_rel by (cases x) (metis case_prod_conv linorder_not_le)
next
  case (2 q ms x q')
  obtain mt body where x: "x = (mt, body)" by (cases x)
  then have fits: "length (concat ms) + blocks 8 (length body + 8) \<le> unat (PTCP_BLK_CNT Bytes)"
    using 2 ptcp_send_full [of Bytes wl hl q ms body mt] by fastforce
  have "ptcp_rel Bytes wl hl q ms" and "length body + 8 < 65536" using 2 x by simp_all
  then show ?case
    by (rule ptcp_send_rel [OF _ _ fits, of wl hl q mt]) (use 2 x in auto)
next
  case (3 q ms x q')
  then show ?case
    using ptcp_send_full ptcp_send_rel
    by (cases x) (metis case_prod_conv linorder_not_le option.inject prod.inject)
qed

section \<open>A small queue\<close>

text \<open>
  Four cells, one message of eleven bytes that has been sent and not acknowledged, and a sequence
  number about to wrap: a concrete state for the witnesses below.
\<close>

definition sample_msg :: "msg_header list" where
  "sample_msg =
     [\<lparr>hdr_size = 11, hdr_msg_type = 7, hdr_ack_seq = 0\<rparr>, \<lparr>hdr_size = 513, hdr_msg_type = 3, hdr_ack_seq = 0\<rparr>]"

definition sample_queue :: ptcp_queue where
  "sample_queue =
     \<lparr>pq_blk = sample_msg @ [zero_header, zero_header], pq_write_idx = 2, pq_read_idx = 0, pq_send_idx = 2,
      pq_read_seq_num = - 1, pq_ack_seq_num = 0\<rparr>"

lemma sample_queue_rel: "ptcp_rel 32 True True sample_queue [sample_msg]"
  by (simp add: ptcp_rel_def sample_queue_def sample_msg_def PTCP_BLK_CNT_def segment_def wf_msg_def
      msg_size_def Convert_def blocks_def)

section \<open>Properties\<close>

text \<open>C10: Writing a message of up to 65527 bytes into a well-formed queue: when its cells fit
  beside the unacknowledged messages it is appended behind them (whether or not the live cells
  have to be moved to the front first) and the stored cells carry exactly the given type, body and
  this side's acknowledgement number in wire byte order; when they do not fit, \<open>Alloc\<close> returns
  the null pointer and the queue is unchanged. No access leaves the array.\<close>

theorem ptcp_send_appends:
  assumes "ptcp_rel Bytes wl hl q ms" and "length body \<le> 65527"
  shows "if length (concat ms) + blocks 8 (length body + 8) \<le> unat (PTCP_BLK_CNT Bytes)
         then \<exists>q' m. ptcp_send Bytes wl hl mt body q = Some (q', True) \<and>
                ptcp_rel Bytes wl hl q' (ms @ [m]) \<and>
                msg_header_of wl hl m
                  = \<lparr>hdr_size = word_of_nat (length body + 8), hdr_msg_type = mt, hdr_ack_seq = pq_ack_seq_num q\<rparr> \<and>
                msg_body wl hl m = body \<and>
                pq_read_seq_num q' = pq_read_seq_num q \<and> pq_ack_seq_num q' = pq_ack_seq_num q
         else ptcp_send Bytes wl hl mt body q = Some (q, False)"
proof -
  have len: "length body + 8 < 65536" using assms(2) by simp
  show ?thesis
    using ptcp_send_full [OF assms(1) len] ptcp_send_rel [OF assms(1) len, of mt] by (metis linorder_not_le)
qed

theorem ptcp_send_appends_witness:
  "\<exists>q' m. ptcp_send 64 True False 7 [1, 2, 3] (ptcp_zeroed 64) = Some (q', True) \<and>
     ptcp_rel 64 True False q' [m] \<and> msg_body True False m = [1, 2, 3]"
proof -
  have rel: "ptcp_rel 64 True False (ptcp_zeroed 64) []" by (rule ptcp_zeroed_rel)
  have "length [1, 2, 3 :: u8] \<le> 65527" by simp
  from ptcp_send_appends [OF rel this, of 7] show ?thesis
    by (auto simp: PTCP_BLK_CNT_def blocks_def)
qed

text \<open>C12: An acknowledgement number between the oldest unacknowledged message and the end of the
  queue, however the 32-bit sequence numbers wrap, removes exactly the messages before it, provided
  that they had been handed to the socket; the invariant
  \<open>read_idx_ <= send_idx_ <= write_idx_\<close> is kept and the loop of \<open>Ack\<close> ends inside the array. A
  number that is not newer than \<open>read_seq_num_\<close> changes nothing.\<close>

theorem ptcp_Ack_removes_acknowledged:
  assumes "ptcp_rel Bytes wl hl q ms"
    and "k = unat (ack - pq_read_seq_num q)" and "k < 2 ^ 31" and "k \<le> length ms"
    and "length (concat (take k ms)) \<le> unat (pq_send_idx q) - unat (pq_read_idx q)"
  shows "\<exists>q'. ptcp_Ack wl hl ack q = Some q' \<and> ptcp_rel Bytes wl hl q' (drop k ms) \<and>
           pq_read_seq_num q' = ack \<and> pq_ack_seq_num q' = pq_ack_seq_num q \<and>
           (\<forall>old. sdiff old ack \<le> 0 \<longrightarrow> ptcp_Ack wl hl old q' = Some q')"
  by (rule ptcp_Ack_rel [OF assms]) (auto simp: ptcp_Ack_stale)

theorem ptcp_Ack_removes_acknowledged_witness:
  "\<exists>q'. ptcp_Ack True True 0 sample_queue = Some q' \<and> ptcp_rel 32 True True q' [] \<and> pq_read_seq_num q' = 0"
  using ptcp_Ack_removes_acknowledged [OF sample_queue_rel, of 1 0]
  by (auto simp: sample_queue_def sample_msg_def)

text \<open>C11: Recovery. When a connection is (re)established and the peer's login carries the number
  of the next message it expects, \<open>LoginAck\<close> drops exactly the messages the peer has consumed and
  rewinds \<open>send_idx_\<close>, so that what is sent next is the concatenation of all messages the peer has
  not consumed, from the first cell of the first one, whatever had been sent before the connection
  broke.\<close>

theorem ptcp_LoginAck_resends_unacknowledged:
  assumes "ptcp_rel Bytes wl hl q ms"
    and "k = unat (ack - pq_read_seq_num q)" and "k < 2 ^ 31" and "k \<le> length ms"
  shows "\<exists>q'. ptcp_LoginAck wl hl ack q = Some q' \<and> ptcp_rel Bytes wl hl q' (drop k ms) \<and>
           pq_read_seq_num q' = ack \<and>
           ptcp_GetSendable q' = (int (length (concat (drop k ms))), pq_send_idx q') \<and>
           segment (unat (pq_send_idx q')) (unat (pq_write_idx q')) (pq_blk q') = concat (drop k ms)"
  using ptcp_LoginAck_rel [OF assms] ptcp_GetSendable_unsent unfolding unsent_def by metis

theorem ptcp_LoginAck_resends_unacknowledged_witness:
  "\<exists>q'. ptcp_LoginAck True True (- 1) sample_queue = Some q' \<and>
     ptcp_GetSendable q' = (2, pq_send_idx q') \<and>
     segment (unat (pq_send_idx q')) (unat (pq_write_idx q')) (pq_blk q') = sample_msg"
  using ptcp_LoginAck_resends_unacknowledged [OF sample_queue_rel, of 0 "- 1"]
  by (auto simp: sample_queue_def sample_msg_def)

text \<open>C15: On a well-formed queue whose stored acknowledgement numbers are not newer than what this
  side consumed, \<open>SanityCheckAndGetSeq\<close> returns, accepts the queue, and reports the sequence
  numbers of the oldest unacknowledged message and of the next message to be written.\<close>

theorem ptcp_sanity_accepts:
  assumes "ptcp_rel Bytes wl hl q ms" and "acks_ok wl hl q ms"
  shows "ptcp_SanityCheckAndGetSeq wl hl q
       = Some (Some (pq_read_seq_num q, pq_read_seq_num q + word_of_nat (length ms)))"
  using assms ptcp_rel_live ptcp_sanity_live by blast

theorem ptcp_sanity_accepts_witness:
  "ptcp_SanityCheckAndGetSeq True True sample_queue = Some (Some (- 1, 0))"
proof -
  have "acks_ok True True sample_queue [sample_msg]" by code_simp
  from ptcp_sanity_accepts [OF sample_queue_rel this] show ?thesis by (simp add: sample_queue_def)
qed

text \<open>C16: Conversely, an accepted queue whose \<open>write_idx_\<close> lies inside the array is a sequence of
  whole messages: the cells from \<open>read_idx_\<close> to \<open>write_idx_\<close> split into messages whose headers
  give their lengths and do not acknowledge too much, and the reported end number counts them.\<close>

theorem ptcp_sanity_sound:
  assumes "ptcp_SanityCheckAndGetSeq wl hl q = Some (Some (s, e))"
    and "length (pq_blk q) = unat (PTCP_BLK_CNT Bytes)"
    and "pq_write_idx q \<le> PTCP_BLK_CNT Bytes"
  shows "\<exists>ms. segment (unat (pq_read_idx q)) (unat (pq_write_idx q)) (pq_blk q) = concat ms \<and>
           (\<forall>m \<in> set ms. m \<noteq> [] \<and> length m = blocks 8 (msg_size wl hl m)) \<and> acks_ok wl hl q ms \<and>
           s = pq_read_seq_num q \<and> e = s + word_of_nat (length ms)"
proof -
  from assms(1) have "ptcp_sanity_loop wl hl q (pq_read_idx q) (pq_read_seq_num q) = Some (Some (pq_write_idx q, e))"
    and "s = pq_read_seq_num q"
    by (auto simp: ptcp_SanityCheckAndGetSeq_def bind_eq_Some_conv split: option.splits if_splits)
  with ptcp_sanity_loop_scanned [OF this(1) assms(2,3)] show ?thesis by (auto simp: scanned_def)
qed

theorem ptcp_sanity_sound_witness:
  "\<exists>ms. segment 0 2 (pq_blk sample_queue) = concat ms \<and> (0 :: u32) = - 1 + word_of_nat (length ms)"
proof -
  have "ptcp_SanityCheckAndGetSeq True True sample_queue = Some (Some (- 1, 0))"
    by (simp add: ptcp_SanityCheckAndGetSeq_def ptcp_sanity_loop.simps sample_queue_def sample_msg_def
        Let_def Convert_def sdiff_def blocks_def array_get_def)
  from ptcp_sanity_sound [OF this, of 32] show ?thesis
    by (auto simp: sample_queue_def sample_msg_def PTCP_BLK_CNT_def)
qed



text \<open>C33: \<open>Alloc\<close> does not reject sizes above 65527: \<open>size += sizeof(MsgHeader)\<close> wraps in 16 bits,
  and with at least one free cell the caller gets a pointer to a message whose size field is
  \<open>size - 65528\<close>, at most one cell, instead of the null pointer.\<close>

theorem ptcp_Alloc_wraps_oversize:
  assumes "ptcp_rel Bytes wl hl q ms" and "65528 \<le> unat sz"
    and "unat (pq_write_idx q) < unat (PTCP_BLK_CNT Bytes)"
  shows "\<exists>q'. ptcp_Alloc Bytes sz q = Some (q', Some (pq_write_idx q)) \<and>
           unat (hdr_size (pq_blk q' ! unat (pq_write_idx q))) = unat sz - 65528"
proof -
  have s: "unat (sz + 8) = unat sz - 65528"
    using assms(2) unat_u16_less [of sz] by (simp add: unat_word_ariths mod_if)
  then have small: "blocks 8 (unat (sz + 8)) \<le> 1" using unat_u16_less [of sz] by (simp add: blocks_def)
  have "unat (PTCP_BLK_CNT Bytes - pq_write_idx q) = unat (PTCP_BLK_CNT Bytes) - unat (pq_write_idx q)"
    using assms(3) by (simp add: unat_exact)
  moreover have "unat (word_of_nat (blocks 8 (unat (sz + 8))) :: u32) \<le> 1"
    using small by (subst unat_of_nat_exact) simp_all
  ultimately have "\<not> PTCP_BLK_CNT Bytes - pq_write_idx q < (word_of_nat (blocks 8 (unat (sz + 8))) :: u32)"
    unfolding word_less_nat_alt using assms(3) by linarith
  moreover obtain b where "ptcp_alloc_header (sz + 8) q = Some (q\<lparr>pq_blk := b\<rparr>, Some (pq_write_idx q))"
    and "hdr_size (b ! unat (pq_write_idx q)) = sz + 8"
    by (rule ptcp_alloc_header_rel [OF assms(1,3)])
  ultimately show ?thesis using s by (simp add: ptcp_Alloc_def Let_def)
qed

theorem ptcp_Alloc_wraps_oversize_witness:
  "\<exists>q'. ptcp_Alloc 64 65530 (ptcp_zeroed 64) = Some (q', Some 0) \<and> unat (hdr_size (pq_blk q' ! 0)) = 2"
  using ptcp_Alloc_wraps_oversize [OF ptcp_zeroed_rel, of 65530 64]
  by (simp add: ptcp_zeroed_def PTCP_BLK_CNT_def)


end
