(* ===== verification/Ptcp_Conn.thy ===== *)
theory Ptcp_Conn
  imports Os_Layer Ptcp_Queue
begin

text \<open>
  The class \<open>PTCPConnection\<close> of \<^verbatim>\<open>ptcp_conn.h\<close>: a TCP socket, the persistent queue of outgoing messages
  and the buffer of received bytes, with the messages and constants of that file. Every member
  function is a definition over the state \<open>ptcp_conn\<close>; those that call the operating system also take
  \<open>os\<close> and the world.

  \<open>pc_q\<close> is the mapped queue, \<open>None\<close> for the null pointer; its contents are the contents of the
  mapped file. \<open>pc_recvbuf\<close> is the array behind \<open>recvbuf_\<close>. Indices are 32-bit words as in the source;
  times are integers (the source's \<open>int64_t\<close> time stamps do not overflow). As in the other theories
  \<open>None\<close> as a result is no normal return: an access outside an array or through a null pointer, or a
  loop that does not end.
\<close>

section \<open>Configuration\<close>

text \<open>
  The constants of the template parameter \<open>Conf\<close>, and the byte order of the host. The types
  \<open>LoginUserData\<close> and \<open>LoginRspUserData\<close> are arrays of characters of the given sizes (\<open>char\<close> in
  \<^verbatim>\<open>common.h\<close>).
\<close>

record conf =
  NameSize :: nat
  ShmQueueSize :: u32
  ToLittleEndian :: bool
  TcpQueueSize :: u32
  TcpRecvBufInitSize :: u32
  TcpRecvBufMaxSize :: u32
  TcpNoDelay :: bool
  ConnectionTimeout :: int
  HeartBeatInverval :: int
  LoginUserDataSize :: nat
  LoginRspUserDataSize :: nat
  HostLittle :: bool

text \<open>
  The static assertions of the class, and that sizes fit into the \<open>int\<close>s the code compares them
  as.
\<close>

definition recv_conf :: "conf \<Rightarrow> bool" where
  "recv_conf cf \<longleftrightarrow>
     TcpRecvBufInitSize cf \<le> TcpRecvBufMaxSize cf \<and> TcpRecvBufInitSize cf mod 8 = 0 \<and>
     TcpRecvBufMaxSize cf mod 8 = 0 \<and> unat (TcpRecvBufMaxSize cf) < 2 ^ 30"

text \<open>\<open>HeartbeatMsg\<close> is a bare header with this type.\<close>

definition HeartbeatMsg_msg_type :: u16 where
  "HeartbeatMsg_msg_type = 0"

section \<open>The connection\<close>

record ptcp_conn =
  pc_q :: "ptcp_queue option"
  pc_sockfd :: int
  pc_fd_to_close :: int
  pc_close_reason :: string
  pc_close_errno :: int
  pc_recvbuf :: "u8 list"
  pc_recvbuf_size :: u32
  pc_writeidx :: u32
  pc_nextmsg_idx :: u32
  pc_readidx :: u32
  pc_recv_time :: int
  pc_send_time :: int
  pc_now :: int
  pc_hbmsg :: msg_header
  pc_last_my_ack :: u32

definition PTCPConnection :: "conf \<Rightarrow> ptcp_conn" where
  "PTCPConnection cf =
     \<lparr>pc_q = None, pc_sockfd = INVALID_TCP_SOCKET, pc_fd_to_close = INVALID_TCP_SOCKET,
      pc_close_reason = ''nil'', pc_close_errno = 0, pc_recvbuf = [], pc_recvbuf_size = 0,
      pc_writeidx = 0, pc_nextmsg_idx = 0, pc_readidx = 0, pc_recv_time = 0, pc_send_time = 0, pc_now = 0,
      pc_hbmsg = ConvertByteOrder (ToLittleEndian cf) (HostLittle cf)
        \<lparr>hdr_size = 8, hdr_msg_type = HeartbeatMsg_msg_type, hdr_ack_seq = 0\<rparr>,
      pc_last_my_ack = 0\<rparr>"

subsection \<open>Closing\<close>

definition pc_IsClosed :: "ptcp_conn \<Rightarrow> bool" where
  "pc_IsClosed c \<longleftrightarrow> pc_sockfd c = INVALID_TCP_SOCKET"

definition pc_Close :: "string \<Rightarrow> int \<Rightarrow> ptcp_conn \<Rightarrow> ptcp_conn" where
  "pc_Close reason sys_err c =
     (if pc_sockfd c = INVALID_TCP_SOCKET then c
      else c\<lparr>pc_sockfd := INVALID_TCP_SOCKET, pc_close_reason := reason, pc_close_errno := sys_err\<rparr>)"

definition pc_RequestClose :: "ptcp_conn \<Rightarrow> ptcp_conn" where
  "pc_RequestClose c = pc_Close ''Request close'' 0 c"

definition pc_GetCloseReason :: "ptcp_conn \<Rightarrow> string \<times> int" where
  "pc_GetCloseReason c = (pc_close_reason c, pc_close_errno c)"

definition pc_TryCloseFd :: "'w os \<Rightarrow> ptcp_conn \<Rightarrow> 'w \<Rightarrow> bool \<times> ptcp_conn \<times> 'w" where
  "pc_TryCloseFd os c w =
     (if pc_sockfd c = INVALID_TCP_SOCKET \<and> pc_fd_to_close c \<noteq> INVALID_TCP_SOCKET
      then (True, c\<lparr>pc_fd_to_close := INVALID_TCP_SOCKET\<rparr>, snd (tcp_close os (pc_fd_to_close c) w))
      else (False, c, w))"

definition pc_UseShm :: "ptcp_conn \<Rightarrow> bool" where
  "pc_UseShm c \<longleftrightarrow> pc_q c = None"

subsection \<open>The queue file\<close>

definition pc_OpenFile ::
    "'w os \<Rightarrow> (ptcp_queue, 'w) map_ops \<Rightarrow> string \<Rightarrow> ptcp_conn \<Rightarrow> 'w \<Rightarrow> (unit + string) \<times> ptcp_conn \<times> 'w" where
  "pc_OpenFile os T file c w =
     (case pc_q c of
        Some _ \<Rightarrow> (Inl (), c, w)
      | None \<Rightarrow>
          (case my_mmap os T file False w of
             (Inl q, w') \<Rightarrow> (Inl (), c\<lparr>pc_q := Some q\<rparr>, w')
           | (Inr e, w') \<Rightarrow> (Inr e, c, w')))"

text \<open>The local acknowledgement number, and the sequence range unless the queue is rejected.\<close>

definition pc_GetSeq :: "conf \<Rightarrow> ptcp_conn \<Rightarrow> (u32 \<times> (u32 \<times> u32) option) option" where
  "pc_GetSeq cf c = do {
     q \<leftarrow> pc_q c;
     r \<leftarrow> ptcp_SanityCheckAndGetSeq (ToLittleEndian cf) (HostLittle cf) q;
     Some (ptcp_MyAck q, r)
   }"

definition pc_Reset :: "conf \<Rightarrow> ptcp_conn \<Rightarrow> ptcp_conn option" where
  "pc_Reset cf c = do { q \<leftarrow> pc_q c; Some (c\<lparr>pc_q := Some (ptcp_zeroed (TcpQueueSize cf))\<rparr>) }"

definition pc_Release ::
    "'w os \<Rightarrow> (ptcp_queue, 'w) map_ops \<Rightarrow> ptcp_conn \<Rightarrow> 'w \<Rightarrow> ptcp_conn \<times> 'w" where
  "pc_Release os T c w =
     (case pc_TryCloseFd os (pc_Close ''Release'' 0 c) w of
        (_, c1, w1) \<Rightarrow>
          (case pc_q c1 of
             None \<Rightarrow> (c1, w1)
           | Some q \<Rightarrow> (c1\<lparr>pc_q := None\<rparr>, my_munmap T q w1)))"

subsection \<open>Sending\<close>

text \<open>
  The loop of \<open>SendPending\<close>: \<open>p\<close> are the bytes behind the pointer \<open>p\<close>, \<open>sz\<close> is \<open>size\<close>. \<open>Inl\<close> is the
  size left when the loop ends, \<open>Inr\<close> the error number of the branch that closes the connection.
\<close>

partial_function (option) send_pending_loop ::
    "'w os \<Rightarrow> int \<Rightarrow> u8 list \<Rightarrow> u32 \<Rightarrow> 'w \<Rightarrow> ((u32 + int) \<times> 'w) option" where
  "send_pending_loop os fd p sz w =
     (if length p < unat sz then None
      else case tcp_send os fd (take (unat sz) p) w of
        (sent, w') \<Rightarrow>
          if sent < 0
          then let err = tcp_get_last_error os w'
               in if err \<noteq> TCP_ERR_AGAIN \<or> sz AND 7 \<noteq> 0 then Some (Inr err, w') else Some (Inl sz, w')
          else let sz' = sz - word_of_int sent
               in if 0 < sz' then send_pending_loop os fd (drop (nat sent) p) sz' w' else Some (Inl sz', w'))"

declare send_pending_loop.simps [code]

definition pc_SendPending :: "'w os \<Rightarrow> conf \<Rightarrow> ptcp_conn \<Rightarrow> 'w \<Rightarrow> (bool \<times> ptcp_conn \<times> 'w) option" where
  "pc_SendPending os cf c w =
     (if pc_IsClosed c then Some (False, c, w)
      else do {
        q \<leftarrow> pc_q c;
        let (blk_sz, send_idx) = ptcp_GetSendable q;
        if blk_sz = 0 then Some (False, c, w)
        else do {
          (r, w') \<leftarrow> send_pending_loop os (pc_sockfd c) (cells_bytes (HostLittle cf) (drop (unat send_idx) (pq_blk q)))
                       (word_of_int (blk_sz * 8)) w;
          (case r of
             Inr err \<Rightarrow> Some (False, pc_Close ''Send error'' err c, w')
           | Inl sz \<Rightarrow>
               let sent_blk = sint (word_of_int blk_sz - drop_bit 3 sz)
               in Some (True,
                        if 0 < sent_blk
                        then c\<lparr>pc_send_time := pc_now c, pc_q := Some (ptcp_Sendout sent_blk q)\<rparr> else c,
                        w'))
        }
      })"

definition pc_Alloc :: "conf \<Rightarrow> u16 \<Rightarrow> ptcp_conn \<Rightarrow> (ptcp_conn \<times> u32 option) option" where
  "pc_Alloc cf sz c = do {
     q \<leftarrow> pc_q c;
     (q', p) \<leftarrow> ptcp_Alloc (TcpQueueSize cf) sz q;
     Some (c\<lparr>pc_q := Some q'\<rparr>, p)
   }"

definition pc_PushMore :: "conf \<Rightarrow> ptcp_conn \<Rightarrow> ptcp_conn option" where
  "pc_PushMore cf c = do {
     q \<leftarrow> pc_q c;
     q' \<leftarrow> ptcp_Push (ToLittleEndian cf) (HostLittle cf) q;
     Some (c\<lparr>pc_q := Some q'\<rparr>)
   }"

definition pc_Push :: "'w os \<Rightarrow> conf \<Rightarrow> ptcp_conn \<Rightarrow> 'w \<Rightarrow> (ptcp_conn \<times> 'w) option" where
  "pc_Push os cf c w = do {
     c1 \<leftarrow> pc_PushMore cf c;
     (_, c2, w') \<leftarrow> pc_SendPending os cf c1 w;
     Some (c2, w')
   }"

text \<open>The part of \<open>SendHB\<close> that sends the heartbeat itself.\<close>

definition send_heartbeat :: "'w os \<Rightarrow> conf \<Rightarrow> ptcp_conn \<Rightarrow> 'w \<Rightarrow> ptcp_conn \<times> 'w" where
  "send_heartbeat os cf c w =
     (case tcp_send os (pc_sockfd c) (hdr_bytes (HostLittle cf) (pc_hbmsg c)) w of
        (sent, w') \<Rightarrow>
          if sent < 0 \<and> tcp_get_last_error os w' = TCP_ERR_AGAIN then (c, w')
          else if sent \<noteq> int sizeof_MsgHeader
          then (pc_Close ''Send error'' (if sent < 0 then tcp_get_last_error os w' else 0) c, w')
          else (c\<lparr>pc_send_time := pc_now c\<rparr>, w'))"

definition pc_SendHB :: "'w os \<Rightarrow> conf \<Rightarrow> int \<Rightarrow> ptcp_conn \<Rightarrow> 'w \<Rightarrow> (ptcp_conn \<times> 'w) option" where
  "pc_SendHB os cf now c0 w =
     (let c = c0\<lparr>pc_now := now\<rparr>
      in if pc_now c - pc_send_time c < HeartBeatInverval cf then Some (c, w)
         else case pc_q c of
                None \<Rightarrow> Some (send_heartbeat os cf c w)
              | Some _ \<Rightarrow> do {
                  (pending, c1, w1) \<leftarrow> pc_SendPending os cf c w;
                  if pending then Some (c1, w1)
                  else do {
                    q \<leftarrow> pc_q c1;
                    Some (send_heartbeat os cf
                      (c1\<lparr>pc_hbmsg := (pc_hbmsg c1)\<lparr>hdr_ack_seq :=
                          Convert (ToLittleEndian cf) (HostLittle cf) (ptcp_MyAck q)\<rparr>\<rparr>) w1)
                  }
                })"

subsection \<open>Opening\<close>

definition pc_Open :: "'w os \<Rightarrow> conf \<Rightarrow> int \<Rightarrow> u32 \<Rightarrow> int \<Rightarrow> ptcp_conn \<Rightarrow> 'w \<Rightarrow> (ptcp_conn \<times> 'w) option" where
  "pc_Open os cf sock_fd remote_ack_seq now c0 w = do {
     let c = c0\<lparr>pc_sockfd := sock_fd, pc_fd_to_close := sock_fd, pc_writeidx := 0, pc_readidx := 0,
                pc_nextmsg_idx := 0, pc_recv_time := now, pc_send_time := now, pc_now := now\<rparr>;
     (c1, w1) \<leftarrow> (case pc_q c of
                    None \<Rightarrow> Some (c, w)
                  | Some q \<Rightarrow> do {
                      q' \<leftarrow> ptcp_LoginAck (ToLittleEndian cf) (HostLittle cf) remote_ack_seq q;
                      (_, c', w') \<leftarrow> pc_SendPending os cf (c\<lparr>pc_q := Some q'\<rparr>) w;
                      Some (c', w')
                    });
     (if pc_recvbuf_size c1 = 0
      then case sys_new os (unat (TcpRecvBufInitSize cf)) w1 of
             (buf, w2) \<Rightarrow> Some (c1\<lparr>pc_recvbuf_size := TcpRecvBufInitSize cf, pc_recvbuf := buf\<rparr>, w2)
      else Some (c1, w1))
   }"

subsection \<open>Receiving\<close>

text \<open>The end of \<open>DoRecv\<close> when the call returned \<open>ret \<le> 0\<close>.\<close>

definition recv_failed :: "'w os \<Rightarrow> conf \<Rightarrow> int \<Rightarrow> ptcp_conn \<Rightarrow> 'w \<Rightarrow> ptcp_conn" where
  "recv_failed os cf ret c w =
     (if ret < 0
      then if tcp_get_last_error os w = TCP_ERR_AGAIN
           then if ConnectionTimeout cf < pc_now c - pc_recv_time c then pc_Close ''Timeout'' 0 c else c
           else pc_Close ''Read error'' (tcp_get_last_error os w) c
      else pc_Close ''Remote close'' 0 c)"

text \<open>The \<open>memmove\<close> branch, \<open>stack\<close> being the bytes in \<open>stackbuf\<close>.\<close>

definition recv_compact :: "int \<Rightarrow> u32 \<Rightarrow> u8 list \<Rightarrow> ptcp_conn \<Rightarrow> ptcp_conn option" where
  "recv_compact ret writable stack c = do {
     let n = unat (word_of_int ret - writable);
     b \<leftarrow> memmove 0 (unat (pc_readidx c)) (unat (pc_recvbuf_size c - pc_readidx c)) (pc_recvbuf c);
     data \<leftarrow> (if length stack < n then None else Some (take n stack));
     b' \<leftarrow> memcpy (unat (pc_recvbuf_size c - pc_readidx c)) data b;
     Some (c\<lparr>pc_recvbuf := b'\<rparr>)
   }"

text \<open>The branch that expands the buffer.\<close>

definition recv_expand :: "'w os \<Rightarrow> conf \<Rightarrow> int \<Rightarrow> u32 \<Rightarrow> u8 list \<Rightarrow> ptcp_conn \<Rightarrow> 'w \<Rightarrow> (ptcp_conn \<times> 'w) option" where
  "recv_expand os cf ret writable stack c w = do {
     let newbufsize = min (TcpRecvBufMaxSize cf)
           (max (pc_recvbuf_size c * 2) ((pc_writeidx c - pc_readidx c + word_of_int ret + 7) AND - 8));
     let (new_buf, w') = sys_new os (unat newbufsize) w;
     let n = unat (word_of_int ret - writable);
     old \<leftarrow> (if length (pc_recvbuf c) < unat (pc_recvbuf_size c) then None
            else Some (segment (unat (pc_readidx c)) (unat (pc_recvbuf_size c)) (pc_recvbuf c)));
     b \<leftarrow> memcpy 0 old new_buf;
     data \<leftarrow> (if length stack < n then None else Some (take n stack));
     b' \<leftarrow> memcpy (unat (pc_recvbuf_size c - pc_readidx c)) data b;
     Some (c\<lparr>pc_recvbuf := b', pc_recvbuf_size := newbufsize\<rparr>, w')
   }"

definition pc_DoRecv :: "'w os \<Rightarrow> conf \<Rightarrow> ptcp_conn \<Rightarrow> 'w \<Rightarrow> (int \<times> ptcp_conn \<times> 'w) option" where
  "pc_DoRecv os cf c0 w =
     (let c = (if 0 < pc_readidx c0 \<and> pc_readidx c0 = pc_writeidx c0
               then c0\<lparr>pc_readidx := 0, pc_nextmsg_idx := 0, pc_writeidx := 0\<rparr> else c0);
          writable = pc_recvbuf_size c - pc_writeidx c;
          allow_expand = (writable + pc_readidx c) * 2 < pc_recvbuf_size c;
          extra_size = min 65536 (pc_readidx c + (if allow_expand then TcpRecvBufMaxSize cf - pc_recvbuf_size c else 0))
      in if writable + extra_size = 0 then Some (0, c, w)
         else do {
           (ret, buf, stack, w1) \<leftarrow>
             (if extra_size = 0
              then map_option (\<lambda>(ret, buf, w'). (ret, buf, [], w'))
                     (tcp_recv os (pc_sockfd c) (unat (pc_writeidx c)) (unat writable) (pc_recvbuf c) w)
              else tcp_readv os (pc_sockfd c) (unat (pc_writeidx c)) (unat writable) (unat extra_size) (pc_recvbuf c) w);
           let c1 = c\<lparr>pc_recvbuf := buf\<rparr>;
           if ret \<le> 0 then Some (0, recv_failed os cf ret c1 w1, w1)
           else do {
             let c2 = c1\<lparr>pc_recv_time := pc_now c1\<rparr>;
             if ret \<le> sint writable then Some (ret, c2, w1)
             else do {
               (c3, w2) \<leftarrow> (if ret \<le> sint (writable + pc_readidx c2)
                            then map_option (\<lambda>c. (c, w1)) (recv_compact ret writable stack c2)
                            else recv_expand os cf ret writable stack c2 w1);
               Some (ret, c3\<lparr>pc_writeidx := pc_writeidx c3 - pc_readidx c3,
                             pc_nextmsg_idx := pc_nextmsg_idx c3 - pc_readidx c3, pc_readidx := 0\<rparr>, w2)
             }
           }
         })"

text \<open>\<open>(MsgHeader*)&recvbuf_[i]\<close>\<close>

definition header_at :: "bool \<Rightarrow> u8 list \<Rightarrow> nat \<Rightarrow> msg_header option" where
  "header_at hl buf i = (if i + 8 \<le> length buf then Some (hdr_of_bytes hl (segment i (i + 8) buf)) else None)"

text \<open>\<open>(header->size + 7) & -8\<close>\<close>

definition padded_size :: "u16 \<Rightarrow> u32" where
  "padded_size sz = (ucast sz + 7) AND - 8"

text \<open>The first loop of \<open>Front\<close>; the flag says that it returned the header at \<open>readidx_\<close>.\<close>

partial_function (option) front_skip :: "conf \<Rightarrow> ptcp_queue \<Rightarrow> ptcp_conn \<Rightarrow> (bool \<times> ptcp_conn) option" where
  "front_skip cf q c =
     (if pc_nextmsg_idx c \<noteq> pc_readidx c
      then case header_at (HostLittle cf) (pc_recvbuf c) (unat (pc_readidx c)) of
             None \<Rightarrow> None
           | Some header \<Rightarrow>
               if hdr_msg_type header = HeartbeatMsg_msg_type
               then front_skip cf q (c\<lparr>pc_readidx := pc_readidx c + 8\<rparr>)
               else if pc_last_my_ack c = ptcp_MyAck q then Some (False, c)
               else Some (True, c\<lparr>pc_last_my_ack := ptcp_MyAck q\<rparr>)
      else Some (False, c))"

declare front_skip.simps [code]

text \<open>
  The loop of \<open>Front\<close> over the headers that have arrived; the flag says that it closed the
  connection and returned the null pointer.
\<close>

partial_function (option) front_parse :: "conf \<Rightarrow> int \<Rightarrow> ptcp_conn \<Rightarrow> (bool \<times> ptcp_conn) option" where
  "front_parse cf old_writeidx c =
     (if 8 \<le> pc_writeidx c - pc_nextmsg_idx c
      then case header_at (HostLittle cf) (pc_recvbuf c) (unat (pc_nextmsg_idx c)) of
             None \<Rightarrow> None
           | Some h \<Rightarrow>
               let fresh = old_writeidx - sint (pc_nextmsg_idx c) < 8;
                   header = (if fresh then ConvertByteOrder (ToLittleEndian cf) (HostLittle cf) h else h);
                   c1 = c\<lparr>pc_recvbuf := take (unat (pc_nextmsg_idx c)) (pc_recvbuf c) @ hdr_bytes (HostLittle cf) header
                            @ drop (unat (pc_nextmsg_idx c) + 8) (pc_recvbuf c)\<rparr>
               in case Option.bind (pc_q c1) (ptcp_Ack (ToLittleEndian cf) (HostLittle cf) (hdr_ack_seq header)) of
                    None \<Rightarrow> None
                  | Some q' \<Rightarrow>
                      let c2 = c1\<lparr>pc_q := Some q'\<rparr>;
                          msg_size = padded_size (hdr_size header)
                      in if TcpRecvBufMaxSize cf < msg_size
                         then Some (True, pc_Close ''Msg size larger than recv buf max size'' 0 c2)
                         else if pc_writeidx c2 - pc_nextmsg_idx c2 < msg_size then Some (False, c2)
                         else let c3 = (if hdr_msg_type header = HeartbeatMsg_msg_type \<and> pc_readidx c2 = pc_nextmsg_idx c2
                                        then c2\<lparr>pc_readidx := pc_readidx c2 + msg_size\<rparr> else c2)
                              in front_parse cf old_writeidx (c3\<lparr>pc_nextmsg_idx := pc_nextmsg_idx c3 + msg_size\<rparr>)
      else Some (False, c))"

declare front_parse.simps [code]

text \<open>\<open>Front\<close>: the index of the header it returns, if any.\<close>

definition pc_Front :: "'w os \<Rightarrow> conf \<Rightarrow> ptcp_conn \<Rightarrow> 'w \<Rightarrow> (u32 option \<times> ptcp_conn \<times> 'w) option" where
  "pc_Front os cf c w =
     (case pc_q c of
        None \<Rightarrow> map_option (\<lambda>(_, c', w'). (None, c', w')) (pc_DoRecv os cf c w)
      | Some q \<Rightarrow> do {
          (found, c1) \<leftarrow> front_skip cf q c;
          if found then Some (Some (pc_readidx c1), c1, w)
          else do {
            (len, c2, w2) \<leftarrow> pc_DoRecv os cf c1 w;
            (failed, c3) \<leftarrow>
              (if len \<noteq> 0
               then front_parse cf (sint (pc_writeidx c2)) (c2\<lparr>pc_writeidx := pc_writeidx c2 + word_of_int len\<rparr>)
               else Some (False, c2));
            Some (if failed then None
                  else if pc_readidx c3 \<noteq> pc_nextmsg_idx c3 then Some (pc_readidx c3) else None, c3, w2)
          }
        })"

definition pc_Pop :: "conf \<Rightarrow> ptcp_conn \<Rightarrow> ptcp_conn option" where
  "pc_Pop cf c = do {
     header \<leftarrow> header_at (HostLittle cf) (pc_recvbuf c) (unat (pc_readidx c));
     q \<leftarrow> pc_q c;
     Some (c\<lparr>pc_readidx := pc_readidx c + padded_size (hdr_size header), pc_q := Some (ptcp_MyAck_incr q)\<rparr>)
   }"

end
