(* ===== verification/Ptcp_Recv.thy ===== *)
theory Ptcp_Recv
  imports Ptcp_Conn
begin

text \<open>
  The receiving side of \<open>PTCPConnection\<close>: \<open>DoRecv\<close>, \<open>Front\<close> and \<open>Pop\<close>. The first part is about bytes: the
  receive buffer and its three indices (\<open>rcv_inv\<close>), and that \<open>DoRecv\<close> appends to the unread bytes what
  it takes off the stream (\<open>recv_post\<close>). The second part is about frames: \<open>front_rel\<close> relates the buffer
  to the complete frames in it and the received part of the next one; \<open>front_parse_spec\<close> and
  \<open>pc_Front_spec\<close> show that the sequence of application messages is the one on the stream.
\<close>

section \<open>The receive buffer\<close>

definition rcv_inv :: "conf \<Rightarrow> ptcp_conn \<Rightarrow> bool" where
  "rcv_inv cf c \<longleftrightarrow>
     length (pc_recvbuf c) = unat (pc_recvbuf_size c) \<and>
     unat (pc_readidx c) \<le> unat (pc_nextmsg_idx c) \<and> unat (pc_nextmsg_idx c) \<le> unat (pc_writeidx c) \<and>
     unat (pc_writeidx c) \<le> unat (pc_recvbuf_size c) \<and>
     unat (pc_recvbuf_size c) \<le> unat (TcpRecvBufMaxSize cf)"

definition unread :: "ptcp_conn \<Rightarrow> u8 list" where
  "unread c = segment (unat (pc_readidx c)) (unat (pc_writeidx c)) (pc_recvbuf c)"

lemma rcv_invD:
  assumes "rcv_inv cf c"
  shows "length (pc_recvbuf c) = unat (pc_recvbuf_size c)"
    and "unat (pc_readidx c) \<le> unat (pc_nextmsg_idx c)" and "unat (pc_nextmsg_idx c) \<le> unat (pc_writeidx c)"
    and "unat (pc_writeidx c) \<le> unat (pc_recvbuf_size c)"
    and "unat (pc_recvbuf_size c) \<le> unat (TcpRecvBufMaxSize cf)"
  using assms by (simp_all add: rcv_inv_def)

lemma sint_small_u32: "unat (x :: u32) < 2 ^ 31 \<Longrightarrow> sint x = int (unat x)"
  by (simp add: sint_u32 del: of_nat_unat)

lemma unat_of_int_small: "0 \<le> i \<Longrightarrow> i < 2 ^ 32 \<Longrightarrow> unat (word_of_int i :: u32) = nat i"
  using unat_of_nat_exact [of "nat i", where ?'a = 32] by simp

text \<open>Rounding up to a multiple of 8 by masking.\<close>

lemma and_not_mask: "(y :: u32) AND NOT (mask n) = push_bit n (drop_bit n y)"
  by (rule bit_word_eqI) (auto simp: bit_simps)

lemma unat_and_minus_8: "unat ((y :: u32) AND - 8) = 8 * (unat y div 8)"
proof -
  have "(- 8 :: u32) = NOT (mask 3)" by (simp add: mask_eq_exp_minus_1 not_eq_complement)
  then have "y AND - 8 = push_bit 3 (drop_bit 3 y)" using and_not_mask [of y 3] by simp
  also have "\<dots> = y - take_bit 3 y"
    using bits_ident [of 3 y] by (simp add: eq_diff_eq)
  finally have "unat (y AND - 8) = unat y - unat (take_bit 3 y)"
    by (simp add: unat_sub_exact unsigned_take_bit_eq take_bit_nat_less_eq_self)
  moreover have "unat (take_bit 3 y) = unat y mod 8" by (simp add: take_bit_eq_mod unat_mod)
  ultimately show ?thesis by (simp add: minus_mod_eq_mult_div)
qed

lemma unat_round_up_8: "unat (x :: u32) + 7 < 2 ^ 32 \<Longrightarrow> unat (x + 7 AND - 8) = 8 * blocks 8 (unat x)"
  unfolding unat_and_minus_8 blocks_def by (subst unat_add_exact) simp_all

lemma unat_padded_size: "unat (padded_size sz) = 8 * blocks 8 (unat sz)"
proof -
  have "unat (ucast sz :: u32) = unat sz" using unat_u16_less [of sz] by (simp add: unsigned_ucast_eq take_bit_eq_mod)
  then show ?thesis using unat_round_up_8 [of "ucast sz"] unat_u16_less [of sz] by (simp add: padded_size_def)
qed

text \<open>The sizes \<open>DoRecv\<close> computes, without wrap-around.\<close>

lemma recv_sizes:
  assumes conf: "recv_conf cf" and inv: "rcv_inv cf c"
  defines "writable \<equiv> pc_recvbuf_size c - pc_writeidx c"
  shows "unat writable = unat (pc_recvbuf_size c) - unat (pc_writeidx c)"
    and "unat (writable + pc_readidx c) = unat (pc_recvbuf_size c) - unat (pc_writeidx c) + unat (pc_readidx c)"
    and "unat (pc_readidx c + (TcpRecvBufMaxSize cf - pc_recvbuf_size c))
       = unat (pc_readidx c) + (unat (TcpRecvBufMaxSize cf) - unat (pc_recvbuf_size c))"
proof -
  note I = rcv_invD [OF inv]
  have M: "unat (TcpRecvBufMaxSize cf) < 2 ^ 30" using conf by (simp add: recv_conf_def)
  show w: "unat writable = unat (pc_recvbuf_size c) - unat (pc_writeidx c)"
    unfolding writable_def by (rule unat_sub_exact) (rule I(4))
  show "unat (writable + pc_readidx c) = unat (pc_recvbuf_size c) - unat (pc_writeidx c) + unat (pc_readidx c)"
    using I M w by (subst unat_add_exact) simp_all
  have "unat (TcpRecvBufMaxSize cf - pc_recvbuf_size c) = unat (TcpRecvBufMaxSize cf) - unat (pc_recvbuf_size c)"
    by (rule unat_sub_exact) (rule I(5))
  then show "unat (pc_readidx c + (TcpRecvBufMaxSize cf - pc_recvbuf_size c))
       = unat (pc_readidx c) + (unat (TcpRecvBufMaxSize cf) - unat (pc_recvbuf_size c))"
    using I M by (subst unat_add_exact) simp_all
qed

text \<open>Putting data behind what is already at the front of a buffer.\<close>

lemma refill_front:
  assumes "segment 0 k b = old" and "memcpy k data b = Some b'"
  shows "segment 0 (k + length data) b' = old @ data"
  using segment_memcpy_before [OF assms(2), of k 0] segment_memcpy_inside [OF assms(2)] assms(1)
    segment_append [of 0 k "k + length data" b'] by simp

lemma recv_compact_spec:
  assumes conf: "recv_conf cf" and inv: "rcv_inv cf c" and ret: "ret = int (length data)"
    and more: "unat (pc_recvbuf_size c) - unat (pc_writeidx c) < length data"
    and fits: "length data \<le> unat (pc_recvbuf_size c) - unat (pc_writeidx c) + unat (pc_readidx c)"
    and buf: "segment (unat (pc_readidx c)) (unat (pc_recvbuf_size c)) (pc_recvbuf c)
              = old @ take (unat (pc_recvbuf_size c) - unat (pc_writeidx c)) data"
  obtains b where "recv_compact ret (pc_recvbuf_size c - pc_writeidx c)
        (drop (unat (pc_recvbuf_size c) - unat (pc_writeidx c)) data) c = Some (c\<lparr>pc_recvbuf := b\<rparr>)"
    and "length b = unat (pc_recvbuf_size c)"
    and "segment 0 (unat (pc_writeidx c) - unat (pc_readidx c) + length data) b = old @ data"
proof -
  let ?S = "unat (pc_recvbuf_size c)" and ?W = "unat (pc_writeidx c)" and ?R = "unat (pc_readidx c)"
  note I = rcv_invD [OF inv]
  have M: "unat (TcpRecvBufMaxSize cf) < 2 ^ 30" using conf by (simp add: recv_conf_def)
  have uret: "unat (word_of_int ret :: u32) = length data"
    using ret fits I M by (subst unat_of_int_small) simp_all
  have n: "unat (word_of_int ret - (pc_recvbuf_size c - pc_writeidx c)) = length data - (?S - ?W)"
    using uret more recv_sizes(1) [OF conf inv] by (subst unat_sub_exact) simp_all
  have k: "unat (pc_recvbuf_size c - pc_readidx c) = ?S - ?R" using I by (intro unat_sub_exact) simp
  obtain b1 where b1: "memmove 0 ?R (?S - ?R) (pc_recvbuf c) = Some b1" using I by (simp add: memmove_def)
  have l1: "length b1 = ?S" using length_memmove [OF b1] I(1) by simp
  have seg: "segment 0 (?S - ?R) b1 = old @ take (?S - ?W) data"
    using segment_memmove_front [OF b1] buf I by simp
  have "?S - ?R + length (drop (?S - ?W) data) \<le> length b1" using l1 fits more I by simp
  then obtain b where b: "memcpy (?S - ?R) (drop (?S - ?W) data) b1 = Some b" by (simp add: memcpy_def)
  have lb: "length b = ?S" using length_memcpy [OF b] l1 by simp
  have "segment 0 (?S - ?R + (length data - (?S - ?W))) b = old @ data"
    using refill_front [OF seg b] by simp
  moreover have "?S - ?R + (length data - (?S - ?W)) = ?W - ?R + length data" using I more by simp
  ultimately show ?thesis using that [of b] b1 b lb n k by (simp add: recv_compact_def)
qed

lemma recv_expand_spec:
  assumes conf: "recv_conf cf" and new: "new_ok os" and inv: "rcv_inv cf c" and ret: "ret = int (length data)"
    and more: "unat (pc_recvbuf_size c) - unat (pc_writeidx c) < length data"
    and fits: "unat (pc_writeidx c) + length data \<le> unat (TcpRecvBufMaxSize cf) + unat (pc_readidx c)"
    and buf: "segment (unat (pc_readidx c)) (unat (pc_recvbuf_size c)) (pc_recvbuf c)
              = old @ take (unat (pc_recvbuf_size c) - unat (pc_writeidx c)) data"
  obtains b sz w' where "recv_expand os cf ret (pc_recvbuf_size c - pc_writeidx c)
        (drop (unat (pc_recvbuf_size c) - unat (pc_writeidx c)) data) c w = Some (c\<lparr>pc_recvbuf := b, pc_recvbuf_size := sz\<rparr>, w')"
    and "w' = snd (sys_new os (unat sz) w)"
    and "length b = unat sz" and "unat sz \<le> unat (TcpRecvBufMaxSize cf)" and "unat (pc_recvbuf_size c) \<le> unat sz"
    and "unat (pc_writeidx c) - unat (pc_readidx c) + length data \<le> unat sz"
    and "segment 0 (unat (pc_writeidx c) - unat (pc_readidx c) + length data) b = old @ data"
proof -
  let ?S = "unat (pc_recvbuf_size c)" and ?W = "unat (pc_writeidx c)" and ?R = "unat (pc_readidx c)"
  let ?M = "unat (TcpRecvBufMaxSize cf)"
  note I = rcv_invD [OF inv]
  have M: "?M < 2 ^ 30" using conf by (simp add: recv_conf_def)
  have uret: "unat (word_of_int ret :: u32) = length data"
    using ret fits I M by (subst unat_of_int_small) simp_all
  have n: "unat (word_of_int ret - (pc_recvbuf_size c - pc_writeidx c)) = length data - (?S - ?W)"
    using uret more recv_sizes(1) [OF conf inv] by (subst unat_sub_exact) simp_all
  have k: "unat (pc_recvbuf_size c - pc_readidx c) = ?S - ?R" using I by (intro unat_sub_exact) simp
  define need where "need = pc_writeidx c - pc_readidx c + word_of_int ret"
  have needn: "unat need = ?W - ?R + length data"
    unfolding need_def using I M fits uret by (subst unat_add_exact) (simp_all add: unat_sub_exact)
  define sz where "sz = min (TcpRecvBufMaxSize cf) (max (pc_recvbuf_size c * 2) (need + 7 AND - 8))"
  have round: "unat (need + 7 AND - 8) = 8 * blocks 8 (unat need)"
    using needn I M fits by (intro unat_round_up_8) simp
  have double: "unat (pc_recvbuf_size c * 2) = 2 * ?S" using I M by (simp add: unat_word_ariths)
  have usz: "unat sz = min ?M (max (2 * ?S) (8 * blocks 8 (unat need)))"
    unfolding sz_def using round double by (simp add: min_def max_def word_le_nat_alt)
  have big: "?W - ?R + length data \<le> unat sz"
    using usz fits I(2,3) blocks_bounds(1) [of 8 "unat need"] needn by linarith
  have grow: "?S \<le> unat sz" using usz I by simp
  obtain nb w' where nb: "sys_new os (unat sz) w = (nb, w')" by fastforce
  have lnb: "length nb = unat sz" using new nb unfolding new_ok_def by (metis fst_conv)
  let ?old = "segment ?R ?S (pc_recvbuf c)"
  have lold: "length ?old = ?S - ?R" using I by simp
  have "0 + length ?old \<le> length nb" unfolding lold lnb using grow by simp
  then obtain b1 where b1: "memcpy 0 ?old nb = Some b1" using memcpy_total by blast
  have l1: "length b1 = unat sz" using length_memcpy [OF b1] lnb by simp
  have seg: "segment 0 (?S - ?R) b1 = old @ take (?S - ?W) data"
    using segment_memcpy_inside [OF b1] lold buf by simp
  have eq: "?S - ?R + (length data - (?S - ?W)) = ?W - ?R + length data" using I more by simp
  then have "?S - ?R + length (drop (?S - ?W) data) \<le> length b1" using l1 big by simp
  then obtain b where b: "memcpy (?S - ?R) (drop (?S - ?W) data) b1 = Some b" by (simp add: memcpy_def)
  have lb: "length b = unat sz" using length_memcpy [OF b] l1 by simp
  have "segment 0 (?W - ?R + length data) b = old @ data"
    using refill_front [OF seg b] eq by simp
  moreover have "recv_expand os cf ret (pc_recvbuf_size c - pc_writeidx c) (drop (?S - ?W) data) c w
      = Some (c\<lparr>pc_recvbuf := b, pc_recvbuf_size := sz\<rparr>, w')"
    unfolding recv_expand_def need_def [symmetric] sz_def [symmetric] using nb I(1) n k b1 b by simp
  ultimately show ?thesis using that [of sz b w'] lb usz grow big nb by simp
qed

text \<open>\<open>DoRecv\<close> first resets the indices when everything has been read.\<close>

definition recv_restart :: "ptcp_conn \<Rightarrow> ptcp_conn" where
  "recv_restart c = (if 0 < pc_readidx c \<and> pc_readidx c = pc_writeidx c
     then c\<lparr>pc_readidx := 0, pc_nextmsg_idx := 0, pc_writeidx := 0\<rparr> else c)"

lemma recv_restart_spec:
  assumes inv: "rcv_inv cf c"
  shows "rcv_inv cf (recv_restart c)" and "unread (recv_restart c) = unread c"
    and "unat (pc_nextmsg_idx (recv_restart c)) - unat (pc_readidx (recv_restart c)) = unat (pc_nextmsg_idx c) - unat (pc_readidx c)"
    and "unat (pc_writeidx (recv_restart c)) - unat (pc_readidx (recv_restart c)) = unat (pc_writeidx c) - unat (pc_readidx c)"
    and "pc_readidx (recv_restart c) = pc_readidx c \<or> pc_readidx (recv_restart c) = 0"
  using rcv_invD [OF inv] by (auto simp: recv_restart_def rcv_inv_def unread_def)

lemma recv_restart_frame [simp]:
  "pc_q (recv_restart c) = pc_q c" "pc_sockfd (recv_restart c) = pc_sockfd c"
  "pc_fd_to_close (recv_restart c) = pc_fd_to_close c" "pc_now (recv_restart c) = pc_now c"
  "pc_last_my_ack (recv_restart c) = pc_last_my_ack c" "pc_recvbuf (recv_restart c) = pc_recvbuf c"
  "pc_recvbuf_size (recv_restart c) = pc_recvbuf_size c"
  by (simp_all add: recv_restart_def)

text \<open>What the system call leaves: \<open>data\<close> is what arrived, the first part of it behind the old bytes.\<close>

definition recv_call :: "'w os \<Rightarrow> conf \<Rightarrow> ptcp_conn \<Rightarrow> u32 \<Rightarrow> u32 \<Rightarrow> 'w \<Rightarrow> (int \<times> u8 list \<times> u8 list \<times> 'w) option" where
  "recv_call os cf c writable extra_size w =
     (if extra_size = 0
      then map_option (\<lambda>(ret, buf, w'). (ret, buf, [], w'))
             (tcp_recv os (pc_sockfd c) (unat (pc_writeidx c)) (unat writable) (pc_recvbuf c) w)
      else tcp_readv os (pc_sockfd c) (unat (pc_writeidx c)) (unat writable) (unat extra_size) (pc_recvbuf c) w)"

lemma recv_call_spec:
  assumes inv: "rcv_inv cf c" and os: "recv_ok os"
    and wr: "unat writable = unat (pc_recvbuf_size c) - unat (pc_writeidx c)"
  obtains ret buf data w' where "recv_call os cf c writable extra w = Some (ret, buf, drop (unat writable) data, w')"
    and "ret \<le> 0 \<Longrightarrow> data = [] \<and> buf = pc_recvbuf c"
    and "0 < ret \<Longrightarrow> ret = int (length data) \<and> length data \<le> unat writable + unat extra"
    and "length buf = length (pc_recvbuf c)"
    and "segment (unat (pc_readidx c)) (unat (pc_writeidx c) + min (length data) (unat writable)) buf
         = unread c @ take (unat writable) data"
    and "\<And>inp. stream_recv os inp \<Longrightarrow> inp (pc_sockfd c) w = data @ inp (pc_sockfd c) w'"
proof -
  note I = rcv_invD [OF inv]
  let ?W = "unat (pc_writeidx c)" and ?R = "unat (pc_readidx c)"
  obtain ret data w' where call:
      "(if extra = 0 then sys_recv os (pc_sockfd c) (unat writable) w
        else sys_readv os (pc_sockfd c) [unat writable, unat extra] w) = ((ret, data), w')"
    by (metis surj_pair)
  have lim: "ret = int (length data) \<and> length data \<le> unat writable + unat extra" if "0 < ret"
  proof (cases "extra = 0")
    case True
    then show ?thesis using recv_okD(1) [OF os that, of "pc_sockfd c" "unat writable" w data w'] call that
      by (simp add: nat_le_iff)
  next
    case False
    then show ?thesis using recv_okD(2) [OF os that, of "pc_sockfd c" "[unat writable, unat extra]" w data w'] call that
      by (simp add: nat_le_iff)
  qed
  have str: "inp (pc_sockfd c) w = (if 0 < ret then data else []) @ inp (pc_sockfd c) w'" if "stream_recv os inp" for inp
    using stream_recvD(1,2) [OF that] call by (auto split: if_splits)
  show ?thesis
  proof (cases "0 < ret")
    case False
    then have "recv_call os cf c writable extra w = Some (ret, pc_recvbuf c, [], w')"
      using call by (auto simp: recv_call_def tcp_recv_def tcp_readv_def split: if_splits)
    then show ?thesis using that [of ret "pc_recvbuf c" "[]" w'] False str by (simp add: unread_def)
  next
    case True
    have "?W + length (take (unat writable) data) \<le> length (pc_recvbuf c)" using I wr by simp
    then obtain buf where buf: "memcpy ?W (take (unat writable) data) (pc_recvbuf c) = Some buf"
      using memcpy_total by blast
    have "drop (unat writable) data = []" "take (unat writable) data = data" if "extra = 0"
      using lim [OF True] that by simp_all
    then have "recv_call os cf c writable extra w = Some (ret, buf, drop (unat writable) data, w')"
      using call True buf by (auto simp: recv_call_def tcp_recv_def tcp_readv_def split: if_splits)
    moreover have "segment ?R ?W buf = unread c"
      unfolding unread_def by (rule segment_memcpy_before [OF buf]) simp
    then have "segment ?R (?W + min (length data) (unat writable)) buf = unread c @ take (unat writable) data"
      using segment_memcpy_inside [OF buf] segment_append [of ?R ?W "?W + min (length data) (unat writable)" buf] I by simp
    moreover have "length buf = length (pc_recvbuf c)" by (rule length_memcpy [OF buf])
    ultimately show ?thesis using that [of ret buf data w'] True lim str by simp
  qed
qed

lemma recv_failed_frame:
  "rcv_inv cf (recv_failed os cf ret c w) = rcv_inv cf c" "unread (recv_failed os cf ret c w) = unread c"
  "pc_q (recv_failed os cf ret c w) = pc_q c" "pc_readidx (recv_failed os cf ret c w) = pc_readidx c"
  "pc_nextmsg_idx (recv_failed os cf ret c w) = pc_nextmsg_idx c" "pc_writeidx (recv_failed os cf ret c w) = pc_writeidx c"
  "pc_recvbuf (recv_failed os cf ret c w) = pc_recvbuf c" "pc_recvbuf_size (recv_failed os cf ret c w) = pc_recvbuf_size c"
  "pc_last_my_ack (recv_failed os cf ret c w) = pc_last_my_ack c"
  by (auto simp: recv_failed_def pc_Close_def rcv_inv_def unread_def)

text \<open>
  \<open>DoRecv\<close>: whichever way the bytes get in (directly, after moving the unread bytes to the front, or
  into a larger buffer), the unread bytes followed by the new ones are at the read position, inside
  the buffer, once the caller has added the returned count to \<open>writeidx_\<close>.
\<close>

definition recv_post :: "conf \<Rightarrow> ptcp_conn \<Rightarrow> u8 list \<Rightarrow> ptcp_conn \<Rightarrow> bool" where
  "recv_post cf c data c' \<longleftrightarrow>
     rcv_inv cf c' \<and> unat (pc_writeidx c') + length data \<le> unat (pc_recvbuf_size c') \<and>
     segment (unat (pc_readidx c')) (unat (pc_writeidx c') + length data) (pc_recvbuf c') = unread c @ data \<and>
     unat (pc_nextmsg_idx c') - unat (pc_readidx c') = unat (pc_nextmsg_idx c) - unat (pc_readidx c) \<and>
     unat (pc_writeidx c') - unat (pc_readidx c') = unat (pc_writeidx c) - unat (pc_readidx c) \<and>
     (pc_readidx c' = pc_readidx c \<or> pc_readidx c' = 0) \<and>
     pc_q c' = pc_q c \<and> pc_last_my_ack c' = pc_last_my_ack c"

text \<open>The end of \<open>DoRecv\<close> when the unread bytes have moved to the front.\<close>

definition recv_shift :: "ptcp_conn \<Rightarrow> ptcp_conn" where
  "recv_shift c = c\<lparr>pc_writeidx := pc_writeidx c - pc_readidx c,
     pc_nextmsg_idx := pc_nextmsg_idx c - pc_readidx c, pc_readidx := 0\<rparr>"

lemma recv_shift_post:
  assumes "rcv_inv cf c" and "unat (pc_writeidx c) - unat (pc_readidx c) + length data \<le> unat (pc_recvbuf_size c)"
    and "segment 0 (unat (pc_writeidx c) - unat (pc_readidx c) + length data) (pc_recvbuf c) = unread c0 @ data"
    and "unat (pc_nextmsg_idx c) - unat (pc_readidx c) = unat (pc_nextmsg_idx c0) - unat (pc_readidx c0)"
    and "unat (pc_writeidx c) - unat (pc_readidx c) = unat (pc_writeidx c0) - unat (pc_readidx c0)"
    and "pc_q c = pc_q c0" and "pc_last_my_ack c = pc_last_my_ack c0"
  shows "recv_post cf c0 data (recv_shift c)"
proof -
  note I = rcv_invD [OF assms(1)]
  have "unat (pc_writeidx c - pc_readidx c) = unat (pc_writeidx c) - unat (pc_readidx c)"
    and "unat (pc_nextmsg_idx c - pc_readidx c) = unat (pc_nextmsg_idx c) - unat (pc_readidx c)"
    using I by (simp_all add: unat_sub_exact)
  then show ?thesis using assms I by (simp add: recv_post_def recv_shift_def rcv_inv_def)
qed

text \<open>\<open>DoRecv\<close> in these terms.\<close>

lemma pc_DoRecv_call:
  "pc_DoRecv os cf c0 w =
     (let c = recv_restart c0; writable = pc_recvbuf_size c - pc_writeidx c; allow = ((writable + pc_readidx c) * 2 < pc_recvbuf_size c);
          extra = min 65536 (pc_readidx c + (if allow then TcpRecvBufMaxSize cf - pc_recvbuf_size c else 0))
      in if writable + extra = 0 then Some (0, c, w)
         else Option.bind (recv_call os cf c writable extra w) (\<lambda>(ret, buf, stack, w1).
           let c1 = c\<lparr>pc_recvbuf := buf\<rparr> in
           if ret \<le> 0 then Some (0, recv_failed os cf ret c1 w1, w1)
           else let c2 = c1\<lparr>pc_recv_time := pc_now c1\<rparr> in
             if ret \<le> sint writable then Some (ret, c2, w1)
             else Option.bind (if ret \<le> sint (writable + pc_readidx c2)
                               then map_option (\<lambda>c. (c, w1)) (recv_compact ret writable stack c2)
                               else recv_expand os cf ret writable stack c2 w1)
               (\<lambda>(c3, w2). Some (ret, recv_shift c3, w2))))"
  unfolding pc_DoRecv_def recv_restart_def recv_call_def recv_shift_def Let_def ..

lemma pc_DoRecv_spec:
  assumes conf: "recv_conf cf" and os: "recv_ok os" "new_ok os" and inv0: "rcv_inv cf c0"
  obtains data c' w' where "pc_DoRecv os cf c0 w = Some (int (length data), c', w')"
    and "recv_post cf c0 data c'"
    and "\<And>inp. stream_recv os inp \<Longrightarrow> inp (pc_sockfd c0) w = data @ inp (pc_sockfd c0) w'"
proof -
  define c where "c = recv_restart c0"
  note C = recv_restart_spec [OF inv0, folded c_def]
  have frame: "pc_q c = pc_q c0" "pc_last_my_ack c = pc_last_my_ack c0" "pc_sockfd c = pc_sockfd c0"
    by (simp_all add: c_def)
  note I = rcv_invD [OF C(1)]
  define writable where "writable = pc_recvbuf_size c - pc_writeidx c"
  define allow where "allow \<longleftrightarrow> (writable + pc_readidx c) * 2 < pc_recvbuf_size c"
  define extra where "extra = min 65536 (pc_readidx c + (if allow then TcpRecvBufMaxSize cf - pc_recvbuf_size c else 0))"
  let ?S = "unat (pc_recvbuf_size c)" and ?W = "unat (pc_writeidx c)" and ?R = "unat (pc_readidx c)"
  note sizes = recv_sizes [OF conf C(1), folded writable_def]
  have M: "unat (TcpRecvBufMaxSize cf) < 2 ^ 30" using conf by (simp add: recv_conf_def)
  note def = pc_DoRecv_call [of os cf c0 w, unfolded Let_def, folded c_def, folded writable_def, folded allow_def, folded extra_def]
  show ?thesis
  proof (cases "writable + extra = 0")
    case True
    then show ?thesis using that [of "[]" c w] C I frame by (simp add: def recv_post_def unread_def)
  next
    case False
    obtain ret buf data w1 where call: "recv_call os cf c writable extra w = Some (ret, buf, drop (unat writable) data, w1)"
      and none: "ret \<le> 0 \<Longrightarrow> data = [] \<and> buf = pc_recvbuf c"
      and some: "0 < ret \<Longrightarrow> ret = int (length data) \<and> length data \<le> unat writable + unat extra"
      and len: "length buf = length (pc_recvbuf c)"
      and seg: "segment ?R (?W + min (length data) (unat writable)) buf = unread c @ take (unat writable) data"
      and str: "\<And>inp. stream_recv os inp \<Longrightarrow> inp (pc_sockfd c) w = data @ inp (pc_sockfd c) w1"
      by (rule recv_call_spec [OF C(1) os(1) sizes(1), of extra w]) blast
    have signed: "sint writable = int (unat writable)"
      "sint (writable + pc_readidx c) = int (unat (writable + pc_readidx c))"
      by (rule sint_small_u32, use sizes(1,2) I M in simp)+
    let ?c2 = "c\<lparr>pc_recvbuf := buf, pc_recv_time := pc_now c\<rparr>"
    have inv2: "rcv_inv cf ?c2" using C(1) len by (simp add: rcv_inv_def)
    consider "ret \<le> 0" | "0 < ret" "length data \<le> unat writable"
      | "0 < ret" "unat writable < length data" "length data \<le> unat writable + ?R"
      | "0 < ret" "unat writable + ?R < length data" by linarith
    then show ?thesis
    proof cases
      case 1
      then have "pc_DoRecv os cf c0 w = Some (0, recv_failed os cf ret (c\<lparr>pc_recvbuf := buf\<rparr>) w1, w1)"
        using False call by (simp add: def)
      then show ?thesis
        using that [of "[]" "recv_failed os cf ret (c\<lparr>pc_recvbuf := buf\<rparr>) w1" w1] none [OF 1] C I frame str
        by (simp add: recv_post_def recv_failed_frame unread_def)
    next
      case 2
      have "ret \<le> sint writable" unfolding signed(1) using some 2 by linarith
      then have "pc_DoRecv os cf c0 w = Some (ret, ?c2, w1)" using False call 2 by (simp add: def)
      then show ?thesis
        using that [of data ?c2 w1] some 2 C I frame str inv2 seg sizes(1) by (simp add: recv_post_def)
    next
      case 3
      obtain b where cp: "recv_compact ret writable (drop (unat writable) data) ?c2 = Some (?c2\<lparr>pc_recvbuf := b\<rparr>)"
        and b: "length b = ?S" "segment 0 (?W - ?R + length data) b = unread c @ data"
        by (rule recv_compact_spec [OF conf inv2, of ret data "unread c"])
          (use some 3 sizes(1) seg I in \<open>simp_all add: writable_def\<close>)
      have "\<not> ret \<le> sint writable" "ret \<le> sint (writable + pc_readidx c)"
        unfolding signed sizes(1,2) using some 3 sizes(1) by linarith+
      then have "pc_DoRecv os cf c0 w = Some (ret, recv_shift (?c2\<lparr>pc_recvbuf := b\<rparr>), w1)"
        using False call 3 cp by (simp add: def recv_shift_def)
      moreover have "recv_post cf c0 data (recv_shift (?c2\<lparr>pc_recvbuf := b\<rparr>))"
        using C I frame b 3 sizes(1) by (intro recv_shift_post) (simp_all add: rcv_inv_def)
      ultimately show ?thesis
        using that [of data "recv_shift (?c2\<lparr>pc_recvbuf := b\<rparr>)" w1] some 3 str frame by simp
    next
      case 4
      have "?R < unat extra" using some 4 by linarith
      then have allow: allow using extra_def by (cases allow) (auto simp: min_def word_le_nat_alt split: if_splits)
      have "unat extra \<le> ?R + (unat (TcpRecvBufMaxSize cf) - ?S)"
        using sizes(3) allow unfolding extra_def by (simp add: min_def word_le_nat_alt)
      then have fits: "?W + length data \<le> unat (TcpRecvBufMaxSize cf) + ?R"
        using some 4 sizes(1) I by linarith
      obtain b sz w2 where ex: "recv_expand os cf ret writable (drop (unat writable) data) ?c2 w1
            = Some (?c2\<lparr>pc_recvbuf := b, pc_recvbuf_size := sz\<rparr>, w2)"
        and w2: "w2 = snd (sys_new os (unat sz) w1)"
        and b: "length b = unat sz" "unat sz \<le> unat (TcpRecvBufMaxSize cf)" "?S \<le> unat sz"
          "?W - ?R + length data \<le> unat sz" "segment 0 (?W - ?R + length data) b = unread c @ data"
        by (rule recv_expand_spec [OF conf os(2) inv2, of ret data "unread c" w1])
          (use some 4 sizes(1) seg I fits in \<open>simp_all add: writable_def\<close>)
      have "\<not> ret \<le> sint writable" "\<not> ret \<le> sint (writable + pc_readidx c)"
        unfolding signed sizes(1,2) using some 4 sizes(1) by linarith+
      then have "pc_DoRecv os cf c0 w = Some (ret, recv_shift (?c2\<lparr>pc_recvbuf := b, pc_recvbuf_size := sz\<rparr>), w2)"
        using False call 4 ex by (simp add: def recv_shift_def)
      moreover have "recv_post cf c0 data (recv_shift (?c2\<lparr>pc_recvbuf := b, pc_recvbuf_size := sz\<rparr>))"
        using C I frame b by (intro recv_shift_post) (simp_all add: rcv_inv_def)
      ultimately show ?thesis
        using that [of data "recv_shift (?c2\<lparr>pc_recvbuf := b, pc_recvbuf_size := sz\<rparr>)" w2] some 4 str frame w2
        by (simp add: stream_recvD(3))
    qed
  qed
qed

section \<open>Frames\<close>

text \<open>
  What a peer puts on the stream is a sequence of frames: a header in wire order, the body, and
  padding up to a multiple of 8. A heartbeat is a frame of 8 bytes with type 0.
\<close>

definition wire_hdr :: "bool \<Rightarrow> u8 list \<Rightarrow> msg_header" where
  "wire_hdr wl u = hdr_of_bytes wl (take 8 u)"

definition frame_len :: "bool \<Rightarrow> u8 list \<Rightarrow> nat" where
  "frame_len wl u = 8 * blocks 8 (unat (hdr_size (wire_hdr wl u)))"

definition is_heartbeat :: "bool \<Rightarrow> u8 list \<Rightarrow> bool" where
  "is_heartbeat wl u \<longleftrightarrow> hdr_msg_type (wire_hdr wl u) = HeartbeatMsg_msg_type"

definition wf_frame :: "conf \<Rightarrow> u8 list \<Rightarrow> bool" where
  "wf_frame cf g \<longleftrightarrow>
     8 \<le> length g \<and> length g = frame_len (ToLittleEndian cf) g \<and> length g \<le> unat (TcpRecvBufMaxSize cf) \<and>
     (is_heartbeat (ToLittleEndian cf) g \<longrightarrow> length g = 8)"

text \<open>A frame whose header has been converted in place, and the last, incomplete one.\<close>

definition to_host :: "conf \<Rightarrow> u8 list \<Rightarrow> u8 list" where
  "to_host cf u = hdr_bytes (HostLittle cf) (wire_hdr (ToLittleEndian cf) u) @ drop 8 u"

definition host_tail :: "conf \<Rightarrow> u8 list \<Rightarrow> u8 list" where
  "host_tail cf t = (if length t < 8 then t else to_host cf t)"

definition incomplete :: "conf \<Rightarrow> u8 list \<Rightarrow> bool" where
  "incomplete cf t \<longleftrightarrow> length t < 8 \<or> length t < frame_len (ToLittleEndian cf) t"

lemma length_to_host [simp]: "8 \<le> length u \<Longrightarrow> length (to_host cf u) = length u"
  by (simp add: to_host_def)

lemma length_host_tail [simp]: "length (host_tail cf t) = length t"
  by (simp add: host_tail_def)

lemma to_host_append: "8 \<le> length g \<Longrightarrow> to_host cf (g @ u) = to_host cf g @ u"
  by (simp add: to_host_def wire_hdr_def)

lemma wire_hdr_prefix: "8 \<le> length u \<Longrightarrow> wire_hdr wl (u @ v) = wire_hdr wl u"
  by (simp add: wire_hdr_def)

text \<open>Converting the header that the host loads from wire bytes gives the wire's header.\<close>

lemma Convert_wire_hdr:
  assumes "8 \<le> length u"
  shows "ConvertByteOrder wl hl (hdr_of_bytes hl (take 8 u)) = wire_hdr wl u"
  using Convert_hdr_of_bytes [of wl hl "hdr_of_bytes wl (take 8 u)"] assms by (simp add: wire_hdr_def)

lemma hdr_of_to_host: "8 \<le> length u \<Longrightarrow> hdr_of_bytes (HostLittle cf) (take 8 (to_host cf u)) = wire_hdr (ToLittleEndian cf) u"
  by (simp add: to_host_def)

lemma length_concat_to_host:
  "list_all (wf_frame cf) fs \<Longrightarrow> length (concat (map (to_host cf) fs)) = length (concat fs)"
  by (induction fs) (auto simp: wf_frame_def)

section \<open>Parsing what has arrived\<close>

text \<open>The in-place conversion of the header at \<open>X\<close> in the buffer.\<close>

lemma convert_in_buffer:
  assumes seg: "segment X W buf = (if fresh then u else to_host cf u)" and W: "X + length u = W" "W \<le> length buf"
    and u: "8 \<le> length u"
  defines "h \<equiv> hdr_of_bytes (HostLittle cf) (segment X (X + 8) buf)"
  defines "header \<equiv> (if fresh then ConvertByteOrder (ToLittleEndian cf) (HostLittle cf) h else h)"
  defines "buf1 \<equiv> take X buf @ hdr_bytes (HostLittle cf) header @ drop (X + 8) buf"
  shows "header_at (HostLittle cf) buf X = Some h" and "header = wire_hdr (ToLittleEndian cf) u"
    and "length buf1 = length buf" and "segment X W buf1 = to_host cf u"
    and "\<And>i. segment i X buf1 = segment i X buf"
proof -
  have len: "X + 8 \<le> length buf" using W u by simp
  then show "header_at (HostLittle cf) buf X = Some h" by (simp add: header_at_def h_def)
  have "segment X (X + 8) buf = take 8 (segment X W buf)" using W u by (simp add: take_segment)
  also have "\<dots> = (if fresh then take 8 u else take 8 (to_host cf u))" by (simp add: seg)
  finally have h: "h = hdr_of_bytes (HostLittle cf) (if fresh then take 8 u else take 8 (to_host cf u))"
    by (simp add: h_def)
  show hd: "header = wire_hdr (ToLittleEndian cf) u"
    using u by (simp add: header_def h Convert_wire_hdr hdr_of_to_host)
  show "length buf1 = length buf" using len by (simp add: buf1_def)
  have "drop 8 (segment X W buf) = drop 8 u" using seg u by (simp add: to_host_def split: if_splits)
  then have rest: "segment (X + 8) W buf = drop 8 u" by (simp add: drop_segment)
  have "segment X W buf1 = hdr_bytes (HostLittle cf) header @ segment (X + 8) W buf"
    using len W u by (simp add: buf1_def segment_def)
  then show "segment X W buf1 = to_host cf u" by (simp add: rest hd to_host_def)
  show "segment i X buf1 = segment i X buf" for i
    using len by (simp add: buf1_def segment_def drop_take)
qed

text \<open>
  What the loop has done when it ends normally: \<open>gs\<close> are the complete frames it found behind
  \<open>nextmsg_idx_\<close>, \<open>t\<close> is the incomplete one after them. Leading heartbeats are skipped if nothing was
  waiting to be read.
\<close>

definition parsed :: "conf \<Rightarrow> ptcp_conn \<Rightarrow> u8 list list \<Rightarrow> u8 list \<Rightarrow> ptcp_conn \<Rightarrow> bool" where
  "parsed cf c gs t c' \<longleftrightarrow>
     rcv_inv cf c' \<and> pc_writeidx c' = pc_writeidx c \<and>
     unat (pc_nextmsg_idx c') = unat (pc_nextmsg_idx c) + length (concat gs) \<and>
     unat (pc_readidx c') = unat (pc_readidx c) +
       (if pc_readidx c = pc_nextmsg_idx c then length (concat (takeWhile (is_heartbeat (ToLittleEndian cf)) gs)) else 0) \<and>
     (\<forall>i. segment i (unat (pc_nextmsg_idx c)) (pc_recvbuf c') = segment i (unat (pc_nextmsg_idx c)) (pc_recvbuf c)) \<and>
     segment (unat (pc_nextmsg_idx c)) (unat (pc_nextmsg_idx c')) (pc_recvbuf c') = concat (map (to_host cf) gs) \<and>
     segment (unat (pc_nextmsg_idx c')) (unat (pc_writeidx c)) (pc_recvbuf c') = host_tail cf t \<and>
     pc_sockfd c' = pc_sockfd c \<and> pc_last_my_ack c' = pc_last_my_ack c"

lemma parsed_nothing:
  assumes "rcv_inv cf c" and "segment (unat (pc_nextmsg_idx c)) (unat (pc_writeidx c)) (pc_recvbuf c) = host_tail cf t"
  shows "parsed cf c [] t c"
  using assms by (simp add: parsed_def)

text \<open>One complete frame, followed by the rest of the loop.\<close>

lemma parsed_step:
  assumes rest: "parsed cf c2 gs t c'" and inv: "rcv_inv cf c" and wf: "wf_frame cf g"
    and nm: "unat (pc_nextmsg_idx c2) = unat (pc_nextmsg_idx c) + length g"
    and rd: "pc_readidx c2 = (if is_heartbeat (ToLittleEndian cf) g \<and> pc_readidx c = pc_nextmsg_idx c
               then pc_nextmsg_idx c2 else pc_readidx c)"
    and seg: "segment (unat (pc_nextmsg_idx c)) (unat (pc_nextmsg_idx c2)) (pc_recvbuf c2) = to_host cf g"
    and before: "\<And>i. segment i (unat (pc_nextmsg_idx c)) (pc_recvbuf c2) = segment i (unat (pc_nextmsg_idx c)) (pc_recvbuf c)"
    and frame: "pc_writeidx c2 = pc_writeidx c" "pc_sockfd c2 = pc_sockfd c" "pc_last_my_ack c2 = pc_last_my_ack c"
  shows "parsed cf c (g # gs) t c'"
proof -
  let ?X = "unat (pc_nextmsg_idx c)" and ?X2 = "unat (pc_nextmsg_idx c2)" and ?hb = "is_heartbeat (ToLittleEndian cf)"
  note R = rest [unfolded parsed_def]
  have seg2: "segment ?X ?X2 (pc_recvbuf c') = to_host cf g" using R seg by simp
  have X2: "?X \<le> ?X2" "?X2 \<le> unat (pc_nextmsg_idx c')" using nm R by simp_all
  have before2: "segment i ?X (pc_recvbuf c') = segment i ?X (pc_recvbuf c)" for i
  proof -
    have "take (?X - i) (segment i ?X2 (pc_recvbuf c')) = take (?X - i) (segment i ?X2 (pc_recvbuf c2))" using R by simp
    then have "segment i ?X (pc_recvbuf c') = segment i ?X (pc_recvbuf c2)"
      using X2(1) by (simp add: segment_def)
    then show ?thesis using before by simp
  qed
  have "pc_readidx c \<noteq> pc_nextmsg_idx c2"
    using rcv_invD(2) [OF inv] nm wf by (auto simp: wf_frame_def)
  then have rd': "unat (pc_readidx c') = unat (pc_readidx c) +
       (if pc_readidx c = pc_nextmsg_idx c then length (concat (takeWhile ?hb (g # gs))) else 0)"
    using R rd nm by (auto simp: split: if_splits)
  have "segment ?X2 (unat (pc_nextmsg_idx c')) (pc_recvbuf c') = concat (map (to_host cf) gs)" using R by blast
  then have seg': "segment ?X (unat (pc_nextmsg_idx c')) (pc_recvbuf c') = concat (map (to_host cf) (g # gs))"
    using segment_append [OF X2, of "pc_recvbuf c'"] seg2 by simp
  have nm': "unat (pc_nextmsg_idx c') = ?X + length (concat (g # gs))" using R nm by simp
  have "rcv_inv cf c'" and "pc_writeidx c' = pc_writeidx c" and "pc_sockfd c' = pc_sockfd c"
    and "pc_last_my_ack c' = pc_last_my_ack c"
    and "segment (unat (pc_nextmsg_idx c')) (unat (pc_writeidx c)) (pc_recvbuf c') = host_tail cf t"
    using R unfolding frame by blast+
  with rd' seg' nm' before2 show ?thesis unfolding parsed_def by blast
qed

lemma front_parse_spec:
  assumes conf: "recv_conf cf"
    and acks: "\<And>q g. P q \<Longrightarrow> g \<in> set gs \<Longrightarrow>
      \<exists>q'. ptcp_Ack (ToLittleEndian cf) (HostLittle cf) (hdr_ack_seq (wire_hdr (ToLittleEndian cf) g)) q = Some q' \<and> P q'"
    and inv: "rcv_inv cf c" and len: "unat (pc_nextmsg_idx c) + length u = unat (pc_writeidx c)"
    and seg: "segment (unat (pc_nextmsg_idx c)) (unat (pc_writeidx c)) (pc_recvbuf c) = (if conv then to_host cf u else u)"
    and conv: "conv \<longrightarrow> 8 \<le> length u \<and> old - int (unat (pc_nextmsg_idx c)) < int (frame_len (ToLittleEndian cf) u)"
      "conv \<longleftrightarrow> 8 \<le> old - int (unat (pc_nextmsg_idx c))"
    and gs: "u @ rest = concat gs" "list_all (wf_frame cf) gs" and q: "pc_q c = Some q" "P q"
  shows "\<exists>c' q' gs1 gs2 t. front_parse cf old c = Some (False, c') \<and> gs = gs1 @ gs2 \<and> u = concat gs1 @ t \<and>
           t @ rest = concat gs2 \<and> incomplete cf t \<and> parsed cf c gs1 t c' \<and> pc_q c' = Some q' \<and> P q'"
  using acks inv len seg conv gs q
proof (induction gs arbitrary: c u conv q)
  case Nil
  then have "front_parse cf old c = Some (False, c)" and "parsed cf c [] [] c" and "u = []"
    by (simp_all add: front_parse.simps parsed_nothing host_tail_def word_le_nat_alt unat_sub_exact)
  then show ?case using Nil by (fastforce simp: incomplete_def)
next
  case (Cons g gs)
  note acks = Cons.prems(1) and inv = Cons.prems(2) and len = Cons.prems(3) and seg = Cons.prems(4)
    and conv = Cons.prems(5,6) and gs = Cons.prems(7,8) and q = Cons.prems(9,10)
  let ?X = "unat (pc_nextmsg_idx c)" and ?W = "unat (pc_writeidx c)"
  let ?wl = "ToLittleEndian cf" and ?hl = "HostLittle cf"
  note I = rcv_invD [OF inv]
  have M: "unat (TcpRecvBufMaxSize cf) < 2 ^ 30" using conf by (simp add: recv_conf_def)
  have avail: "unat (pc_writeidx c - pc_nextmsg_idx c) = length u" using I len by (subst unat_sub_exact) simp_all
  have wf: "wf_frame cf g" using gs(2) by simp
  show ?case
  proof (cases "length u < 8")
    case True
    then have "front_parse cf old c = Some (False, c)" using avail by (simp add: front_parse.simps word_le_nat_alt)
    moreover have "parsed cf c [] u c" using True conv seg inv by (intro parsed_nothing) (auto simp: host_tail_def)
    ultimately show ?thesis using True gs q
      by (intro exI [of _ c] exI [of _ q] exI [of _ "[]"] exI [of _ "g # gs"] exI [of _ u]) (simp add: incomplete_def)
  next
    case False
    then have u8: "8 \<le> length u" by simp
    have g8: "8 \<le> length g" and glen: "length g = frame_len ?wl g" and gmax: "length g \<le> unat (TcpRecvBufMaxSize cf)"
      using wf by (simp_all add: wf_frame_def)
    have "take 8 u = take 8 (u @ rest)" using u8 by simp
    also have "\<dots> = take 8 g" using gs(1) g8 by simp
    finally have hdr: "wire_hdr ?wl u = wire_hdr ?wl g" by (simp add: wire_hdr_def)
    define fresh where "fresh \<longleftrightarrow> old - int ?X < 8"
    have fresh: "fresh \<longleftrightarrow> \<not> conv" using conv(2) by (auto simp: fresh_def)
    define h where "h = hdr_of_bytes ?hl (segment ?X (?X + 8) (pc_recvbuf c))"
    define header where "header = (if fresh then ConvertByteOrder ?wl ?hl h else h)"
    define buf1 where "buf1 = take ?X (pc_recvbuf c) @ hdr_bytes ?hl header @ drop (?X + 8) (pc_recvbuf c)"
    have seg': "segment ?X ?W (pc_recvbuf c) = (if fresh then u else to_host cf u)" using seg fresh by simp
    have Wlen: "?W \<le> length (pc_recvbuf c)" using I by simp
    note B = convert_in_buffer [OF seg' len Wlen u8, folded h_def, folded header_def, folded buf1_def]
    have header: "header = wire_hdr ?wl g" using B(2) hdr by simp
    obtain q' where q': "ptcp_Ack ?wl ?hl (hdr_ack_seq header) q = Some q'" "P q'"
      using acks [OF q(2), of g] header by auto
    have msz: "unat (padded_size (hdr_size header)) = length g"
      using glen header by (simp add: unat_padded_size frame_len_def)
    have signed: "sint (pc_nextmsg_idx c) = int ?X" using I M by (intro sint_small_u32) simp
    let ?c2 = "c\<lparr>pc_recvbuf := buf1, pc_q := Some q'\<rparr>"
    let ?c3 = "if hdr_msg_type header = HeartbeatMsg_msg_type \<and> pc_readidx c = pc_nextmsg_idx c
               then ?c2\<lparr>pc_readidx := pc_readidx c + padded_size (hdr_size header)\<rparr> else ?c2"
    let ?c4 = "?c3\<lparr>pc_nextmsg_idx := pc_nextmsg_idx c + padded_size (hdr_size header)\<rparr>"
    have step: "front_parse cf old c = (if length u < length g then Some (False, ?c2) else front_parse cf old ?c4)"
      using avail u8 B(1) q(1) q'(1) msz gmax
      by (subst front_parse.simps, unfold B(1) option.case Let_def signed fresh_def [symmetric] header_def [symmetric] buf1_def [symmetric])
        (simp add: word_le_nat_alt word_less_nat_alt)
    have inv2: "rcv_inv cf ?c2" using inv B(3) by (simp add: rcv_inv_def)
    show ?thesis
    proof (cases "length u < length g")
      case True
      have "parsed cf c [] u ?c2"
        using inv2 B(4,5) u8 by (simp add: parsed_def host_tail_def)
      moreover have "incomplete cf u" using True glen hdr by (simp add: incomplete_def frame_len_def)
      ultimately show ?thesis using True step gs q'
        by (intro exI [of _ ?c2] exI [of _ q'] exI [of _ "[]"] exI [of _ "g # gs"] exI [of _ u]) simp
    next
      case False
      then have le: "length g \<le> length u" by simp
      have "take (length g) (u @ rest) = g" "drop (length g) (u @ rest) = concat gs" by (simp_all add: gs(1))
      then have u: "u = g @ drop (length g) u" "drop (length g) u @ rest = concat gs"
        using le by (simp_all, metis append_take_drop_id)
      let ?u = "drop (length g) u"
      have "unat (pc_nextmsg_idx c + padded_size (hdr_size header)) = ?X + length g"
        using msz I M False len by (subst unat_add_exact) simp_all
      then have nm: "unat (pc_nextmsg_idx ?c4) = ?X + length g" by simp
      have c4: "pc_recvbuf ?c4 = buf1" "pc_writeidx ?c4 = pc_writeidx c" "pc_q ?c4 = Some q'"
        "pc_recvbuf_size ?c4 = pc_recvbuf_size c" "pc_sockfd ?c4 = pc_sockfd c" "pc_last_my_ack ?c4 = pc_last_my_ack c"
        "pc_readidx ?c4 = (if hdr_msg_type header = HeartbeatMsg_msg_type \<and> pc_readidx c = pc_nextmsg_idx c
           then pc_nextmsg_idx ?c4 else pc_readidx c)"
        by simp_all
      have inv4: "rcv_inv cf ?c4"
        unfolding rcv_inv_def c4 using B(3) I nm False len by auto
      have len4: "unat (pc_nextmsg_idx ?c4) + length ?u = unat (pc_writeidx ?c4)"
        unfolding c4 nm using False len by simp
      have "drop (length g) (segment ?X ?W buf1) = ?u"
        unfolding B(4) using g8 by (simp add: to_host_def)
      then have seg4: "segment (unat (pc_nextmsg_idx ?c4)) (unat (pc_writeidx ?c4)) (pc_recvbuf ?c4)
          = (if False then to_host cf ?u else ?u)"
        unfolding c4 nm by (simp add: drop_segment)
      have old4: "\<not> 8 \<le> old - int (unat (pc_nextmsg_idx ?c4))"
        unfolding nm using conv g8 glen hdr by (auto simp: frame_len_def)
      have "take (length g) (segment ?X ?W buf1) = to_host cf g"
        unfolding B(4) using u(1) to_host_append [OF g8, of cf ?u] g8 by simp
      then have segg: "segment ?X (unat (pc_nextmsg_idx ?c4)) (pc_recvbuf ?c4) = to_host cf g"
        unfolding c4 nm using False len by (simp add: take_segment)
      obtain c' q'' gs1 gs2 t where rec: "front_parse cf old ?c4 = Some (False, c')" "gs = gs1 @ gs2" "?u = concat gs1 @ t"
        "t @ rest = concat gs2" "incomplete cf t" "parsed cf ?c4 gs1 t c'" "pc_q c' = Some q''" "P q''"
        using Cons.IH [OF acks inv4 len4 seg4 _ _ u(2) _ c4(3) q'(2)] old4 gs(2) by auto
      have "parsed cf c (g # gs1) t c'"
        by (rule parsed_step [OF rec(6) inv wf nm])
          (use c4 header segg B(5) in \<open>simp_all add: is_heartbeat_def\<close>)
      then show ?thesis using rec False step u(1)
        by (intro exI [of _ c'] exI [of _ q''] exI [of _ "g # gs1"] exI [of _ gs2] exI [of _ t]) simp
    qed
  qed
qed

section \<open>Front and Pop\<close>

text \<open>
  The receive buffer between two calls: the complete frames \<open>fs\<close> that have not been popped, their
  headers converted, then the received part \<open>t\<close> of the next frame. Frames start at multiples of 8.
\<close>

definition front_rel :: "conf \<Rightarrow> ptcp_conn \<Rightarrow> u8 list list \<Rightarrow> u8 list \<Rightarrow> bool" where
  "front_rel cf c fs t \<longleftrightarrow>
     rcv_inv cf c \<and> 8 dvd unat (pc_readidx c) \<and> list_all (wf_frame cf) fs \<and> incomplete cf t \<and>
     segment (unat (pc_readidx c)) (unat (pc_nextmsg_idx c)) (pc_recvbuf c) = concat (map (to_host cf) fs) \<and>
     segment (unat (pc_nextmsg_idx c)) (unat (pc_writeidx c)) (pc_recvbuf c) = host_tail cf t"

lemma front_relD:
  assumes "front_rel cf c fs t"
  shows "rcv_inv cf c" and "8 dvd unat (pc_readidx c)" and "list_all (wf_frame cf) fs" and "incomplete cf t"
    and "segment (unat (pc_readidx c)) (unat (pc_nextmsg_idx c)) (pc_recvbuf c) = concat (map (to_host cf) fs)"
    and "segment (unat (pc_nextmsg_idx c)) (unat (pc_writeidx c)) (pc_recvbuf c) = host_tail cf t"
  using assms by (simp_all add: front_rel_def)

lemma front_rel_length:
  assumes "front_rel cf c fs t"
  shows "unat (pc_nextmsg_idx c) = unat (pc_readidx c) + length (concat fs)"
    and "unat (pc_writeidx c) = unat (pc_nextmsg_idx c) + length t"
proof -
  note D = front_relD [OF assms] and I = rcv_invD [OF front_relD(1) [OF assms]]
  have "unat (pc_nextmsg_idx c) - unat (pc_readidx c) = length (concat fs)"
    using arg_cong [OF D(5), of length] I length_concat_to_host [OF D(3)] by simp
  then show "unat (pc_nextmsg_idx c) = unat (pc_readidx c) + length (concat fs)" using I by linarith
  have "unat (pc_writeidx c) - unat (pc_nextmsg_idx c) = length t"
    using arg_cong [OF D(6), of length] I by simp
  then show "unat (pc_writeidx c) = unat (pc_nextmsg_idx c) + length t" using I by linarith
qed

text \<open>The first frame: where it is, what its header is, and the buffer without it.\<close>

lemma front_rel_first:
  assumes rel: "front_rel cf c (f # fs) t"
  shows "pc_nextmsg_idx c \<noteq> pc_readidx c"
    and "header_at (HostLittle cf) (pc_recvbuf c) (unat (pc_readidx c)) = Some (wire_hdr (ToLittleEndian cf) f)"
    and "segment (unat (pc_readidx c)) (unat (pc_readidx c) + length f) (pc_recvbuf c) = to_host cf f"
    and "unat n = length f \<Longrightarrow> front_rel cf (c\<lparr>pc_readidx := pc_readidx c + n\<rparr>) fs t"
proof -
  note D = front_relD [OF rel] and I = rcv_invD [OF front_relD(1) [OF rel]] and L = front_rel_length [OF rel]
  have f8: "8 \<le> length f" and wf: "list_all (wf_frame cf) fs" and fdvd: "8 dvd length f"
    using D(3) by (auto simp: wf_frame_def frame_len_def)
  then show "pc_nextmsg_idx c \<noteq> pc_readidx c" using L by auto
  have "take (length f) (segment (unat (pc_readidx c)) (unat (pc_nextmsg_idx c)) (pc_recvbuf c)) = to_host cf f"
    using D(5) f8 by simp
  then show first: "segment (unat (pc_readidx c)) (unat (pc_readidx c) + length f) (pc_recvbuf c) = to_host cf f"
    using L by (simp add: take_segment)
  have "take 8 (segment (unat (pc_readidx c)) (unat (pc_readidx c) + length f) (pc_recvbuf c)) = take 8 (to_host cf f)"
    by (simp only: first)
  then have "segment (unat (pc_readidx c)) (unat (pc_readidx c) + 8) (pc_recvbuf c) = take 8 (to_host cf f)"
    using f8 by (simp add: take_segment min_absorb1)
  then show "header_at (HostLittle cf) (pc_recvbuf c) (unat (pc_readidx c)) = Some (wire_hdr (ToLittleEndian cf) f)"
    using hdr_of_to_host [OF f8] I L f8 by (simp add: header_at_def)
  assume n: "unat n = length f"
  have rd: "unat (pc_readidx c + n) = unat (pc_readidx c) + length f"
    using n L unat_u32_less [of "pc_nextmsg_idx c"] by (subst unat_add_exact) simp_all
  have "drop (length f) (segment (unat (pc_readidx c)) (unat (pc_nextmsg_idx c)) (pc_recvbuf c)) = concat (map (to_host cf) fs)"
    using D(5) f8 by simp
  then have "segment (unat (pc_readidx c + n)) (unat (pc_nextmsg_idx c)) (pc_recvbuf c) = concat (map (to_host cf) fs)"
    by (simp add: rd drop_segment)
  then show "front_rel cf (c\<lparr>pc_readidx := pc_readidx c + n\<rparr>) fs t"
    using D(1,2,4,6) wf rd L fdvd by (simp add: front_rel_def rcv_inv_def)
qed

lemma front_skip_spec:
  assumes "front_rel cf c fs t"
  obtains c' where "front_skip cf q c = Some (dropWhile (is_heartbeat (ToLittleEndian cf)) fs \<noteq> [] \<and> pc_last_my_ack c \<noteq> ptcp_MyAck q, c')"
    and "front_rel cf c' (dropWhile (is_heartbeat (ToLittleEndian cf)) fs) t"
    and "pc_q c' = pc_q c" and "pc_sockfd c' = pc_sockfd c"
  using assms
proof (induction fs arbitrary: c thesis)
  case Nil
  have "pc_nextmsg_idx c = pc_readidx c"
    using front_rel_length(1) [OF Nil.prems(2)] by (simp add: word_unat_eq_iff)
  then show ?case using Nil.prems(1) [of c] Nil.prems(2) by (simp add: front_skip.simps)
next
  case (Cons f fs)
  note F = front_rel_first [OF Cons.prems(2)]
  show ?case
  proof (cases "is_heartbeat (ToLittleEndian cf) f")
    case True
    then have "length f = 8" using front_relD(3) [OF Cons.prems(2)] by (simp add: wf_frame_def)
    then have rel: "front_rel cf (c\<lparr>pc_readidx := pc_readidx c + 8\<rparr>) fs t" using F(4) [of 8] by simp
    have "front_skip cf q c = front_skip cf q (c\<lparr>pc_readidx := pc_readidx c + 8\<rparr>)"
      using F True by (subst front_skip.simps) (simp add: is_heartbeat_def)
    moreover obtain c' where "front_skip cf q (c\<lparr>pc_readidx := pc_readidx c + 8\<rparr>)
        = Some (dropWhile (is_heartbeat (ToLittleEndian cf)) fs \<noteq> [] \<and> pc_last_my_ack c \<noteq> ptcp_MyAck q, c')"
      and "front_rel cf c' (dropWhile (is_heartbeat (ToLittleEndian cf)) fs) t" "pc_q c' = pc_q c" "pc_sockfd c' = pc_sockfd c"
      using Cons.IH [OF _ rel] by auto
    ultimately show ?thesis using Cons.prems(1) [of c'] True by simp
  next
    case False
    let ?c = "if pc_last_my_ack c = ptcp_MyAck q then c else c\<lparr>pc_last_my_ack := ptcp_MyAck q\<rparr>"
    have "front_skip cf q c = Some (pc_last_my_ack c \<noteq> ptcp_MyAck q, ?c)"
      using F False by (subst front_skip.simps) (simp add: is_heartbeat_def)
    moreover have "front_rel cf ?c (f # fs) t" using Cons.prems(2) by (simp add: front_rel_def rcv_inv_def)
    ultimately show ?thesis using Cons.prems(1) [of ?c] False by simp
  qed
qed

text \<open>After \<open>DoRecv\<close>: the frames and the incomplete one, with the new bytes behind them.\<close>

lemma recv_post_frames:
  assumes rel: "front_rel cf c fs t" and post: "recv_post cf c data c'"
  shows "segment (unat (pc_readidx c')) (unat (pc_nextmsg_idx c')) (pc_recvbuf c') = concat (map (to_host cf) fs)"
    and "segment (unat (pc_nextmsg_idx c')) (unat (pc_writeidx c') + length data) (pc_recvbuf c') = host_tail cf t @ data"
    and "unat (pc_writeidx c') = unat (pc_nextmsg_idx c') + length t" and "8 dvd unat (pc_readidx c')"
proof -
  note D = front_relD [OF rel] and L = front_rel_length [OF rel] and P = post [unfolded recv_post_def]
  note I' = rcv_invD [of cf c']
  have I: "rcv_inv cf c'" using P by blast
  have X: "unat (pc_nextmsg_idx c') - unat (pc_readidx c') = length (concat fs)" using P L by simp
  have W: "unat (pc_writeidx c') - unat (pc_readidx c') = length (concat fs) + length t" using P L by simp
  show W': "unat (pc_writeidx c') = unat (pc_nextmsg_idx c') + length t" using X W rcv_invD [OF I] by linarith
  have "unread c = concat (map (to_host cf) fs) @ host_tail cf t"
    unfolding unread_def using segment_append [of "unat (pc_readidx c)" "unat (pc_nextmsg_idx c)" "unat (pc_writeidx c)"]
      D(5,6) L by (metis le_add1)
  then have all: "segment (unat (pc_readidx c')) (unat (pc_writeidx c') + length data) (pc_recvbuf c')
      = concat (map (to_host cf) fs) @ host_tail cf t @ data" using P by simp
  have len: "length (concat (map (to_host cf) fs)) = length (concat fs)" by (rule length_concat_to_host [OF D(3)])
  have X': "unat (pc_nextmsg_idx c') = unat (pc_readidx c') + length (concat fs)" using X rcv_invD [OF I] by linarith
  have "take (length (concat fs)) (segment (unat (pc_readidx c')) (unat (pc_writeidx c') + length data) (pc_recvbuf c'))
      = concat (map (to_host cf) fs)" using len by (simp add: all)
  then show "segment (unat (pc_readidx c')) (unat (pc_nextmsg_idx c')) (pc_recvbuf c') = concat (map (to_host cf) fs)"
    using W' by (simp add: take_segment X' min_absorb1)
  have "drop (length (concat fs)) (segment (unat (pc_readidx c')) (unat (pc_writeidx c') + length data) (pc_recvbuf c'))
      = host_tail cf t @ data" using len by (simp add: all)
  then show "segment (unat (pc_nextmsg_idx c')) (unat (pc_writeidx c') + length data) (pc_recvbuf c') = host_tail cf t @ data"
    by (simp add: drop_segment X')
  show "8 dvd unat (pc_readidx c')" using P D(2) by auto
qed

lemma wf_frames_dvd: "list_all (wf_frame cf) fs \<Longrightarrow> 8 dvd length (concat fs)"
  by (induction fs) (auto simp: wf_frame_def frame_len_def)

text \<open>Parsing keeps the relation: the new frames are appended, leading heartbeats dropped.\<close>

lemma parsed_front_rel:
  assumes parsed: "parsed cf c gs t c'" and inv: "rcv_inv cf c" and aligned: "8 dvd unat (pc_readidx c)"
    and fs: "segment (unat (pc_readidx c)) (unat (pc_nextmsg_idx c)) (pc_recvbuf c) = concat (map (to_host cf) fs)"
      "list_all (wf_frame cf) fs" "fs \<noteq> [] \<Longrightarrow> \<not> is_heartbeat (ToLittleEndian cf) (hd fs)"
    and gs: "list_all (wf_frame cf) gs" and t: "incomplete cf t"
  shows "front_rel cf c' (dropWhile (is_heartbeat (ToLittleEndian cf)) (fs @ gs)) t"
proof -
  let ?hb = "is_heartbeat (ToLittleEndian cf)"
  note P = parsed [unfolded parsed_def] and I = rcv_invD [OF inv]
  have inv': "rcv_inv cf c'" and W: "pc_writeidx c' = pc_writeidx c"
    and X': "unat (pc_nextmsg_idx c') = unat (pc_nextmsg_idx c) + length (concat gs)"
    and keep: "segment i (unat (pc_nextmsg_idx c)) (pc_recvbuf c') = segment i (unat (pc_nextmsg_idx c)) (pc_recvbuf c)"
    and new: "segment (unat (pc_nextmsg_idx c)) (unat (pc_nextmsg_idx c')) (pc_recvbuf c') = concat (map (to_host cf) gs)"
    and tail: "segment (unat (pc_nextmsg_idx c')) (unat (pc_writeidx c)) (pc_recvbuf c') = host_tail cf t" for i
    using P by blast+
  have "unat (pc_nextmsg_idx c) - unat (pc_readidx c) = length (concat fs)"
    using arg_cong [OF fs(1), of length] I length_concat_to_host [OF fs(2)] by simp
  then have X: "unat (pc_nextmsg_idx c) = unat (pc_readidx c) + length (concat fs)" using I by linarith
  show ?thesis
  proof (cases fs)
    case Nil
    then have "pc_readidx c = pc_nextmsg_idx c" using X by (simp add: word_unat_eq_iff)
    then have R: "unat (pc_readidx c') = unat (pc_nextmsg_idx c) + length (concat (takeWhile ?hb gs))" using P by simp
    have tw: "list_all (wf_frame cf) (takeWhile ?hb gs)" "list_all (wf_frame cf) (dropWhile ?hb gs)"
      using gs by (auto simp: list_all_iff dest: set_takeWhileD set_dropWhileD)
    have split: "concat (map (to_host cf) gs) = concat (map (to_host cf) (takeWhile ?hb gs)) @ concat (map (to_host cf) (dropWhile ?hb gs))"
      by (metis concat_append map_append takeWhile_dropWhile_id)
    have "drop (length (concat (takeWhile ?hb gs))) (segment (unat (pc_nextmsg_idx c)) (unat (pc_nextmsg_idx c')) (pc_recvbuf c'))
        = concat (map (to_host cf) (dropWhile ?hb gs))"
      unfolding new split using length_concat_to_host [OF tw(1)] by simp
    then have "segment (unat (pc_readidx c')) (unat (pc_nextmsg_idx c')) (pc_recvbuf c') = concat (map (to_host cf) (dropWhile ?hb gs))"
      by (simp add: R drop_segment)
    moreover have "8 dvd unat (pc_readidx c')" using R X Nil aligned wf_frames_dvd [OF tw(1)] by simp
    ultimately show ?thesis using inv' tw(2) t tail W Nil by (simp add: front_rel_def)
  next
    case (Cons f fs')
    have "pc_readidx c \<noteq> pc_nextmsg_idx c" using X fs(2) Cons by (auto simp: wf_frame_def)
    then have R: "unat (pc_readidx c') = unat (pc_readidx c)" using P by simp
    have "segment (unat (pc_readidx c)) (unat (pc_nextmsg_idx c')) (pc_recvbuf c') = concat (map (to_host cf) (fs @ gs))"
      using segment_append [of "unat (pc_readidx c)" "unat (pc_nextmsg_idx c)" "unat (pc_nextmsg_idx c')" "pc_recvbuf c'"]
        keep fs(1) new X X' by simp
    then show ?thesis using inv' R fs(2,3) gs t tail W aligned Cons by (simp add: front_rel_def)
  qed
qed

text \<open>The second part of \<open>Front\<close>, when it does not return early.\<close>

lemma front_recv_spec:
  assumes conf: "recv_conf cf" and os: "recv_ok os" "new_ok os" "stream_recv os inp"
    and rel: "front_rel cf c fs t" and first: "fs \<noteq> [] \<Longrightarrow> \<not> is_heartbeat (ToLittleEndian cf) (hd fs)"
    and gs: "t @ inp (pc_sockfd c) w @ future = concat gs" "list_all (wf_frame cf) gs" and q: "pc_q c = Some q" "P q"
    and acks: "\<And>q g. P q \<Longrightarrow> g \<in> set gs \<Longrightarrow>
      \<exists>q'. ptcp_Ack (ToLittleEndian cf) (HostLittle cf) (hdr_ack_seq (wire_hdr (ToLittleEndian cf) g)) q = Some q' \<and> P q'"
  obtains len c2 w2 c3 gs1 gs2 t' q' where "pc_DoRecv os cf c w = Some (len, c2, w2)"
    and "(if len \<noteq> 0
          then front_parse cf (sint (pc_writeidx c2)) (c2\<lparr>pc_writeidx := pc_writeidx c2 + word_of_int len\<rparr>)
          else Some (False, c2)) = Some (False, c3)"
    and "gs = gs1 @ gs2" and "t' @ inp (pc_sockfd c) w2 @ future = concat gs2"
    and "front_rel cf c3 (dropWhile (is_heartbeat (ToLittleEndian cf)) (fs @ gs1)) t'"
    and "pc_q c3 = Some q'" and "P q'"
proof -
  let ?hb = "is_heartbeat (ToLittleEndian cf)"
  note D = front_relD [OF rel]
  obtain data c2 w2 where recv: "pc_DoRecv os cf c w = Some (int (length data), c2, w2)"
    and post: "recv_post cf c data c2" and str: "inp (pc_sockfd c) w = data @ inp (pc_sockfd c) w2"
    by (rule pc_DoRecv_spec [OF conf os(1,2) D(1), of w]) (use os(3) in blast)
  note F = recv_post_frames [OF rel post] and P = post [unfolded recv_post_def]
  have inv: "rcv_inv cf c2" and fits: "unat (pc_writeidx c2) + length data \<le> unat (pc_recvbuf_size c2)"
    and q2: "pc_q c2 = Some q" using P q by simp_all
  note I = rcv_invD [OF inv]
  have M: "unat (TcpRecvBufMaxSize cf) < 2 ^ 30" using conf by (simp add: recv_conf_def)
  have skip: "dropWhile ?hb fs = fs" using first by (cases fs) simp_all
  show ?thesis
  proof (cases "data = []")
    case True
    have "front_rel cf c2 fs t" using F inv D(3,4) True by (simp add: front_rel_def)
    then show ?thesis using that [of "int (length data)" c2 w2 c2 "[]" gs t q] recv True gs str q2 q(2) skip by simp
  next
    case False
    let ?c = "c2\<lparr>pc_writeidx := pc_writeidx c2 + word_of_int (int (length data))\<rparr>"
    let ?u = "t @ data" and ?conv = "8 \<le> length t"
    have W: "unat (pc_writeidx ?c) = unat (pc_writeidx c2) + length data"
      using I M fits by (simp add: unat_word_ariths unat_of_nat del: of_nat_unat)
    have inv': "rcv_inv cf ?c" using inv W fits by (simp add: rcv_inv_def del: of_nat_unat)
    have len: "unat (pc_nextmsg_idx ?c) + length ?u = unat (pc_writeidx ?c)" unfolding W using F(3) by simp
    have seg: "segment (unat (pc_nextmsg_idx ?c)) (unat (pc_writeidx ?c)) (pc_recvbuf ?c) = (if ?conv then to_host cf ?u else ?u)"
      unfolding W using F(2) by (simp add: host_tail_def to_host_append)
    have old: "sint (pc_writeidx c2) = int (unat (pc_writeidx c2))" using I M by (intro sint_small_u32) simp
    have diff: "sint (pc_writeidx c2) - int (unat (pc_nextmsg_idx ?c)) = int (length t)" unfolding old F(3) by simp
    have conv: "?conv \<longrightarrow> 8 \<le> length ?u \<and> sint (pc_writeidx c2) - int (unat (pc_nextmsg_idx ?c)) < int (frame_len (ToLittleEndian cf) ?u)"
      "?conv \<longleftrightarrow> 8 \<le> sint (pc_writeidx c2) - int (unat (pc_nextmsg_idx ?c))"
      unfolding diff using D(4) by (auto simp: incomplete_def frame_len_def wire_hdr_prefix)
    have gs': "?u @ inp (pc_sockfd c) w2 @ future = concat gs" using gs(1) str by simp
    have q': "pc_q ?c = Some q" using q2 by simp
    obtain c3 q3 gs1 gs2 t' where parse: "front_parse cf (sint (pc_writeidx c2)) ?c = Some (False, c3)"
      "gs = gs1 @ gs2" "?u = concat gs1 @ t'" "t' @ inp (pc_sockfd c) w2 @ future = concat gs2" "incomplete cf t'"
      "parsed cf ?c gs1 t' c3" "pc_q c3 = Some q3" "P q3"
      using front_parse_spec [where P = P, OF conf acks inv' len seg conv gs' gs(2) q' q(2)] by blast
    have "front_rel cf c3 (dropWhile ?hb (fs @ gs1)) t'"
      using F(1,4) D(3) first parse gs(2) inv'
      by (intro parsed_front_rel [of cf ?c gs1 t' c3 fs]) simp_all
    then show ?thesis using that [of "int (length data)" c2 w2 c3 gs1 gs2 t' q3] recv False parse by simp
  qed
qed

text \<open>
  The send queue while acknowledgements arrive: \<open>K\<close> messages of \<open>ms\<close> had been handed to the socket
  when it was \<open>q0\<close>, and some of these have been acknowledged since.
\<close>

definition acked :: "conf \<Rightarrow> ptcp_queue \<Rightarrow> msg_header list list \<Rightarrow> nat \<Rightarrow> ptcp_queue \<Rightarrow> bool" where
  "acked cf q0 ms K q \<longleftrightarrow>
     (\<exists>j \<le> K. K \<le> length ms \<and> K < 2 ^ 31 \<and>
        ptcp_rel (TcpQueueSize cf) (ToLittleEndian cf) (HostLittle cf) q (drop j ms) \<and>
        pq_read_seq_num q = pq_read_seq_num q0 + word_of_nat j \<and> pq_ack_seq_num q = pq_ack_seq_num q0 \<and>
        unat (pq_read_idx q) + length (concat (take (K - j) (drop j ms))) \<le> unat (pq_send_idx q) \<and>
        unsent q = unsent q0)"

lemma acked_start:
  assumes "ptcp_rel (TcpQueueSize cf) (ToLittleEndian cf) (HostLittle cf) q ms" and "K \<le> length ms" and "K < 2 ^ 31"
    and "unat (pq_read_idx q) + length (concat (take K ms)) \<le> unat (pq_send_idx q)"
  shows "acked cf q ms K q"
  unfolding acked_def using assms by (intro exI [of _ 0]) simp

text \<open>
  The acknowledgement number \<open>a\<close> is that of at most \<open>K\<close> messages behind \<open>base\<close>, or an older one, as a
  message that is sent again carries.
\<close>

definition acks_upto :: "u32 \<Rightarrow> nat \<Rightarrow> u32 \<Rightarrow> bool" where
  "acks_upto base K a \<longleftrightarrow> (\<exists>i. int K - 2 ^ 31 \<le> i \<and> i \<le> int K \<and> a = base + word_of_int i)"

lemma acked_Ack:
  assumes acked: "acked cf q0 ms K q" and upto: "acks_upto (pq_read_seq_num q0) K a"
  shows "\<exists>q'. ptcp_Ack (ToLittleEndian cf) (HostLittle cf) a q = Some q' \<and> acked cf q0 ms K q'"
proof -
  let ?wl = "ToLittleEndian cf" and ?hl = "HostLittle cf" and ?B = "TcpQueueSize cf"
  obtain j where j: "j \<le> K" and K: "K \<le> length ms" "K < 2 ^ 31"
    and rel: "ptcp_rel ?B ?wl ?hl q (drop j ms)"
    and seq: "pq_read_seq_num q = pq_read_seq_num q0 + word_of_nat j" "pq_ack_seq_num q = pq_ack_seq_num q0"
    and sent: "unat (pq_read_idx q) + length (concat (take (K - j) (drop j ms))) \<le> unat (pq_send_idx q)"
    and same: "unsent q = unsent q0"
    using acked by (auto simp: acked_def)
  obtain i where i: "int K - 2 ^ 31 \<le> i" "i \<le> int K" and ai: "a = pq_read_seq_num q0 + word_of_int i"
    using upto by (auto simp: acks_upto_def)
  have diff: "sdiff a (pq_read_seq_num q) = i - int j"
  proof -
    have "a - pq_read_seq_num q = word_of_int (i - int j)" by (simp add: ai seq(1))
    moreover have "sint (word_of_int (i - int j) :: u32) = i - int j" using i j K by (intro sint_of_int_exact) simp_all
    ultimately show ?thesis by (simp only: sdiff_def)
  qed
  show ?thesis
  proof (cases "i \<le> int j")
    case True
    then show ?thesis using diff acked by (simp add: ptcp_Ack_stale)
  next
    case newer: False
    define k where "k = nat i"
    have a: "a = pq_read_seq_num q0 + word_of_nat k" and k: "k \<le> K" and False: "\<not> k \<le> j"
      using newer i(2) ai by (simp_all add: k_def)
    have pos: "0 < k - j" using False by simp
    have live: "ptcp_live ?B ?wl ?hl q (drop j ms)" and send: "unat (pq_send_idx q) \<le> unat (pq_write_idx q)"
      using rel by (simp_all add: ptcp_rel_live)
    have "a - pq_read_seq_num q = word_of_nat (k - j)" using False a seq(1) by (simp add: of_nat_diff)
    moreover have "unat (word_of_nat (k - j) :: u32) = k - j" using k K by (intro unat_of_nat_exact) simp
    ultimately have kj: "k - j = unat (a - pq_read_seq_num q)" by simp
    have lim: "k - j < 2 ^ 31" "k - j \<le> length (drop j ms)" using k K by simp_all
    have dd: "drop (k - j) (drop j ms) = drop k ms" using False by simp
    obtain q' where ack: "ptcp_Ack ?wl ?hl a q = Some q'" and live': "ptcp_live ?B ?wl ?hl q' (drop k ms)"
      and seq': "pq_read_seq_num q' = a" "pq_ack_seq_num q' = pq_ack_seq_num q"
      and empty: "drop k ms = [] \<Longrightarrow> unat (pq_read_idx q') = 0 \<and> unat (pq_write_idx q') = 0 \<and> unat (pq_send_idx q') = 0"
      and left: "drop k ms \<noteq> [] \<Longrightarrow> unat (pq_read_idx q') = unat (pq_read_idx q) + length (concat (take (k - j) (drop j ms))) \<and>
           pq_write_idx q' = pq_write_idx q \<and> pq_send_idx q' = pq_send_idx q"
      using ptcp_Ack_live [OF live kj pos lim] unfolding dd by metis
    have blk: "pq_blk q' = pq_blk q" by (rule ptcp_Ack_blk [OF ack])
    have split: "take (K - j) (drop j ms) = take (k - j) (drop j ms) @ take (K - k) (drop k ms)"
    proof -
      have "K - j = (k - j) + (K - k)" using False k by simp
      then show ?thesis by (simp only: take_add dd)
    qed
    have "ptcp_rel ?B ?wl ?hl q' (drop k ms) \<and> unsent q' = unsent q \<and>
        unat (pq_read_idx q') + length (concat (take (K - k) (drop k ms))) \<le> unat (pq_send_idx q')"
    proof (cases "drop k ms = []")
      case True
      then have "K = k" using k K by simp
      have "take (k - j) (drop j ms) = drop j ms" using True by simp
      then have "unat (pq_send_idx q) = unat (pq_write_idx q)"
        using sent send ptcp_live_length [OF live] \<open>K = k\<close> by simp
      then have "unsent q = []" by (simp add: unsent_def segment_def)
      then show ?thesis using empty [OF True] live' True by (simp add: ptcp_rel_live unsent_def segment_def)
    next
      case False
      note L = left [OF False]
      then show ?thesis using sent live' send blk by (simp add: ptcp_rel_live unsent_def split)
    qed
    then show ?thesis using ack seq seq' K k a same unfolding acked_def by (intro exI [of _ q']) auto
  qed
qed

text \<open>
  \<open>Front\<close>. Let \<open>gs\<close> be the frames on the stream behind the complete ones in the buffer (the last one
  may still be in flight: \<open>future\<close>). \<open>Front\<close> returns; the messages that are still to be delivered stay
  the same; it returns a pointer to the first of them when one is complete, and never to a
  heartbeat.
\<close>

lemma pc_Front_spec:
  assumes conf: "recv_conf cf" and os: "recv_ok os" "new_ok os" "stream_recv os inp"
    and rel: "front_rel cf c fs t"
    and gs: "t @ inp (pc_sockfd c) w @ future = concat gs" "list_all (wf_frame cf) gs"
    and q: "pc_q c = Some q" "acked cf q0 ms K q"
    and acks: "\<forall>g \<in> set gs. acks_upto (pq_read_seq_num q0) K (hdr_ack_seq (wire_hdr (ToLittleEndian cf) g))"
  obtains c' w' fs' t' gs0 gs' q' where
    "pc_Front os cf c w = Some (if fs' = [] then None else Some (pc_readidx c'), c', w')"
    and "front_rel cf c' fs' t'" and "t' @ inp (pc_sockfd c) w' @ future = concat gs'" and "list_all (wf_frame cf) gs'"
    and "filter (\<lambda>g. \<not> is_heartbeat (ToLittleEndian cf) g) (fs' @ gs')
       = filter (\<lambda>g. \<not> is_heartbeat (ToLittleEndian cf) g) (fs @ gs)"
    and "fs' \<noteq> [] \<Longrightarrow> \<not> is_heartbeat (ToLittleEndian cf) (hd fs')"
    and "pc_q c' = Some q'" and "acked cf q0 ms K q'" and "gs = gs0 @ gs'"
proof -
  let ?hb = "is_heartbeat (ToLittleEndian cf)"
  have drop: "filter (\<lambda>g. \<not> ?hb g) (dropWhile ?hb xs) = filter (\<lambda>g. \<not> ?hb g) xs" for xs
    by (induction xs) simp_all
  have first: "dropWhile ?hb xs \<noteq> [] \<Longrightarrow> \<not> ?hb (hd (dropWhile ?hb xs))" for xs
    by (rule hd_dropWhile)
  obtain c1 where skip: "front_skip cf q c = Some (dropWhile ?hb fs \<noteq> [] \<and> pc_last_my_ack c \<noteq> ptcp_MyAck q, c1)"
    and rel1: "front_rel cf c1 (dropWhile ?hb fs) t" and frame: "pc_q c1 = pc_q c" "pc_sockfd c1 = pc_sockfd c"
    by (rule front_skip_spec [OF rel])
  show ?thesis
  proof (cases "dropWhile ?hb fs \<noteq> [] \<and> pc_last_my_ack c \<noteq> ptcp_MyAck q")
    case True
    then have "pc_Front os cf c w = Some (Some (pc_readidx c1), c1, w)" using skip q by (simp add: pc_Front_def)
    then show ?thesis
      using that [of "dropWhile ?hb fs" c1 w t gs q "[]"] True rel1 gs q frame drop [of fs] first [of fs] by simp
  next
    case False
    have skip0: "front_skip cf q c = Some (False, c1)" unfolding skip using False by simp
    have gs1: "t @ inp (pc_sockfd c1) w @ future = concat gs" and q1: "pc_q c1 = Some q" using gs(1) q(1) frame by simp_all
    have acks': "\<exists>q'. ptcp_Ack (ToLittleEndian cf) (HostLittle cf) (hdr_ack_seq (wire_hdr (ToLittleEndian cf) g)) q = Some q'
        \<and> acked cf q0 ms K q'" if "acked cf q0 ms K q" "g \<in> set gs" for q g
      using acks that acked_Ack [OF that(1)] by blast
    obtain len c2 w2 c3 gs1 gs2 t' q' where recv: "pc_DoRecv os cf c1 w = Some (len, c2, w2)"
      and parse: "(if len \<noteq> 0
          then front_parse cf (sint (pc_writeidx c2)) (c2\<lparr>pc_writeidx := pc_writeidx c2 + word_of_int len\<rparr>)
          else Some (False, c2)) = Some (False, c3)"
      and gs': "gs = gs1 @ gs2" "t' @ inp (pc_sockfd c1) w2 @ future = concat gs2"
      and rel3: "front_rel cf c3 (dropWhile ?hb (dropWhile ?hb fs @ gs1)) t'" and q3: "pc_q c3 = Some q'" "acked cf q0 ms K q'"
      by (rule front_recv_spec [where P = "acked cf q0 ms K", OF conf os rel1 first gs1 gs(2) q1 q(2) acks'])
    let ?fs = "dropWhile ?hb (dropWhile ?hb fs @ gs1)"
    have "pc_Front os cf c w = Some (if pc_readidx c3 \<noteq> pc_nextmsg_idx c3 then Some (pc_readidx c3) else None, c3, w2)"
      unfolding pc_Front_def using q(1) skip0 recv parse by simp
    moreover have "pc_readidx c3 \<noteq> pc_nextmsg_idx c3 \<longleftrightarrow> ?fs \<noteq> []"
      using front_rel_length(1) [OF rel3] front_relD(3) [OF rel3]
      by (cases ?fs) (auto simp: word_unat_eq_iff wf_frame_def)
    ultimately have "pc_Front os cf c w = Some (if ?fs = [] then None else Some (pc_readidx c3), c3, w2)" by simp
    moreover have "filter (\<lambda>g. \<not> ?hb g) (?fs @ gs2) = filter (\<lambda>g. \<not> ?hb g) (fs @ gs)"
      using drop [of fs] drop [of "dropWhile ?hb fs @ gs1"] gs'(1) by simp
    ultimately show ?thesis
      using that [of ?fs c3 w2 t' gs2 q' gs1] rel3 gs' q3 gs(2) first [of "dropWhile ?hb fs @ gs1"] frame(2) by auto
  qed
qed

lemma pc_Pop_spec:
  assumes rel: "front_rel cf c (f # fs) t" and q: "pc_q c = Some q"
  obtains c' where "pc_Pop cf c = Some c'" and "front_rel cf c' fs t"
    and "pc_q c' = Some (ptcp_MyAck_incr q)" and "pc_sockfd c' = pc_sockfd c"
proof -
  note F = front_rel_first [OF rel]
  let ?n = "padded_size (hdr_size (wire_hdr (ToLittleEndian cf) f))"
  have "unat ?n = length f" using front_relD(3) [OF rel] by (simp add: unat_padded_size wf_frame_def frame_len_def)
  then have rel': "front_rel cf (c\<lparr>pc_readidx := pc_readidx c + ?n\<rparr>) fs t" by (rule F(4))
  let ?c = "c\<lparr>pc_readidx := pc_readidx c + ?n, pc_q := Some (ptcp_MyAck_incr q)\<rparr>"
  have "front_rel cf ?c fs t" using rel' by (simp add: front_rel_def rcv_inv_def)
  moreover have "pc_Pop cf c = Some ?c" using F(2) q by (simp add: pc_Pop_def)
  ultimately show ?thesis using that [of ?c] by simp
qed

text \<open>A heartbeat as the peer's \<open>SendHB\<close> sends it, and a message as the peer's queue stores it, are frames.\<close>

lemma hdr_bytes_frame:
  assumes "hdr_size h = 8"
  shows "wire_hdr wl (hdr_bytes hl (ConvertByteOrder wl hl h)) = h" and "frame_len wl (hdr_bytes hl (ConvertByteOrder wl hl h)) = 8"
  using assms by (simp_all add: wire_hdr_def frame_len_def hdr_bytes_Convert blocks_def)

lemma msg_frame:
  assumes "wf_msg wl hl m"
  shows "wire_hdr wl (cells_bytes hl m) = msg_header_of wl hl m"
    and "frame_len wl (cells_bytes hl m) = 8 * length m"
    and "length (cells_bytes hl m) = 8 * length m" and "0 < length m"
proof -
  obtain h cs where m: "m = h # cs" using wf_msg_nonempty [OF assms] by (cases m) auto
  show w: "wire_hdr wl (cells_bytes hl m) = msg_header_of wl hl m"
    using hdr_bytes_Convert [of hl wl "ConvertByteOrder wl hl h"] by (simp add: m wire_hdr_def msg_header_of_def)
  show "frame_len wl (cells_bytes hl m) = 8 * length m"
    using assms by (simp add: frame_len_def w wf_msg_def msg_size_def msg_header_of_def)
  show "length (cells_bytes hl m) = 8 * length m" and "0 < length m" by (simp_all add: m)
qed

section \<open>Properties\<close>

text \<open>C18: \<open>DoRecv\<close> never writes outside the receive buffer and never loses, duplicates or reorders a
  byte: whether the bytes fit behind \<open>writeidx_\<close>, the unread ones are moved to the front, or the buffer
  is expanded, the bytes at the read position are the unread ones followed by exactly what the call
  took off the stream. The indices keep their order \<open>readidx_ \<le> nextmsg_idx_ \<le> writeidx_\<close>, with room
  for the caller to add the returned count, and the buffer never exceeds \<open>TcpRecvBufMaxSize\<close>.\<close>

theorem pc_DoRecv_conserves_bytes:
  assumes "recv_conf cf" and "recv_ok os" and "new_ok os" and "stream_recv os inp" and "rcv_inv cf c"
  shows "\<exists>data c' w'. pc_DoRecv os cf c w = Some (int (length data), c', w') \<and>
           inp (pc_sockfd c) w = data @ inp (pc_sockfd c) w' \<and> rcv_inv cf c' \<and>
           unat (pc_writeidx c') + length data \<le> unat (pc_recvbuf_size c') \<and>
           segment (unat (pc_readidx c')) (unat (pc_writeidx c') + length data) (pc_recvbuf c') = unread c @ data \<and>
           unat (pc_nextmsg_idx c') - unat (pc_readidx c') = unat (pc_nextmsg_idx c) - unat (pc_readidx c)"
  by (rule pc_DoRecv_spec [OF assms(1,2,3,5), of w]) (use assms(4) in \<open>auto simp: recv_post_def\<close>)

definition sample_conf :: conf where
  "sample_conf = \<lparr>NameSize = 16, ShmQueueSize = 1048576, ToLittleEndian = True, TcpQueueSize = 64,
     TcpRecvBufInitSize = 16, TcpRecvBufMaxSize = 32, TcpNoDelay = True, ConnectionTimeout = 10,
     HeartBeatInverval = 3, LoginUserDataSize = 1, LoginRspUserDataSize = 1, HostLittle = False\<rparr>"

text \<open>A connection that has just been opened on descriptor 5 with an empty queue.\<close>

definition sample_conn :: ptcp_conn where
  "sample_conn = (PTCPConnection sample_conf)\<lparr>pc_q := Some (ptcp_zeroed 64), pc_sockfd := 5, pc_fd_to_close := 5,
     pc_recvbuf := replicate 16 0, pc_recvbuf_size := 16\<rparr>"

lemma sample_recv_conf: "recv_conf sample_conf"
  by (simp add: recv_conf_def sample_conf_def)

lemma sample_rcv_inv: "rcv_inv sample_conf sample_conn"
  by (simp add: rcv_inv_def sample_conf_def sample_conn_def PTCPConnection_def)

lemma sample_front_rel: "front_rel sample_conf sample_conn [] []"
  using sample_rcv_inv by (simp add: front_rel_def incomplete_def host_tail_def sample_conn_def PTCPConnection_def)

theorem pc_DoRecv_conserves_bytes_witness:
  "\<exists>data c' w'. pc_DoRecv script_os sample_conf (sample_conn\<lparr>pc_writeidx := 16\<rparr>)
       \<lparr>sw_out = [], sw_inp = [1, 2, 3], sw_limits = [9], sw_closed = []\<rparr> = Some (int (length data), c', w') \<and>
     [1, 2, 3] = data @ sw_inp w' \<and> rcv_inv sample_conf c' \<and>
     segment (unat (pc_readidx c')) (unat (pc_writeidx c') + length data) (pc_recvbuf c') = replicate 16 0 @ data"
proof -
  have "rcv_inv sample_conf (sample_conn\<lparr>pc_writeidx := 16\<rparr>)" "unread (sample_conn\<lparr>pc_writeidx := 16\<rparr>) = replicate 16 0"
    by (simp_all add: rcv_inv_def unread_def segment_def sample_conf_def sample_conn_def PTCPConnection_def)
  then show ?thesis
    using pc_DoRecv_conserves_bytes [OF sample_recv_conf script_recv_ok script_new_ok script_stream_recv,
        of "sample_conn\<lparr>pc_writeidx := 16\<rparr>" "\<lparr>sw_out = [], sw_inp = [1, 2, 3], sw_limits = [9], sw_closed = []\<rparr>"]
    by auto
qed

definition app_frames :: "conf \<Rightarrow> u8 list list \<Rightarrow> u8 list list" where
  "app_frames cf gs = filter (\<lambda>g. \<not> is_heartbeat (ToLittleEndian cf) g) gs"

text \<open>C17: Receiving. Let the stream behind the complete frames \<open>fs\<close> of the buffer be the well-formed
  frames \<open>gs\<close>, in whatever pieces they arrive (\<open>future\<close> is what is still in flight), with
  acknowledgement numbers of at most the \<open>K\<close> messages this side has sent, or older ones. \<open>Front\<close> returns, keeps the sequence of
  application messages still to be delivered, and returns the null pointer only when no
  complete one is in the buffer. Otherwise it returns the 8-byte aligned address of the first of
  them, never of a heartbeat, with its header in host byte order, and \<open>Pop\<close> removes exactly this
  message and advances the acknowledgement number by one. The send queue loses exactly the
  messages the peer acknowledged.\<close>

theorem pc_Front_delivers_in_order:
  assumes "recv_conf cf" and "recv_ok os" and "new_ok os" and "stream_recv os inp" and "front_rel cf c fs t"
    and "t @ inp (pc_sockfd c) w @ future = concat gs" and "list_all (wf_frame cf) gs"
    and "pc_q c = Some q" and "ptcp_rel (TcpQueueSize cf) (ToLittleEndian cf) (HostLittle cf) q ms"
    and "K \<le> length ms" and "K < 2 ^ 31"
    and "unat (pq_read_idx q) + length (concat (take K ms)) \<le> unat (pq_send_idx q)"
    and "\<forall>g \<in> set gs. acks_upto (pq_read_seq_num q) K (hdr_ack_seq (wire_hdr (ToLittleEndian cf) g))"
  shows "\<exists>r c' w' fs' t' gs' q' j. pc_Front os cf c w = Some (r, c', w') \<and> front_rel cf c' fs' t' \<and>
    t' @ inp (pc_sockfd c) w' @ future = concat gs' \<and> app_frames cf (fs' @ gs') = app_frames cf (fs @ gs) \<and>
    pc_q c' = Some q' \<and> ptcp_rel (TcpQueueSize cf) (ToLittleEndian cf) (HostLittle cf) q' (drop j ms) \<and> j \<le> K \<and>
    unsent q' = unsent q \<and> pq_ack_seq_num q' = pq_ack_seq_num q \<and>
    (case r of
       None \<Rightarrow> fs' = []
     | Some i \<Rightarrow> 8 dvd unat i \<and>
         (\<exists>f rest c''. app_frames cf (fs @ gs) = f # rest \<and>
            segment (unat i) (unat i + length f) (pc_recvbuf c') = to_host cf f \<and>
            pc_Pop cf c' = Some c'' \<and> front_rel cf c'' (tl fs') t' \<and> app_frames cf (tl fs' @ gs') = rest \<and>
            pc_q c'' = Some (q'\<lparr>pq_ack_seq_num := pq_ack_seq_num q + 1\<rparr>)))"
proof -
  have "acked cf q ms K q" by (rule acked_start [OF assms(9-12)])
  then obtain c' w' fs' t' gs' q' where front: "pc_Front os cf c w = Some (if fs' = [] then None else Some (pc_readidx c'), c', w')"
    and rel: "front_rel cf c' fs' t'" and str: "t' @ inp (pc_sockfd c) w' @ future = concat gs'"
    and app: "app_frames cf (fs' @ gs') = app_frames cf (fs @ gs)"
    and first: "fs' \<noteq> [] \<Longrightarrow> \<not> is_heartbeat (ToLittleEndian cf) (hd fs')"
    and q': "pc_q c' = Some q'" "acked cf q ms K q'"
    by (rule pc_Front_spec [OF assms(1-8) _ assms(13)]) (simp_all add: app_frames_def)
  obtain j where j: "ptcp_rel (TcpQueueSize cf) (ToLittleEndian cf) (HostLittle cf) q' (drop j ms)" "j \<le> K"
    "unsent q' = unsent q" "pq_ack_seq_num q' = pq_ack_seq_num q"
    using q'(2) by (auto simp: acked_def)
  show ?thesis
  proof (cases fs')
    case Nil
    then show ?thesis using front rel str app q' j
      by (intro exI [of _ None] exI [of _ c'] exI [of _ w'] exI [of _ "[]"] exI [of _ t'] exI [of _ gs'] exI [of _ q'] exI [of _ j]) simp
  next
    case (Cons f fs'')
    have rel': "front_rel cf c' (f # fs'') t'" using rel Cons by simp
    obtain c'' where pop: "pc_Pop cf c' = Some c''" "front_rel cf c'' fs'' t'" "pc_q c'' = Some (ptcp_MyAck_incr q')"
      by (rule pc_Pop_spec [OF rel' q'(1)])
    have "app_frames cf (fs @ gs) = f # app_frames cf (fs'' @ gs')"
      using app [symmetric] first Cons by (simp add: app_frames_def)
    then show ?thesis
      using front rel' str app q' j pop Cons front_rel_first(3) [OF rel'] front_relD(2) [OF rel']
      by (intro exI [of _ "Some (pc_readidx c')"] exI [of _ c'] exI [of _ w'] exI [of _ "f # fs''"] exI [of _ t']
          exI [of _ gs'] exI [of _ q'] exI [of _ j]) (simp add: ptcp_MyAck_incr_def)
  qed
qed

text \<open>A heartbeat and a message of eleven bytes on the wire, little endian.\<close>

definition sample_frames :: "u8 list list" where
  "sample_frames = [[8, 0, 0, 0, 0, 0, 0, 0], [11, 0, 7, 0, 0, 0, 0, 0, 1, 2, 3, 0, 0, 0, 0, 0]]"

lemma sample_frames_wf: "list_all (wf_frame sample_conf) sample_frames"
  by (simp add: sample_frames_def wf_frame_def sample_conf_def frame_len_def is_heartbeat_def wire_hdr_def
      hdr_of_bytes_def mem_word_def blocks_def HeartbeatMsg_msg_type_def take_Cons' drop_Cons')

theorem pc_Front_delivers_in_order_witness:
  "\<exists>r c' w' fs' t' gs'. pc_Front script_os sample_conf sample_conn
      \<lparr>sw_out = [], sw_inp = take 20 (concat sample_frames), sw_limits = [20], sw_closed = []\<rparr> = Some (r, c', w') \<and>
     front_rel sample_conf c' fs' t' \<and> app_frames sample_conf (fs' @ gs') = app_frames sample_conf sample_frames"
proof -
  let ?w = "\<lparr>sw_out = [], sw_inp = take 20 (concat sample_frames), sw_limits = [20], sw_closed = []\<rparr>"
  have q: "pc_q sample_conn = Some (ptcp_zeroed 64)" by (simp add: sample_conn_def)
  have rel: "ptcp_rel (TcpQueueSize sample_conf) (ToLittleEndian sample_conf) (HostLittle sample_conf) (ptcp_zeroed 64) []"
    using ptcp_zeroed_rel [of 64 True False] by (simp add: sample_conf_def)
  have str: "[] @ sw_inp ?w @ drop 20 (concat sample_frames) = concat sample_frames" by simp
  have acks: "\<forall>g \<in> set sample_frames. acks_upto (pq_read_seq_num (ptcp_zeroed 64)) 0 (hdr_ack_seq (wire_hdr (ToLittleEndian sample_conf) g))"
    unfolding acks_upto_def
    by (intro ballI exI [of _ 0]) (auto simp: sample_frames_def wire_hdr_def hdr_of_bytes_def mem_word_def sample_conf_def ptcp_zeroed_def take_Cons' drop_Cons')
  have "unat (pq_read_idx (ptcp_zeroed 64)) + length (concat (take 0 ([] :: msg_header list list))) \<le> unat (pq_send_idx (ptcp_zeroed 64))"
    by (simp add: ptcp_zeroed_def)
  from pc_Front_delivers_in_order [OF sample_recv_conf script_recv_ok script_new_ok script_stream_recv sample_front_rel
      str sample_frames_wf q rel _ _ this acks]
  show ?thesis by fastforce
qed

text \<open>A header of size 0 behind \<open>nextmsg_idx_\<close>, on a host whose byte order is the wire's.\<close>

definition zero_sized_next :: "conf \<Rightarrow> ptcp_conn \<Rightarrow> bool" where
  "zero_sized_next cf c \<longleftrightarrow>
     ToLittleEndian cf = HostLittle cf \<and> 8 \<le> pc_writeidx c - pc_nextmsg_idx c \<and>
     (\<exists>h q. header_at (HostLittle cf) (pc_recvbuf c) (unat (pc_nextmsg_idx c)) = Some h \<and> hdr_size h = 0 \<and>
        pc_q c = Some q \<and> sdiff (hdr_ack_seq h) (pq_read_seq_num q) \<le> 0)"

lemma header_at_rewrite:
  assumes "header_at hl buf i = Some h"
  shows "take i buf @ hdr_bytes hl h @ drop (i + 8) buf = buf"
proof -
  have "hdr_bytes hl h = segment i (i + 8) buf" using assms by (simp add: header_at_def split: if_splits) (metis hdr_bytes_of_bytes length_segment add_diff_cancel_left')
  then show ?thesis by (simp add: segment_def) (metis add.commute append_take_drop_id drop_drop)
qed

lemma front_parse_zero_sized: "zero_sized_next cf c \<Longrightarrow> front_parse cf old c = None"
proof (rule ccontr)
  assume z: "zero_sized_next cf c" and "front_parse cf old c \<noteq> None"
  then obtain r where ret: "front_parse cf old c = Some r" by blast
  have "\<not> zero_sized_next cf c"
  proof (rule front_parse.raw_induct [where P = "\<lambda>cf old c r. \<not> zero_sized_next cf c", OF _ ret], goal_cases)
    case (1 f cf old c r)
    show ?case
    proof
      assume "zero_sized_next cf c"
      then obtain h q where h: "header_at (HostLittle cf) (pc_recvbuf c) (unat (pc_nextmsg_idx c)) = Some h"
        and z: "ToLittleEndian cf = HostLittle cf" "8 \<le> pc_writeidx c - pc_nextmsg_idx c" "hdr_size h = 0"
          "pc_q c = Some q" "sdiff (hdr_ack_seq h) (pq_read_seq_num q) \<le> 0"
        by (auto simp: zero_sized_next_def)
      have pad: "padded_size 0 = 0" by (simp add: padded_size_def)
      have same: "c\<lparr>pc_q := Some q\<rparr> = c"
        "pc_readidx c = pc_nextmsg_idx c \<Longrightarrow> c\<lparr>pc_readidx := pc_nextmsg_idx c\<rparr> = c"
        using z(4) by (cases c, simp)+
      have "f cf old c = Some r"
        using 1(2) h z header_at_rewrite [OF h] by (simp add: same Let_def ptcp_Ack_stale pad word_le_nat_alt split: if_splits)
      then show False using 1(1) \<open>zero_sized_next cf c\<close> by blast
    qed
  qed
  then show False using z by blast
qed

text \<open>C36: \<open>Front\<close> does not guard against a header of size 0. If what has been received behind
  \<open>nextmsg_idx_\<close> starts with a header whose size field is 0 (and which acknowledges nothing new), the loop
  makes no progress and \<open>Front\<close> does not return: eight bytes from a peer hang the thread that polls
  the connection. Stated for a host whose byte order is the wire's.\<close>

theorem pc_Front_hangs_on_zero_size:
  assumes "pc_q c = Some q" and "front_skip cf q c = Some (False, c1)" and "pc_DoRecv os cf c1 w = Some (len, c2, w2)"
    and "len \<noteq> 0" and "zero_sized_next cf (c2\<lparr>pc_writeidx := pc_writeidx c2 + word_of_int len\<rparr>)"
  shows "pc_Front os cf c w = None"
  using assms front_parse_zero_sized [OF assms(5)] by (simp add: pc_Front_def)

definition same_endian_conf :: conf where
  "same_endian_conf = sample_conf\<lparr>HostLittle := True\<rparr>"

theorem pc_Front_hangs_on_zero_size_witness:
  "pc_Front script_os same_endian_conf sample_conn
     \<lparr>sw_out = [], sw_inp = [0, 0, 7, 0, 0, 0, 0, 0], sw_limits = [20], sw_closed = []\<rparr> = None"
proof -
  let ?w = "\<lparr>sw_out = [], sw_inp = [0, 0, 7, 0, 0, 0, 0, 0], sw_limits = [20], sw_closed = []\<rparr>"
  have q: "pc_q sample_conn = Some (ptcp_zeroed 64)" by (simp add: sample_conn_def)
  have skip: "front_skip same_endian_conf (ptcp_zeroed 64) sample_conn = Some (False, sample_conn)"
    by (simp add: front_skip.simps sample_conn_def PTCPConnection_def)
  have conf: "recv_conf same_endian_conf" and inv: "rcv_inv same_endian_conf sample_conn"
    using sample_recv_conf sample_rcv_inv by (simp_all add: same_endian_conf_def recv_conf_def rcv_inv_def)
  let ?c2 = "sample_conn\<lparr>pc_recvbuf := [0, 0, 7, 0, 0, 0, 0, 0, 0, 0, 0, 0, 0, 0, 0, 0], pc_recv_time := 0\<rparr>"
  have recv: "pc_DoRecv script_os same_endian_conf sample_conn ?w = Some (8, ?c2, ?w\<lparr>sw_inp := [], sw_limits := []\<rparr>)"
    by code_simp
  have "header_at True (pc_recvbuf ?c2) 0 = Some \<lparr>hdr_size = 0, hdr_msg_type = 7, hdr_ack_seq = 0\<rparr>" by code_simp
  then have "zero_sized_next same_endian_conf (?c2\<lparr>pc_writeidx := pc_writeidx ?c2 + word_of_int 8\<rparr>)"
    unfolding zero_sized_next_def
    by (simp add: same_endian_conf_def sample_conf_def sample_conn_def PTCPConnection_def ptcp_zeroed_def)
  then show ?thesis by (intro pc_Front_hangs_on_zero_size [OF q skip recv]) simp_all
qed

end
