(* ===== verification/Ptcp_Send.thy ===== *)
theory Ptcp_Send
  imports Ptcp_Recv
begin

text \<open>
  The sending side of \<open>PTCPConnection\<close> (\<open>SendPending\<close>, \<open>SendHB\<close>) and the end of a connection
  (\<open>Close\<close>, \<open>TryCloseFd\<close>).
\<close>

section \<open>Sending\<close>

lemma and_7_eq_0: "(x :: u32) AND 7 = 0 \<longleftrightarrow> 8 dvd unat x"
proof -
  have "x AND 7 = take_bit 3 x" by (simp add: take_bit_eq_mask mask_eq_exp_minus_1)
  then have "unat (x AND 7) = unat x mod 8" by (simp add: take_bit_eq_mod unat_mod)
  then show ?thesis by (metis dvd_eq_mod_eq_0 unat_eq_zero)
qed

text \<open>
  The loop ends, and what it has handed to the socket is a prefix of the given bytes; it ends
  without an error only at a multiple of 8 or when everything is sent.
\<close>

lemma send_pending_loop_spec:
  assumes os: "send_ok os" "send_progress os" "stream_send os out"
  shows "unat sz \<le> length p \<Longrightarrow> 0 < sz \<Longrightarrow>
    \<exists>r w' k. send_pending_loop os fd p sz w = Some (r, w') \<and> k \<le> unat sz \<and> out fd w' = out fd w @ take k p \<and>
      (case r of Inl s \<Rightarrow> unat s = unat sz - k \<and> (8 dvd unat sz - k) | Inr err \<Rightarrow> True)"
proof (induction "unat sz" arbitrary: sz p w rule: less_induct)
  case less
  obtain ret w1 where call: "sys_send os fd (take (unat sz) p) w = (ret, w1)" by fastforce
  have ne: "take (unat sz) p \<noteq> []" using less.prems by (simp add: word_greater_zero_iff unat_eq_zero) (auto simp: unat_eq_zero)
  have lim: "ret \<le> int (unat sz)" "ret \<noteq> 0"
    using send_okD [OF os(1) call] send_progressD [OF os(2) call ne] less.prems(1) by simp_all
  have out1: "out fd w1 = out fd w @ take (nat ret) (take (unat sz) p)" by (rule stream_sendD [OF os(3) call])
  show ?case
  proof (cases "ret < 0")
    case True
    let ?err = "tcp_get_last_error os w1"
    let ?r = "if ?err \<noteq> TCP_ERR_AGAIN \<or> sz AND 7 \<noteq> 0 then Inr ?err else Inl sz"
    have "send_pending_loop os fd p sz w = Some (?r, w1)"
      using less.prems(1) call True by (simp add: send_pending_loop.simps tcp_send_def Let_def)
    moreover have "case ?r of Inl s \<Rightarrow> unat s = unat sz - 0 \<and> 8 dvd unat sz - 0 | Inr err \<Rightarrow> True"
      by (simp add: and_7_eq_0)
    ultimately show ?thesis using out1 True by (intro exI [of _ ?r] exI [of _ w1] exI [of _ 0]) simp
  next
    case False
    then have pos: "0 < nat ret" and le: "nat ret \<le> unat sz" using lim by linarith+
    let ?sz = "sz - word_of_int ret"
    have uret: "unat (word_of_int ret :: u32) = nat ret"
      using False le unat_u32_less [of sz] by (intro unat_of_int_small) simp_all
    then have usz: "unat ?sz = unat sz - nat ret" using le by (subst unat_sub_exact) simp_all
    have take: "take (nat ret) (take (unat sz) p) = take (nat ret) p" using le by (simp add: min_absorb1)
    have step: "send_pending_loop os fd p sz w
        = (if 0 < ?sz then send_pending_loop os fd (drop (nat ret) p) ?sz w1 else Some (Inl ?sz, w1))"
      using less.prems(1) call False by (simp add: send_pending_loop.simps [of os fd p sz w] tcp_send_def Let_def)
    show ?thesis
    proof (cases "0 < ?sz")
      case True
      have smaller: "unat ?sz < unat sz" using usz pos le by linarith
      have "unat ?sz \<le> length (drop (nat ret) p)" using usz less.prems(1) by simp
      from less.hyps [OF smaller this True, of w1] obtain r w' k
        where IH: "send_pending_loop os fd (drop (nat ret) p) ?sz w1 = Some (r, w')" "k \<le> unat ?sz"
          "out fd w' = out fd w1 @ take k (drop (nat ret) p)"
          "case r of Inl s \<Rightarrow> unat s = unat ?sz - k \<and> 8 dvd unat ?sz - k | Inr err \<Rightarrow> True" by blast
      have "out fd w' = out fd w @ take (nat ret + k) p" using IH(3) out1 take by (simp add: take_add)
      moreover have "case r of Inl s \<Rightarrow> unat s = unat sz - (nat ret + k) \<and> 8 dvd unat sz - (nat ret + k) | Inr err \<Rightarrow> True"
        using IH(4) usz by (simp add: diff_diff_left split: sum.splits)
      ultimately show ?thesis using step True IH(1,2) usz le
        by (intro exI [of _ r] exI [of _ w'] exI [of _ "nat ret + k"]) simp
    next
      case False
      then have z: "?sz = 0" by (simp add: word_greater_zero_iff)
      then have "nat ret = unat sz" using usz le by simp
      then show ?thesis using step False out1 take z
        by (intro exI [of _ "Inl 0"] exI [of _ w1] exI [of _ "unat sz"]) simp
    qed
  qed
qed

text \<open>\<open>SendPending\<close> of a well-formed queue.\<close>

lemma pc_SendPending_spec:
  assumes os: "send_ok os" "send_progress os" "stream_send os out"
    and q: "pc_q c = Some q" "ptcp_rel (TcpQueueSize cf) wl hl q ms" and live: "\<not> pc_IsClosed c"
    and ne: "unsent q \<noteq> []"
  obtains ok c' w' k where "pc_SendPending os cf c w = Some (ok, c', w')"
    and "out (pc_sockfd c) w' = out (pc_sockfd c) w @ take k (cells_bytes (HostLittle cf) (unsent q))"
    and "k \<le> 8 * length (unsent q)"
    and "ok \<Longrightarrow> 8 dvd k \<and> pc_sockfd c' = pc_sockfd c \<and>
           (\<exists>q'. pc_q c' = Some q' \<and> ptcp_rel (TcpQueueSize cf) wl hl q' ms \<and> unsent q' = drop (k div 8) (unsent q) \<and>
              pq_read_seq_num q' = pq_read_seq_num q \<and> pq_ack_seq_num q' = pq_ack_seq_num q)"
    and "\<not> ok \<Longrightarrow> pc_IsClosed c' \<and> pc_q c' = Some q"
proof -
  note R = ptcp_relD [OF q(2)] and G = ptcp_GetSendable_unsent [OF q(2)]
  let ?n = "length (unsent q)" and ?hl = "HostLittle cf"
  let ?p = "cells_bytes ?hl (drop (unat (pq_send_idx q)) (pq_blk q))" and ?sz = "word_of_int (int ?n * 8) :: u32"
  have bound: "?n \<le> unat (PTCP_BLK_CNT (TcpQueueSize cf))" using R by (simp add: unsent_def)
  have small: "?n < 2 ^ 29" using bound PTCP_BLK_CNT_bound [of "TcpQueueSize cf"] by linarith
  have usz: "unat ?sz = 8 * ?n" using small by (subst unat_of_int_small) (simp_all add: nat_mult_distrib)
  have pref: "take (8 * ?n) ?p = cells_bytes ?hl (unsent q)"
    using R by (simp add: unsent_def segment_def cells_bytes_take [symmetric])
  have "0 < unat ?sz" unfolding usz using ne by simp
  then have "0 < ?sz" by (simp only: word_less_nat_alt unat_0)
  moreover have "unat ?sz \<le> length ?p" unfolding usz using R by (simp add: unsent_def)
  ultimately have "unat ?sz \<le> length ?p" "0 < ?sz" by blast+
  from send_pending_loop_spec [OF os this, of "pc_sockfd c" w] obtain r w' k
    where loop: "send_pending_loop os (pc_sockfd c) ?p ?sz w = Some (r, w')" and k: "k \<le> 8 * ?n"
      and out: "out (pc_sockfd c) w' = out (pc_sockfd c) w @ take k ?p"
      and r: "case r of Inl s \<Rightarrow> unat s = 8 * ?n - k \<and> 8 dvd 8 * ?n - k | Inr err \<Rightarrow> True"
    unfolding usz by blast
  have out': "out (pc_sockfd c) w' = out (pc_sockfd c) w @ take k (cells_bytes ?hl (unsent q))"
    using out k unfolding pref [symmetric] by (simp add: min_absorb1)
  show ?thesis
  proof (cases r)
    case (Inr err)
    let ?c = "pc_Close ''Send error'' err c"
    have "pc_SendPending os cf c w = Some (False, ?c, w')"
      using live q(1) G ne loop Inr by (simp add: pc_SendPending_def)
    moreover have "pc_IsClosed ?c \<and> pc_q ?c = Some q" using q(1) by (simp add: pc_Close_def pc_IsClosed_def)
    ultimately show ?thesis using that [of False ?c w' k] out' k by simp
  next
    case (Inl s)
    then have s: "unat s = 8 * ?n - k" "8 dvd 8 * ?n - k" using r by simp_all
    then have k8: "8 dvd k" using k by (metis dvd_diffD1 dvd_triv_left)
    then have "(8 * ?n - k) div 8 = ?n - k div 8" using k by (auto elim!: dvdE)
    then have u: "unat (drop_bit 3 s) = ?n - k div 8" using s(1) by (simp add: drop_bit_eq_div unat_div)
    have n: "unat (word_of_int (int ?n) :: u32) = ?n" using small by (simp add: unat_of_nat_exact)
    have "unat (word_of_int (int ?n) - drop_bit 3 s) = k div 8"
      using n u k by (subst unat_sub_exact) simp_all
    then have sent: "sint (word_of_int (int ?n) - drop_bit 3 s) = int (k div 8)"
      using k small by (subst sint_small_u32) simp_all
    let ?q = "ptcp_Sendout (int (k div 8)) q"
    let ?c = "if 0 < k div 8 then c\<lparr>pc_send_time := pc_now c, pc_q := Some ?q\<rparr> else c"
    have "pc_SendPending os cf c w = Some (True, ?c, w')"
      using live q(1) G ne loop Inl sent by (simp add: pc_SendPending_def Let_def)
    moreover have "k div 8 \<le> ?n" using k by simp
    note S = ptcp_Sendout_rel [OF q(2) this]
    have "8 dvd k \<and> pc_sockfd ?c = pc_sockfd c \<and>
           (\<exists>q'. pc_q ?c = Some q' \<and> ptcp_rel (TcpQueueSize cf) wl hl q' ms \<and> unsent q' = drop (k div 8) (unsent q) \<and>
              pq_read_seq_num q' = pq_read_seq_num q \<and> pq_ack_seq_num q' = pq_ack_seq_num q)"
      using k8 q S by (cases "0 < k div 8") (simp_all add: ptcp_Sendout_def)
    ultimately show ?thesis using that [of True ?c w' k] out' k by simp
  qed
qed

text \<open>The heartbeat message as the constructor sets it up; only its acknowledgement number changes.\<close>

definition hb_inv :: "conf \<Rightarrow> ptcp_conn \<Rightarrow> bool" where
  "hb_inv cf c \<longleftrightarrow> (\<exists>a. pc_hbmsg c = ConvertByteOrder (ToLittleEndian cf) (HostLittle cf)
     \<lparr>hdr_size = 8, hdr_msg_type = HeartbeatMsg_msg_type, hdr_ack_seq = a\<rparr>)"

lemma hb_inv_init: "hb_inv cf (PTCPConnection cf)"
  by (auto simp: hb_inv_def PTCPConnection_def)

lemma hb_inv_set_ack:
  "hb_inv cf c \<Longrightarrow> (pc_hbmsg c)\<lparr>hdr_ack_seq := Convert (ToLittleEndian cf) (HostLittle cf) a\<rparr>
     = ConvertByteOrder (ToLittleEndian cf) (HostLittle cf) \<lparr>hdr_size = 8, hdr_msg_type = HeartbeatMsg_msg_type, hdr_ack_seq = a\<rparr>"
  by (auto simp: hb_inv_def ConvertByteOrder_def)

section \<open>Closing\<close>

text \<open>The operations that close a connection, in any order; the log of the scripted kernel has the closed descriptors.\<close>

datatype close_op = Op_Close string int | Op_TryCloseFd

fun close_run :: "close_op list \<Rightarrow> ptcp_conn \<Rightarrow> script_world \<Rightarrow> ptcp_conn \<times> script_world" where
  "close_run [] c w = (c, w)"
| "close_run (Op_Close r e # ops) c w = close_run ops (pc_Close r e c) w"
| "close_run (Op_TryCloseFd # ops) c w = (case pc_TryCloseFd script_os c w of (_, c', w') \<Rightarrow> close_run ops c' w')"

lemma close_run_open:
  "pc_sockfd c \<noteq> INVALID_TCP_SOCKET \<Longrightarrow> set ops \<subseteq> {Op_TryCloseFd} \<Longrightarrow> close_run (ops @ ops') c w = close_run ops' c w"
  by (induction ops) (auto simp: pc_TryCloseFd_def)

lemma close_run_closed:
  "pc_sockfd c = INVALID_TCP_SOCKET \<Longrightarrow> fd = pc_fd_to_close c \<Longrightarrow>
   close_run ops c w = (if Op_TryCloseFd \<in> set ops \<and> fd \<noteq> INVALID_TCP_SOCKET
     then (c\<lparr>pc_fd_to_close := INVALID_TCP_SOCKET\<rparr>, w\<lparr>sw_closed := sw_closed w @ [fd]\<rparr>) else (c, w))"
proof (induction ops arbitrary: c w fd)
  case (Cons op ops)
  show ?case
  proof (cases op)
    case (Op_Close r e)
    then show ?thesis using Cons by (simp add: pc_Close_def)
  next
    case Op_TryCloseFd
    show ?thesis
    proof (cases "fd = INVALID_TCP_SOCKET")
      case True
      then show ?thesis using Op_TryCloseFd Cons.prems Cons.IH [OF Cons.prems] by (simp add: pc_TryCloseFd_def)
    next
      case False
      let ?c = "c\<lparr>pc_fd_to_close := INVALID_TCP_SOCKET\<rparr>" and ?w = "w\<lparr>sw_closed := sw_closed w @ [fd]\<rparr>"
      have "close_run ops ?c ?w = (?c, ?w)" using Cons.IH [of ?c INVALID_TCP_SOCKET ?w] Cons.prems by simp
      then show ?thesis using Op_TryCloseFd False Cons.prems by (simp add: pc_TryCloseFd_def tcp_close_def script_os_def)
    qed
  qed
qed simp

section \<open>Properties\<close>

text \<open>C19: Sending. \<open>SendPending\<close> on an open connection returns for every way in which the kernel splits,
  delays or refuses the transfer. It puts a prefix of the unsent cells of the queue on the
  stream; when it reports success the prefix is a whole number of cells and \<open>send_idx_\<close> has
  advanced by exactly that number, otherwise the connection is closed and the queue unchanged,
  so that a later login resends from a message boundary. It reports that nothing is pending
  exactly when nothing is unsent.\<close>

theorem pc_SendPending_sends_prefix:
  assumes "send_ok os" and "send_progress os" and "stream_send os out" and "pc_q c = Some q"
    and "ptcp_rel (TcpQueueSize cf) wl hl q ms" and "\<not> pc_IsClosed c"
  shows "\<exists>ok c' w' k. pc_SendPending os cf c w = Some (ok, c', w') \<and> k \<le> 8 * length (unsent q) \<and>
           out (pc_sockfd c) w' = out (pc_sockfd c) w @ take k (cells_bytes (HostLittle cf) (unsent q)) \<and>
           (if ok then 8 dvd k \<and> pc_sockfd c' = pc_sockfd c \<and>
                (\<exists>q'. pc_q c' = Some q' \<and> ptcp_rel (TcpQueueSize cf) wl hl q' ms \<and> unsent q' = drop (k div 8) (unsent q))
            else pc_q c' = Some q \<and> (unsent q = [] \<and> c' = c \<or> unsent q \<noteq> [] \<and> pc_IsClosed c'))"
proof (cases "unsent q = []")
  case True
  have "pc_SendPending os cf c w = Some (False, c, w)"
    using assms(4,6) ptcp_GetSendable_unsent [OF assms(5)] True by (simp add: pc_SendPending_def)
  then show ?thesis using True assms(4)
    by (intro exI [of _ False] exI [of _ c] exI [of _ w] exI [of _ 0]) simp
next
  case False
  show ?thesis
    by (rule pc_SendPending_spec [OF assms(1-6) False, of w]) (use False in \<open>auto split: if_splits\<close>)
qed

theorem pc_SendPending_sends_prefix_witness:
  "\<exists>ok c' w' k. pc_SendPending script_os (sample_conf\<lparr>TcpQueueSize := 32\<rparr>) (sample_conn\<lparr>pc_q := Some (sample_queue\<lparr>pq_send_idx := 0\<rparr>)\<rparr>)
       \<lparr>sw_out = [9], sw_inp = [], sw_limits = [8], sw_closed = []\<rparr> = Some (ok, c', w') \<and> k \<le> 16 \<and>
     sw_out w' = [9] @ take k (cells_bytes False sample_msg)"
proof -
  let ?q = "sample_queue\<lparr>pq_send_idx := 0\<rparr>" and ?cf = "sample_conf\<lparr>TcpQueueSize := 32\<rparr>"
  have rel: "ptcp_rel (TcpQueueSize ?cf) True True ?q [sample_msg]"
    using sample_queue_rel by (simp add: ptcp_rel_def sample_queue_def sample_conf_def)
  have un: "unsent ?q = sample_msg" by (simp add: unsent_def sample_queue_def sample_msg_def segment_def)
  have q: "pc_q (sample_conn\<lparr>pc_q := Some ?q\<rparr>) = Some ?q" and live: "\<not> pc_IsClosed (sample_conn\<lparr>pc_q := Some ?q\<rparr>)"
    by (simp_all add: pc_IsClosed_def sample_conn_def INVALID_TCP_SOCKET_def)
  show ?thesis
    using pc_SendPending_sends_prefix [OF script_send_ok script_send_progress script_stream_send q rel live,
        of "\<lparr>sw_out = [9], sw_inp = [], sw_limits = [8], sw_closed = []\<rparr>"]
    unfolding un by (fastforce simp: sample_msg_def sample_conf_def)
qed

text \<open>Heartbeats. When the queue has nothing unsent, \<open>SendHB\<close> sends nothing before the heartbeat
  interval has passed since the last send; after it, it puts (a prefix of) one heartbeat frame on
  the stream, in wire byte order and with this side's acknowledgement number. It records the
  send time only if the whole frame went out, keeps the connection unchanged if the socket would
  block, and closes it otherwise.\<close>

theorem pc_SendHB_idle:
  assumes "send_ok os" and "stream_send os out" and "pc_q c = Some q"
    and "ptcp_rel (TcpQueueSize cf) wl hl q ms" and "unsent q = []" and "hb_inv cf c"
  shows "\<exists>c' w' k. pc_SendHB os cf now c w = Some (c', w') \<and> hb_inv cf c' \<and> pc_q c' = Some q \<and> k \<le> 8 \<and>
     out (pc_sockfd c) w' = out (pc_sockfd c) w @ take k (hdr_bytes (ToLittleEndian cf)
         \<lparr>hdr_size = 8, hdr_msg_type = HeartbeatMsg_msg_type, hdr_ack_seq = pq_ack_seq_num q\<rparr>) \<and>
     (now - pc_send_time c < HeartBeatInverval cf \<longrightarrow> k = 0 \<and> c' = c\<lparr>pc_now := now\<rparr>) \<and>
     (HeartBeatInverval cf \<le> now - pc_send_time c \<longrightarrow>
        (if k = 8 then pc_send_time c' = now \<and> pc_sockfd c' = pc_sockfd c
         else pc_send_time c' = pc_send_time c \<and> (pc_IsClosed c' \<or> k = 0 \<and> pc_sockfd c' = pc_sockfd c)))"
proof (cases "now - pc_send_time c < HeartBeatInverval cf")
  case True
  then have "pc_SendHB os cf now c w = Some (c\<lparr>pc_now := now\<rparr>, w)" by (simp add: pc_SendHB_def)
  then show ?thesis using True assms(3,6)
    by (intro exI [of _ "c\<lparr>pc_now := now\<rparr>"] exI [of _ w] exI [of _ 0]) (simp add: hb_inv_def)
next
  case False
  let ?wl = "ToLittleEndian cf" and ?hl = "HostLittle cf"
  let ?h = "\<lparr>hdr_size = 8, hdr_msg_type = HeartbeatMsg_msg_type, hdr_ack_seq = pq_ack_seq_num q\<rparr>"
  let ?c = "c\<lparr>pc_now := now, pc_hbmsg := ConvertByteOrder ?wl ?hl ?h\<rparr>"
  have idle: "pc_SendPending os cf (c\<lparr>pc_now := now\<rparr>) w = Some (False, c\<lparr>pc_now := now\<rparr>, w)"
    using assms(3,5) ptcp_GetSendable_unsent [OF assms(4)] by (simp add: pc_SendPending_def)
  have hb: "pc_SendHB os cf now c w = Some (send_heartbeat os cf ?c w)"
    using False assms(3) idle hb_inv_set_ack [OF assms(6), of "pq_ack_seq_num q"]
    by (simp add: pc_SendHB_def ptcp_MyAck_def)
  obtain sent w1 where call: "sys_send os (pc_sockfd c) (hdr_bytes ?wl ?h) w = (sent, w1)" by fastforce
  have lim: "sent \<le> 8" using send_okD [OF assms(1) call] by simp
  have out: "out (pc_sockfd c) w1 = out (pc_sockfd c) w @ take (nat sent) (hdr_bytes ?wl ?h)" by (rule stream_sendD [OF assms(2) call])
  let ?c' = "if sent < 0 \<and> tcp_get_last_error os w1 = TCP_ERR_AGAIN then ?c
    else if sent \<noteq> 8 then pc_Close ''Send error'' (if sent < 0 then tcp_get_last_error os w1 else 0) ?c
    else ?c\<lparr>pc_send_time := now\<rparr>"
  have "send_heartbeat os cf ?c w = (?c', w1)"
    using call by (simp add: send_heartbeat_def tcp_send_def hdr_bytes_Convert sizeof_MsgHeader_def)
  moreover have "hb_inv cf ?c'" and "pc_q ?c' = Some q"
    using assms(3) by (auto simp: hb_inv_def pc_Close_def)
  moreover have "if nat sent = 8 then pc_send_time ?c' = now \<and> pc_sockfd ?c' = pc_sockfd c
         else pc_send_time ?c' = pc_send_time c \<and> (pc_IsClosed ?c' \<or> nat sent = 0 \<and> pc_sockfd ?c' = pc_sockfd c)"
    by (auto simp: pc_Close_def pc_IsClosed_def)
  ultimately show ?thesis using hb out lim False
    by (intro exI [of _ ?c'] exI [of _ w1] exI [of _ "nat sent"]) (simp add: nat_le_iff)
qed

theorem pc_SendHB_idle_witness:
  "\<exists>c' w' k. pc_SendHB script_os sample_conf 5 sample_conn
       \<lparr>sw_out = [], sw_inp = [], sw_limits = [20], sw_closed = []\<rparr> = Some (c', w') \<and> k \<le> 8 \<and>
     sw_out w' = take k [8, 0, 0, 0, 0, 0, 0, 0]"
proof -
  have q: "pc_q sample_conn = Some (ptcp_zeroed 64)" by (simp add: sample_conn_def)
  have rel: "ptcp_rel (TcpQueueSize sample_conf) True False (ptcp_zeroed 64) []"
    using ptcp_zeroed_rel [of 64 True False] by (simp add: sample_conf_def)
  have un: "unsent (ptcp_zeroed 64) = []" by (simp add: unsent_def ptcp_zeroed_def)
  have hb: "hb_inv sample_conf sample_conn"
    using hb_inv_init [of sample_conf] by (simp add: hb_inv_def sample_conn_def)
  have bytes: "hdr_bytes (ToLittleEndian sample_conf)
      \<lparr>hdr_size = 8, hdr_msg_type = HeartbeatMsg_msg_type, hdr_ack_seq = pq_ack_seq_num (ptcp_zeroed 64)\<rparr> = [8, 0, 0, 0, 0, 0, 0, 0]"
    by code_simp
  show ?thesis
    using pc_SendHB_idle [OF script_send_ok script_stream_send q rel un hb, of 5
        "\<lparr>sw_out = [], sw_inp = [], sw_limits = [20], sw_closed = []\<rparr>"]
    unfolding bytes by (elim exE conjE, intro exI conjI) (assumption, assumption, simp)
qed

text \<open>C20: A socket is closed once. From an open connection, in any sequence of \<open>Close\<close> (by the user, by an
  error or by a timeout) and \<open>TryCloseFd\<close>, the descriptor is closed exactly once if \<open>TryCloseFd\<close> is
  called after the first \<open>Close\<close>, and never otherwise; the reported reason is the first one.\<close>

theorem pc_fd_closed_once:
  assumes "pc_sockfd c = fd" and "pc_fd_to_close c = fd" and "fd \<noteq> INVALID_TCP_SOCKET" and "set pre \<subseteq> {Op_TryCloseFd}"
  shows "case close_run (pre @ Op_Close r e # post) c w of (c', w') \<Rightarrow>
           pc_GetCloseReason c' = (r, e) \<and> pc_IsClosed c' \<and>
           sw_closed w' = sw_closed w @ (if Op_TryCloseFd \<in> set post then [fd] else [])"
proof -
  let ?c = "pc_Close r e c"
  have "close_run (pre @ Op_Close r e # post) c w = close_run post ?c w"
    using close_run_open [of c pre] assms by simp
  moreover have "pc_sockfd ?c = INVALID_TCP_SOCKET" "fd = pc_fd_to_close ?c" "pc_GetCloseReason ?c = (r, e)"
    using assms by (simp_all add: pc_Close_def pc_GetCloseReason_def)
  ultimately show ?thesis
    using close_run_closed [of ?c fd post w] assms(3) by (simp add: pc_IsClosed_def pc_GetCloseReason_def)
qed

theorem pc_fd_closed_once_witness:
  "case close_run ([Op_TryCloseFd] @ Op_Close ''Timeout'' 0 # [Op_Close ''Release'' 0, Op_TryCloseFd, Op_TryCloseFd]) sample_conn
       \<lparr>sw_out = [], sw_inp = [], sw_limits = [], sw_closed = []\<rparr> of (c', w') \<Rightarrow>
     pc_GetCloseReason c' = (''Timeout'', 0) \<and> pc_IsClosed c' \<and> sw_closed w' = [5]"
  using pc_fd_closed_once [where c = sample_conn and fd = 5 and pre = "[Op_TryCloseFd]"
      and r = "''Timeout''" and e = 0 and post = "[Op_Close ''Release'' 0, Op_TryCloseFd, Op_TryCloseFd]"
      and w = "\<lparr>sw_out = [], sw_inp = [], sw_limits = [], sw_closed = []\<rparr>"]
  by (simp add: sample_conn_def INVALID_TCP_SOCKET_def)

end
