(* ===== verification/Spsc_Varq.thy ===== *)
theory Spsc_Varq
  imports Stored_Message Queue_Interface
begin

text \<open>
  The shared-memory queue: the class \<open>SPSCVarQueue\<close> of \<^verbatim>\<open>spsc_varq.h\<close>, a ring of 64-byte blocks
  written by one thread and read by another. A message occupies consecutive blocks and never wraps
  around the end of the ring: when it does not fit behind the write position, \<open>Alloc\<close> puts a header
  of size 0 there (the rewind marker) and continues at the start of the ring.

  The array is modelled as 8-byte cells, eight to a block, with the header of block \<open>i\<close> in cell
  \<open>8 * i\<close>. The indices are the 32-bit counters of the source; they are only ever increased and
  wrap modulo \<open>2\<^sup>3\<^sup>2\<close>. The invariant \<open>spsc_rel\<close> relates them to unbounded positions \<open>R \<le> W\<close>
  and the ring to the list of messages between them, which \<open>ring_parse\<close> computes.

  This theory has the operations as a whole; \<^verbatim>\<open>Spsc_Concurrent\<close> interleaves their single accesses.
\<close>

section \<open>The class\<close>

record varq =
  vq_blk :: "msg_header list"
  vq_write_idx :: u32
  vq_read_idx_cach :: u32
  vq_read_idx :: u32

definition SHM_BLK_CNT :: "u32 \<Rightarrow> u32" where
  "SHM_BLK_CNT Bytes = Bytes div 64"

text \<open>The cell of the header of the block that an index designates.\<close>

definition hdr_cell :: "u32 \<Rightarrow> u32 \<Rightarrow> nat" where
  "hdr_cell Bytes idx = 8 * unat (idx mod SHM_BLK_CNT Bytes)"

definition set_hdr_size :: "nat \<Rightarrow> u16 \<Rightarrow> msg_header list \<Rightarrow> msg_header list option" where
  "set_hdr_size i sz cs = do {
     header \<leftarrow> array_get cs i;
     array_set cs i (header\<lparr>hdr_size := sz\<rparr>)
   }"

definition get_hdr_size :: "nat \<Rightarrow> msg_header list \<Rightarrow> u16 option" where
  "get_hdr_size i cs = do { header \<leftarrow> array_get cs i; Some (hdr_size header) }"

definition padding_sz :: "u32 \<Rightarrow> u32 \<Rightarrow> u32" where
  "padding_sz Bytes idx = SHM_BLK_CNT Bytes - idx mod SHM_BLK_CNT Bytes"

text \<open>\<open>(size + sizeof(Block) - 1) / sizeof(Block)\<close>\<close>

definition blk_sz :: "u16 \<Rightarrow> u32" where
  "blk_sz sz = word_of_nat (blocks 64 (unat sz))"

text \<open>The part of \<open>Alloc\<close> behind the space check; \<open>Some i\<close> is the address of the header cell \<open>i\<close>.\<close>

definition spsc_reserve :: "u32 \<Rightarrow> u16 \<Rightarrow> bool \<Rightarrow> varq \<Rightarrow> (varq \<times> nat option) option" where
  "spsc_reserve Bytes sz rewind q = do {
     q1 \<leftarrow> (if rewind
            then do {
              b \<leftarrow> set_hdr_size (hdr_cell Bytes (vq_write_idx q)) 0 (vq_blk q);
              Some (q\<lparr>vq_blk := b, vq_write_idx := vq_write_idx q + padding_sz Bytes (vq_write_idx q)\<rparr>)
            }
            else Some q);
     b \<leftarrow> set_hdr_size (hdr_cell Bytes (vq_write_idx q1)) sz (vq_blk q1);
     Some (q1\<lparr>vq_blk := b\<rparr>, Some (hdr_cell Bytes (vq_write_idx q1)))
   }"

definition spsc_Alloc :: "u32 \<Rightarrow> u16 \<Rightarrow> varq \<Rightarrow> (varq \<times> nat option) option" where
  "spsc_Alloc Bytes sz0 q =
     (let sz = sz0 + 8;
          w = vq_write_idx q;
          rewind = padding_sz Bytes w < blk_sz sz;
          min_read_idx = w + blk_sz sz + (if rewind then padding_sz Bytes w else 0) - SHM_BLK_CNT Bytes
      in if sdiff (vq_read_idx_cach q) min_read_idx < 0
         then let q' = q\<lparr>vq_read_idx_cach := vq_read_idx q\<rparr>
              in if sdiff (vq_read_idx_cach q') min_read_idx < 0 then Some (q', None)
                 else spsc_reserve Bytes sz rewind q'
         else spsc_reserve Bytes sz rewind q)"

definition spsc_Push :: "u32 \<Rightarrow> varq \<Rightarrow> varq option" where
  "spsc_Push Bytes q = do {
     sz \<leftarrow> get_hdr_size (hdr_cell Bytes (vq_write_idx q)) (vq_blk q);
     Some (q\<lparr>vq_write_idx := vq_write_idx q + blk_sz sz\<rparr>)
   }"

definition spsc_Front :: "u32 \<Rightarrow> varq \<Rightarrow> (varq \<times> nat option) option" where
  "spsc_Front Bytes q =
     (let r = vq_read_idx q
      in if r = vq_write_idx q then Some (q, None)
         else do {
           sz \<leftarrow> get_hdr_size (hdr_cell Bytes r) (vq_blk q);
           if sz = 0
           then let r' = r + padding_sz Bytes r; q' = q\<lparr>vq_read_idx := r'\<rparr>
                in if r' = vq_write_idx q then Some (q', None)
                   else Some (q', Some (hdr_cell Bytes r'))
           else Some (q, Some (hdr_cell Bytes r))
         })"

definition spsc_Pop :: "u32 \<Rightarrow> varq \<Rightarrow> varq option" where
  "spsc_Pop Bytes q = do {
     sz \<leftarrow> get_hdr_size (hdr_cell Bytes (vq_read_idx q)) (vq_blk q);
     Some (q\<lparr>vq_read_idx := vq_read_idx q + blk_sz sz\<rparr>)
   }"

text \<open>A zero-filled segment: a fresh shared-memory file, and \<open>TcpShmConnection::Reset\<close>.\<close>

definition spsc_zeroed :: "u32 \<Rightarrow> varq" where
  "spsc_zeroed Bytes =
     \<lparr>vq_blk = replicate (8 * unat (SHM_BLK_CNT Bytes)) zero_header,
      vq_write_idx = 0, vq_read_idx_cach = 0, vq_read_idx = 0\<rparr>"

text \<open>An application's write through this queue; \<open>False\<close> when \<open>Alloc\<close> returned the null pointer.\<close>

definition spsc_send :: "u32 \<Rightarrow> bool \<Rightarrow> u16 \<Rightarrow> u8 list \<Rightarrow> varq \<Rightarrow> (varq \<times> bool) option" where
  "spsc_send Bytes IsLittle mt body q = do {
     (q1, p) \<leftarrow> spsc_Alloc Bytes (word_of_nat (length body)) q;
     (case p of
        None \<Rightarrow> Some (q1, False)
      | Some i \<Rightarrow> do {
          b \<leftarrow> fill_msg IsLittle i mt body (vq_blk q1);
          q2 \<leftarrow> spsc_Push Bytes (q1\<lparr>vq_blk := b\<rparr>);
          Some (q2, True)
        })
   }"

text \<open>What the reader finds behind the address \<open>Front\<close> returned: the cells of the message.\<close>

definition msg_at :: "nat \<Rightarrow> msg_header list \<Rightarrow> msg_header list" where
  "msg_at i cs = segment i (i + blocks 8 (unat (hdr_size (cs ! i)))) cs"

definition spsc_front_msg :: "u32 \<Rightarrow> varq \<Rightarrow> (varq \<times> msg_header list option) option" where
  "spsc_front_msg Bytes q = do {
     (q', p) \<leftarrow> spsc_Front Bytes q;
     Some (q', map_option (\<lambda>i. msg_at i (vq_blk q')) p)
   }"

section \<open>The messages in the ring\<close>

text \<open>The start of the next round of the ring, where a rewind continues.\<close>

definition next_lap :: "nat \<Rightarrow> nat \<Rightarrow> nat" where
  "next_lap N R = R + (N - R mod N)"

lemma next_lap_bounds: "0 < N \<Longrightarrow> R < next_lap N R" "next_lap N R \<le> R + N"
  unfolding next_lap_def using mod_less_divisor [of N R] by linarith+

lemma next_lap_mod [simp]: "0 < N \<Longrightarrow> next_lap N R mod N = 0"
proof -
  assume "0 < N"
  then have "next_lap N R = R - R mod N + N" by (simp add: next_lap_def)
  then show ?thesis by (simp add: minus_mod_eq_mult_div)
qed

text \<open>
  The messages between two positions, from the headers in the ring; \<open>None\<close> when they do not add
  up. A marker is never at the start of a round: \<open>Alloc\<close> writes one only when the message does not
  fit in the rest of the round, and a message that does not fit in a whole round is refused. So the
  reader skips at most one.
\<close>

function ring_parse :: "nat \<Rightarrow> msg_header list \<Rightarrow> nat \<Rightarrow> nat \<Rightarrow> msg_header list list option" where
  "ring_parse N cs R W =
     (if R = W then Some []
      else if W < R \<or> N = 0 then None
      else let p = R mod N; sz = hdr_size (cs ! (8 * p)); b = blocks 64 (unat sz)
           in if sz = 0 then (if p = 0 then None else ring_parse N cs (next_lap N R) W)
              else if p + b \<le> N \<and> R + b \<le> W
                   then map_option (\<lambda>ms. msg_at (8 * p) cs # ms) (ring_parse N cs (R + b) W)
                   else None)"
  by pat_completeness auto
termination
proof (relation "measure (\<lambda>(N, cs, R, W). W - R)", goal_cases)
  case (2 N cs R W)
  then show ?case using next_lap_bounds(1) [of N R] by auto
next
  case (3 N cs R W p sz b)
  then have "0 < b" and "R + b \<le> W" by (simp_all add: unat_gt_0)
  then show ?case by simp
qed simp

declare ring_parse.simps [simp del]

lemma ring_parse_self [simp]: "ring_parse N cs W W = Some []"
  by (simp add: ring_parse.simps)

lemma ring_parse_le: "ring_parse N cs R W = Some ms \<Longrightarrow> R \<le> W"
  by (subst (asm) ring_parse.simps) (auto split: if_splits)

lemma ring_parse_pad:
  assumes "0 < N" and "R < W" and "hdr_size (cs ! (8 * (R mod N))) = 0" and "R mod N \<noteq> 0"
  shows "ring_parse N cs R W = ring_parse N cs (next_lap N R) W"
  using assms by (subst ring_parse.simps) (simp add: Let_def)

lemma ring_parse_msg:
  assumes "0 < N" and "sz = hdr_size (cs ! (8 * (R mod N)))" and "sz \<noteq> 0"
    and "R mod N + blocks 64 (unat sz) \<le> N" and "R + blocks 64 (unat sz) \<le> W"
  shows "ring_parse N cs R W
       = map_option (\<lambda>ms. msg_at (8 * (R mod N)) cs # ms) (ring_parse N cs (R + blocks 64 (unat sz)) W)"
proof -
  have "0 < blocks 64 (unat sz)" using assms(3) by (simp add: unat_gt_0)
  then have "R < W" using assms(5) by linarith
  then show ?thesis using assms by (subst ring_parse.simps) (simp add: Let_def)
qed

lemma ring_parse_padD:
  assumes "ring_parse N cs R W = Some ms" and "R < W" and "hdr_size (cs ! (8 * (R mod N))) = 0"
  shows "0 < N" and "R mod N \<noteq> 0" and "ring_parse N cs (next_lap N R) W = Some ms"
  using assms(1) assms(2,3) by (subst (asm) ring_parse.simps, auto simp: Let_def split: if_splits)+

text \<open>A message header at a position that is parsed: its size is not 0 and it does not wrap.\<close>

lemma ring_parse_msgD:
  assumes "ring_parse N cs R W = Some ms" and "R < W" and "sz = hdr_size (cs ! (8 * (R mod N)))" and "sz \<noteq> 0"
  shows "0 < N" and "R mod N + blocks 64 (unat sz) \<le> N" and "R + blocks 64 (unat sz) \<le> W"
    and "\<exists>ms'. ms = msg_at (8 * (R mod N)) cs # ms' \<and> ring_parse N cs (R + blocks 64 (unat sz)) W = Some ms'"
  using assms(1) assms(2-4)
  by (subst (asm) ring_parse.simps, auto simp: Let_def split: if_splits)+

text \<open>Positions less than \<open>N\<close> apart are in different blocks.\<close>

lemma mod_window: "k < j \<Longrightarrow> j < k + N \<Longrightarrow> k mod N \<noteq> j mod (N::nat)"
  by (metis add_diff_cancel_left' add_less_cancel_left dvd_imp_le less_imp_add_positive
      mod_eq_dvd_iff_nat less_imp_le_nat linorder_not_less)

lemma mod_add_inside: "k mod N + i < (N::nat) \<Longrightarrow> (k + i) mod N = k mod N + i"
  by (metis mod_add_left_eq mod_less)

text \<open>Parsing looks only at the blocks between the two positions.\<close>

lemma ring_parse_cong:
  assumes "\<And>k j. R \<le> k \<Longrightarrow> k < W \<Longrightarrow> j < 8 \<Longrightarrow> cs ! (8 * (k mod N) + j) = ds ! (8 * (k mod N) + j)"
    and "length cs = 8 * N" and "length ds = 8 * N"
  shows "ring_parse N cs R W = ring_parse N ds R W"
  using assms
proof (induction N cs R W rule: ring_parse.induct)
  case (1 N cs R W)
  let ?p = "R mod N"
  let ?sz = "hdr_size (cs ! (8 * ?p))" and ?b = "blocks 64 (unat (hdr_size (cs ! (8 * (R mod N)))))"
  show ?case
  proof (cases "R < W \<and> 0 < N")
    case False
    then show ?thesis by (auto simp: ring_parse.simps [of N cs R W] ring_parse.simps [of N ds R W])
  next
    case True
    then have RW: "R < W" and N: "0 < N" by simp_all
    have hdr: "cs ! (8 * ?p) = ds ! (8 * ?p)" using "1.prems"(1) [of R 0] RW by simp
    show ?thesis
    proof (cases "?sz = 0")
      case True
      show ?thesis
      proof (cases "?p = 0")
        case start: True
        then show ?thesis
          using RW N True hdr by (simp add: ring_parse.simps [of N cs R W] ring_parse.simps [of N ds R W])
      next
        case False
        then have "ring_parse N cs (next_lap N R) W = ring_parse N ds (next_lap N R) W"
          using "1.IH"(1) [OF _ _ refl refl refl] "1.prems" RW N True next_lap_bounds(1) [OF N, of R] by simp
        then show ?thesis using RW N True False hdr by (simp add: ring_parse_pad)
      qed
    next
      case nz: False
      show ?thesis
      proof (cases "?p + ?b \<le> N \<and> R + ?b \<le> W")
        case False
        then show ?thesis
          using nz hdr RW N by (auto simp: ring_parse.simps [of N cs R W] ring_parse.simps [of N ds R W] Let_def)
      next
        case True
        have rec: "ring_parse N cs (R + ?b) W = ring_parse N ds (R + ?b) W"
          using "1.IH"(2) [OF _ _ refl refl refl] "1.prems" RW N True nz by simp
        have cells: "blocks 8 (unat ?sz) \<le> 8 * ?b"
          using blocks_bounds [of 8 "unat ?sz"] blocks_bounds [of 64 "unat ?sz"] by simp
        have "msg_at (8 * ?p) cs = msg_at (8 * ?p) ds"
          unfolding msg_at_def hdr [symmetric]
        proof (rule segment_eqI)
          show "8 * ?p + blocks 8 (unat ?sz) \<le> length cs" and "8 * ?p + blocks 8 (unat ?sz) \<le> length ds"
            using cells True "1.prems"(2,3) by linarith+
          fix c assume c: "8 * ?p \<le> c" "c < 8 * ?p + blocks 8 (unat ?sz)"
          define i where "i = c div 8 - ?p"
          have i: "?p + i = c div 8" "i < ?b" using c cells unfolding i_def by linarith+
          then have "(R + i) mod N = c div 8" using True by (subst mod_add_inside) linarith+
          then show "cs ! c = ds ! c"
            using "1.prems"(1) [of "R + i" "c mod 8"] i True by simp
        qed
        then show ?thesis
          using ring_parse_msg [OF N refl, of cs R W] ring_parse_msg [OF N refl, of ds R W] rec hdr nz True by simp
      qed
    qed
  qed
qed

lemma ring_parse_append:
  "ring_parse N cs R M = Some ms \<Longrightarrow> ring_parse N cs M W = Some ms' \<Longrightarrow>
   ring_parse N cs R W = Some (ms @ ms')"
proof (induction N cs R M arbitrary: ms rule: ring_parse.induct)
  case (1 N cs R M)
  have MW: "M \<le> W" using "1.prems"(2) by (rule ring_parse_le)
  show ?case
  proof (cases "R = M")
    case True
    then show ?thesis using "1.prems" by simp
  next
    case False
    then have RM: "R < M" using ring_parse_le [OF "1.prems"(1)] by simp
    have N: "0 < N" using "1.prems"(1) RM by (subst (asm) ring_parse.simps) (auto split: if_splits)
    let ?sz = "hdr_size (cs ! (8 * (R mod N)))"
    show ?thesis
    proof (cases "?sz = 0")
      case True
      note D = ring_parse_padD [OF "1.prems"(1) RM True]
      have "ring_parse N cs (next_lap N R) W = Some (ms @ ms')"
        using "1.IH"(1) [OF _ _ refl refl refl] "1.prems"(2) RM N True D(2,3) by simp
      then show ?thesis using RM MW N True D(2) by (simp add: ring_parse_pad)
    next
      case nz: False
      note D = ring_parse_msgD [OF "1.prems"(1) RM refl nz]
      from D(4) obtain ms1 where ms: "ms = msg_at (8 * (R mod N)) cs # ms1"
        and rest: "ring_parse N cs (R + blocks 64 (unat ?sz)) M = Some ms1" by blast
      have "ring_parse N cs (R + blocks 64 (unat ?sz)) W = Some (ms1 @ ms')"
        using "1.IH"(2) [OF _ _ refl refl refl] D(1,2,3) nz RM rest "1.prems"(2) by simp
      then show ?thesis using ring_parse_msg [OF N refl nz] D MW ms by simp
    qed
  qed
qed

section \<open>Wrapping indices and ring positions\<close>

text \<open>The static assertion of the class: the block count is a power of 2.\<close>

definition shm_conf :: "u32 \<Rightarrow> bool" where
  "shm_conf Bytes \<longleftrightarrow> (\<exists>k < 26. unat (SHM_BLK_CNT Bytes) = 2 ^ k)"

abbreviation ring_size :: "u32 \<Rightarrow> nat" where
  "ring_size Bytes \<equiv> unat (SHM_BLK_CNT Bytes)"

lemma shm_confD:
  assumes "shm_conf Bytes"
  shows "0 < ring_size Bytes" and "ring_size Bytes \<le> 2 ^ 25" and "ring_size Bytes dvd 2 ^ 32"
proof -
  obtain k where k: "k < 26" "ring_size Bytes = 2 ^ k" using assms by (auto simp: shm_conf_def)
  then show "0 < ring_size Bytes" by simp
  have "(2::nat) ^ k \<le> 2 ^ 25" using k(1) by (intro power_increasing) simp_all
  then show "ring_size Bytes \<le> 2 ^ 25" using k(2) by simp
  show "ring_size Bytes dvd 2 ^ 32" unfolding k(2) using k(1) by (intro le_imp_power_dvd) simp
qed

lemma ring_index_mod:
  assumes "shm_conf Bytes"
  shows "unat (word_of_nat W mod SHM_BLK_CNT Bytes) = W mod ring_size Bytes"
  using shm_confD(3) [OF assms] by (simp add: unat_mod unat_of_nat mod_mod_cancel)

lemma hdr_cell_of_nat: "shm_conf Bytes \<Longrightarrow> hdr_cell Bytes (word_of_nat W) = 8 * (W mod ring_size Bytes)"
  by (simp add: hdr_cell_def ring_index_mod)

lemma padding_sz_of_nat:
  assumes "shm_conf Bytes"
  shows "padding_sz Bytes (word_of_nat W) = word_of_nat (ring_size Bytes - W mod ring_size Bytes)"
    and "unat (padding_sz Bytes (word_of_nat W)) = ring_size Bytes - W mod ring_size Bytes"
proof -
  have "W mod ring_size Bytes \<le> ring_size Bytes"
    using shm_confD(1) [OF assms] by (simp add: less_imp_le_nat)
  then show u: "unat (padding_sz Bytes (word_of_nat W)) = ring_size Bytes - W mod ring_size Bytes"
    unfolding padding_sz_def by (subst unat_sub_exact) (simp_all add: ring_index_mod [OF assms])
  show "padding_sz Bytes (word_of_nat W) = word_of_nat (ring_size Bytes - W mod ring_size Bytes)"
    by (metis u of_nat_unat ucast_id)
qed

lemma index_next_lap:
  "shm_conf Bytes \<Longrightarrow> word_of_nat W + padding_sz Bytes (word_of_nat W) = word_of_nat (next_lap (ring_size Bytes) W)"
  by (simp add: padding_sz_of_nat next_lap_def)

lemma unat_blk_sz: "unat (blk_sz sz) = blocks 64 (unat sz)"
  using blocks64_u16 [of sz] unfolding blk_sz_def by (subst unat_of_nat_exact) simp_all

text \<open>The blocks that \<open>Alloc\<close> must find free: those of the message and the skipped ones.\<close>

definition alloc_span :: "nat \<Rightarrow> nat \<Rightarrow> nat \<Rightarrow> nat" where
  "alloc_span N W n = (if N - W mod N < n then next_lap N W - W + n else n)"

text \<open>
  The comparison \<open>(int)(read_idx - min_read_idx) < 0\<close>, for a read position \<open>C\<close> that is not ahead of
  the write position and at most a ring behind it.
\<close>

lemma min_read_idx_test:
  assumes conf: "shm_conf Bytes" and C: "C \<le> W" "W \<le> C + ring_size Bytes" and sz: "n = blocks 64 (unat sz)"
  shows "sdiff (word_of_nat C)
           (word_of_nat W + blk_sz sz
              + (if padding_sz Bytes (word_of_nat W) < blk_sz sz then padding_sz Bytes (word_of_nat W) else 0)
              - SHM_BLK_CNT Bytes) < 0
       \<longleftrightarrow> C + ring_size Bytes < W + alloc_span (ring_size Bytes) W n"
proof -
  let ?N = "ring_size Bytes"
  let ?pad = "?N - W mod ?N"
  have rewind: "padding_sz Bytes (word_of_nat W) < blk_sz sz \<longleftrightarrow> ?pad < n"
    by (simp only: word_less_nat_alt padding_sz_of_nat(2) [OF conf] unat_blk_sz sz)
  have N: "SHM_BLK_CNT Bytes = word_of_int (int ?N)" by simp
  have n: "blk_sz sz = word_of_int (int n)" by (simp add: blk_sz_def sz)
  have pad: "padding_sz Bytes (word_of_nat W) = word_of_int (int ?pad)"
    by (simp add: padding_sz_of_nat(1) [OF conf])
  have eq: "word_of_nat C - (word_of_nat W + blk_sz sz
      + (if padding_sz Bytes (word_of_nat W) < blk_sz sz then padding_sz Bytes (word_of_nat W) else 0)
      - SHM_BLK_CNT Bytes)
    = (word_of_int (int C + int ?N - int W - int (alloc_span ?N W n)) :: u32)"
    unfolding rewind alloc_span_def next_lap_def using N n pad by (simp add: algebra_simps)
  have "n \<le> 1024" using sz blocks64_u16 by simp
  then have "alloc_span ?N W n \<le> ?N + 1024"
    using next_lap_bounds(2) [of ?N W] by (auto simp: alloc_span_def)
  then have "sint (word_of_int (int C + int ?N - int W - int (alloc_span ?N W n)) :: u32)
      = int C + int ?N - int W - int (alloc_span ?N W n)"
    using C shm_confD(2) [OF conf] by (intro sint_of_int_exact) (simp_all del: of_nat_unat)
  then show ?thesis unfolding sdiff_def eq by linarith
qed

definition spsc_rel :: "u32 \<Rightarrow> varq \<Rightarrow> nat \<Rightarrow> nat \<Rightarrow> nat \<Rightarrow> msg_header list list \<Rightarrow> bool" where
  "spsc_rel Bytes q W R C ms \<longleftrightarrow>
     vq_write_idx q = word_of_nat W \<and> vq_read_idx q = word_of_nat R \<and> vq_read_idx_cach q = word_of_nat C \<and>
     C \<le> R \<and> R \<le> W \<and> W \<le> C + ring_size Bytes \<and>
     length (vq_blk q) = 8 * ring_size Bytes \<and>
     ring_parse (ring_size Bytes) (vq_blk q) R W = Some ms"

text \<open>Two contents of the ring that agree on the blocks between two positions hold the same messages there.\<close>

definition agree :: "nat \<Rightarrow> nat \<Rightarrow> nat \<Rightarrow> msg_header list \<Rightarrow> msg_header list \<Rightarrow> bool" where
  "agree N R W cs ds \<longleftrightarrow> length cs = 8 * N \<and> length ds = 8 * N \<and>
     (\<forall>k j. R \<le> k \<and> k < W \<and> j < 8 \<longrightarrow> cs ! (8 * (k mod N) + j) = ds ! (8 * (k mod N) + j))"

lemma agree_refl: "length cs = 8 * N \<Longrightarrow> agree N R W cs cs"
  by (simp add: agree_def)

lemma agree_hdr: "agree N R W cs ds \<Longrightarrow> R < W \<Longrightarrow> ds ! (8 * (R mod N)) = cs ! (8 * (R mod N))"
  unfolding agree_def by (metis add.right_neutral le_refl zero_less_numeral)

lemma agree_parse: "agree N R W cs ds \<Longrightarrow> L \<le> W \<Longrightarrow> ring_parse N ds R L = ring_parse N cs R L"
  by (rule ring_parse_cong) (auto simp: agree_def)

text \<open>Writing outside the blocks between \<open>R\<close> and \<open>W\<close> does not disturb the messages there.\<close>

lemma free_write_agree:
  assumes "length cs = 8 * N" and "length ds = 8 * N" and "W + n \<le> R + N" and "W mod N + n \<le> N"
    and "\<And>k. k < 8 * N \<Longrightarrow> k < 8 * (W mod N) \<or> 8 * (W mod N + n) \<le> k \<Longrightarrow> ds ! k = cs ! k"
  shows "agree N R W cs ds"
  unfolding agree_def
proof (intro conjI allI impI assms(1,2), elim conjE)
  fix k j :: nat
  assume k: "R \<le> k" "k < W" and j: "j < 8"
  have "k mod N \<noteq> W mod N + i" if "i < n" for i
  proof -
    have "(W + i) mod N = W mod N + i" using assms(4) that by (intro mod_add_inside) simp
    then show ?thesis using mod_window [of k "W + i" N] k that assms(3) by simp
  qed
  then have "k mod N < W mod N \<or> W mod N + n \<le> k mod N"
    by (metis add_less_cancel_left le_add_diff_inverse linorder_not_less)
  moreover have "k mod N < N" using k assms(3) by (cases "N = 0") simp_all
  ultimately show "cs ! (8 * (k mod N) + j) = ds ! (8 * (k mod N) + j)"
    using j by (intro assms(5) [symmetric]) auto
qed

lemma ring_parse_free_write:
  assumes "length cs = 8 * N" and "length ds = 8 * N" and "W + n \<le> R + N" and "W mod N + n \<le> N"
    and "\<And>k. k < 8 * N \<Longrightarrow> k < 8 * (W mod N) \<or> 8 * (W mod N + n) \<le> k \<Longrightarrow> ds ! k = cs ! k"
  shows "ring_parse N ds R W = ring_parse N cs R W"
  using agree_parse [OF free_write_agree [OF assms]] by simp

section \<open>Alloc, Push, Front and Pop keep the messages\<close>

lemma set_hdr_size_Some [simp]:
  "i < length cs \<Longrightarrow> set_hdr_size i sz cs = Some (cs[i := (cs ! i)\<lparr>hdr_size := sz\<rparr>])"
  by (simp add: set_hdr_size_def)

lemma get_hdr_size_Some [simp]: "i < length cs \<Longrightarrow> get_hdr_size i cs = Some (hdr_size (cs ! i))"
  by (simp add: get_hdr_size_def)

lemma spsc_relD:
  assumes "spsc_rel Bytes q W R C ms"
  shows "vq_write_idx q = word_of_nat W" and "vq_read_idx q = word_of_nat R"
    and "vq_read_idx_cach q = word_of_nat C" and "C \<le> R" and "R \<le> W" and "W \<le> C + ring_size Bytes"
    and "length (vq_blk q) = 8 * ring_size Bytes" and "ring_parse (ring_size Bytes) (vq_blk q) R W = Some ms"
  using assms by (simp_all add: spsc_rel_def)

lemma hdr_cell_less:
  assumes "shm_conf Bytes"
  shows "8 * (W mod ring_size Bytes) < 8 * ring_size Bytes"
  using shm_confD(1) [OF assms] by simp

text \<open>A single header cell written at the free write position.\<close>

lemma spsc_rel_header_write:
  assumes conf: "shm_conf Bytes" and rel: "spsc_rel Bytes q W R C ms" and free: "W < R + ring_size Bytes"
  shows "spsc_rel Bytes (q\<lparr>vq_blk := (vq_blk q)[8 * (W mod ring_size Bytes) := h]\<rparr>) W R C ms"
proof -
  note D = spsc_relD [OF rel]
  have "W mod ring_size Bytes + 1 \<le> ring_size Bytes"
    using shm_confD(1) [OF conf] by (simp add: Suc_leI)
  then have "ring_parse (ring_size Bytes) ((vq_blk q)[8 * (W mod ring_size Bytes) := h]) R W
      = ring_parse (ring_size Bytes) (vq_blk q) R W"
    using D free by (intro ring_parse_free_write [where n = 1]) auto
  then show ?thesis using rel by (simp add: spsc_rel_def)
qed

text \<open>Writing the rewind marker and moving on to the next round of the ring.\<close>

lemma spsc_rel_rewind:
  assumes conf: "shm_conf Bytes" and rel: "spsc_rel Bytes q W R C ms"
    and room: "next_lap (ring_size Bytes) W \<le> C + ring_size Bytes"
    and h: "hdr_size h = 0" and start: "W mod ring_size Bytes \<noteq> 0"
  shows "spsc_rel Bytes (q\<lparr>vq_blk := (vq_blk q)[8 * (W mod ring_size Bytes) := h],
           vq_write_idx := word_of_nat (next_lap (ring_size Bytes) W)\<rparr>) (next_lap (ring_size Bytes) W) R C ms"
proof -
  let ?N = "ring_size Bytes" and ?cs = "(vq_blk q)[8 * (W mod ring_size Bytes) := h]"
  have N: "0 < ?N" by (rule shm_confD(1) [OF conf])
  note D = spsc_relD [OF rel]
  have lt: "W < next_lap ?N W" by (rule next_lap_bounds(1) [OF N])
  have rel1: "spsc_rel Bytes (q\<lparr>vq_blk := ?cs\<rparr>) W R C ms"
    using conf rel lt room D(4) by (intro spsc_rel_header_write) linarith+
  have "?cs ! (8 * (W mod ?N)) = h" using D(7) hdr_cell_less [OF conf] by simp
  then have "ring_parse ?N ?cs W (next_lap ?N W) = Some []"
    using ring_parse_pad [OF N lt, of ?cs] h start by simp
  from ring_parse_append [OF _ this] rel1 have "ring_parse ?N ?cs R (next_lap ?N W) = Some ms"
    by (simp add: spsc_rel_def)
  then show ?thesis using rel1 lt room by (simp add: spsc_rel_def)
qed

lemma spsc_reserve_rel:
  assumes conf: "shm_conf Bytes" and rel: "spsc_rel Bytes q W R C ms"
    and n: "n = blocks 64 (unat sz)" "0 < n"
    and rw: "rw \<longleftrightarrow> ring_size Bytes - W mod ring_size Bytes < n"
    and room: "W + alloc_span (ring_size Bytes) W n \<le> C + ring_size Bytes"
    and W': "W' = (if rw then next_lap (ring_size Bytes) W else W)"
  obtains q' where "spsc_reserve Bytes sz rw q = Some (q', Some (8 * (W' mod ring_size Bytes)))"
    and "spsc_rel Bytes q' W' R C ms"
    and "W' mod ring_size Bytes + n \<le> ring_size Bytes" and "W' + n \<le> C + ring_size Bytes"
    and "hdr_size (vq_blk q' ! (8 * (W' mod ring_size Bytes))) = sz"
proof -
  let ?N = "ring_size Bytes"
  have N: "0 < ?N" by (rule shm_confD(1) [OF conf])
  note D = spsc_relD [OF rel]
  have lap: "W \<le> next_lap ?N W" using next_lap_bounds(1) [OF N, of W] by simp
  have room': "W' + n \<le> C + ?N" using room rw W' lap by (auto simp: alloc_span_def)
  have inside: "W' mod ?N + n \<le> ?N"
  proof (cases rw)
    case True
    then have "next_lap ?N W + n \<le> W + ?N" using room' W' D by simp
    then show ?thesis using True W' N lap by simp
  next
    case False
    then show ?thesis using rw W' mod_less_divisor [OF N, of W] by simp
  qed
  obtain q1 where q1: "spsc_rel Bytes q1 W' R C ms"
    and step: "(if rw
            then do {
              b \<leftarrow> set_hdr_size (hdr_cell Bytes (vq_write_idx q)) 0 (vq_blk q);
              Some (q\<lparr>vq_blk := b, vq_write_idx := vq_write_idx q + padding_sz Bytes (vq_write_idx q)\<rparr>)
            }
            else Some q) = Some q1"
  proof (cases rw)
    case True
    then have lap': "next_lap ?N W + n \<le> C + ?N" using room' W' by simp
    then have "next_lap ?N W \<le> C + ?N" by simp
    note rewound = spsc_rel_rewind [OF conf rel this, of "(vq_blk q ! (8 * (W mod ?N)))\<lparr>hdr_size := 0\<rparr>"]
    have "W mod ?N \<noteq> 0" using lap' n(2) D by (intro notI) (simp add: next_lap_def)
    with rewound
    show ?thesis
      using that True D hdr_cell_less [OF conf, of W] W' by (simp add: hdr_cell_of_nat [OF conf] index_next_lap [OF conf])
  next
    case False
    then show ?thesis using that rel W' by simp
  qed
  note D1 = spsc_relD [OF q1]
  let ?i = "8 * (W' mod ?N)"
  let ?q = "q1\<lparr>vq_blk := (vq_blk q1)[?i := (vq_blk q1 ! ?i)\<lparr>hdr_size := sz\<rparr>]\<rparr>"
  have i: "?i < length (vq_blk q1)" using D1(7) hdr_cell_less [OF conf] by simp
  have "spsc_reserve Bytes sz rw q = Some (?q, Some ?i)"
    unfolding spsc_reserve_def step using i D1(1) by (simp add: hdr_cell_of_nat [OF conf])
  moreover have "spsc_rel Bytes ?q W' R C ms"
    using n(2) room' D1(4) by (intro spsc_rel_header_write [OF conf q1]) linarith
  ultimately show ?thesis using that [of ?q] inside room' i by simp
qed

lemma spsc_Alloc_rel:
  assumes conf: "shm_conf Bytes" and rel: "spsc_rel Bytes q W R C ms"
    and sz: "unat (sz :: u16) + 8 < 65536" and n: "n = blocks 64 (unat sz + 8)"
    and room: "W + alloc_span (ring_size Bytes) W n \<le> R + ring_size Bytes"
  obtains q' W' C' where "spsc_Alloc Bytes sz q = Some (q', Some (8 * (W' mod ring_size Bytes)))"
    and "spsc_rel Bytes q' W' R C' ms" and "W \<le> W'"
    and "W' mod ring_size Bytes + n \<le> ring_size Bytes" and "W' + n \<le> C' + ring_size Bytes"
    and "hdr_size (vq_blk q' ! (8 * (W' mod ring_size Bytes))) = sz + 8"
proof -
  let ?N = "ring_size Bytes" and ?rw = "ring_size Bytes - W mod ring_size Bytes < n"
  note D = spsc_relD [OF rel]
  have usz: "unat (sz + 8) = unat sz + 8" by (rule unat_size_plus_header [OF sz])
  then have n': "n = blocks 64 (unat (sz + 8))" "0 < n" using n by simp_all
  have rewind: "padding_sz Bytes (word_of_nat W) < blk_sz (sz + 8) \<longleftrightarrow> ?rw"
    by (simp only: word_less_nat_alt padding_sz_of_nat(2) [OF conf] unat_blk_sz n'(1))
  have lap: "W \<le> next_lap ?N W" using next_lap_bounds(1) [OF shm_confD(1) [OF conf], of W] by simp
  note T = min_read_idx_test [OF conf _ _ n'(1), unfolded rewind]
  note goal = that
  have finish: thesis
    if "spsc_rel Bytes q0 W R C0 ms" and "W + alloc_span ?N W n \<le> C0 + ?N"
      and "spsc_Alloc Bytes sz q = spsc_reserve Bytes (sz + 8) ?rw q0" for q0 C0
    by (rule spsc_reserve_rel [OF conf that(1) n' refl that(2) refl])
      (rule goal [of _ "if ?rw then next_lap ?N W else W" C0], use that(3) lap in simp_all)
  show ?thesis
  proof (cases "C + ?N < W + alloc_span ?N W n")
    case False
    then have "spsc_Alloc Bytes sz q = spsc_reserve Bytes (sz + 8) ?rw q"
      using T [of C W] D by (simp add: spsc_Alloc_def Let_def rewind)
    with False rel show ?thesis by (intro finish) (simp_all add: not_less)
  next
    case True
    let ?q = "q\<lparr>vq_read_idx_cach := vq_read_idx q\<rparr>"
    have "spsc_Alloc Bytes sz q = spsc_reserve Bytes (sz + 8) ?rw ?q"
      using T [of C W] T [of R W] D True room by (simp add: spsc_Alloc_def Let_def rewind)
    with room rel show ?thesis by (intro finish [of ?q R]) (simp_all add: spsc_rel_def)
  qed
qed

lemma spsc_Alloc_full:
  assumes conf: "shm_conf Bytes" and rel: "spsc_rel Bytes q W R C ms"
    and sz: "unat (sz :: u16) + 8 < 65536" and n: "n = blocks 64 (unat sz + 8)"
    and full: "R + ring_size Bytes < W + alloc_span (ring_size Bytes) W n"
  shows "spsc_Alloc Bytes sz q = Some (q\<lparr>vq_read_idx_cach := vq_read_idx q\<rparr>, None)"
proof -
  note D = spsc_relD [OF rel]
  have n': "n = blocks 64 (unat (sz + 8))" using n unat_size_plus_header [OF sz] by simp
  note T = min_read_idx_test [OF conf _ _ n']
  have "C + ring_size Bytes < W + alloc_span (ring_size Bytes) W n" using full D(4) by linarith
  then show ?thesis
    using T [of C W] T [of R W] D full by (simp add: spsc_Alloc_def Let_def)
qed

lemma spsc_Push_rel:
  assumes conf: "shm_conf Bytes" and rel: "spsc_rel Bytes q W R C ms"
    and n: "sz = hdr_size (vq_blk q ! (8 * (W mod ring_size Bytes)))" "n = blocks 64 (unat sz)" "0 < n"
    and room: "W mod ring_size Bytes + n \<le> ring_size Bytes" "W + n \<le> C + ring_size Bytes"
  shows "spsc_Push Bytes q = Some (q\<lparr>vq_write_idx := vq_write_idx q + blk_sz sz\<rparr>)"
    and "spsc_rel Bytes (q\<lparr>vq_write_idx := vq_write_idx q + blk_sz sz\<rparr>) (W + n) R C
           (ms @ [msg_at (8 * (W mod ring_size Bytes)) (vq_blk q)])"
proof -
  note D = spsc_relD [OF rel] and N = shm_confD(1) [OF conf]
  have i: "8 * (W mod ring_size Bytes) < length (vq_blk q)" using D(7) hdr_cell_less [OF conf] by simp
  then show "spsc_Push Bytes q = Some (q\<lparr>vq_write_idx := vq_write_idx q + blk_sz sz\<rparr>)"
    using D(1) n(1) by (simp add: spsc_Push_def hdr_cell_of_nat [OF conf])
  have "sz \<noteq> 0" using n by auto
  then have "ring_parse (ring_size Bytes) (vq_blk q) W (W + n) = Some [msg_at (8 * (W mod ring_size Bytes)) (vq_blk q)]"
    using ring_parse_msg [OF N n(1), of "W + n"] n room by simp
  from ring_parse_append [OF D(8) this] room D
  show "spsc_rel Bytes (q\<lparr>vq_write_idx := vq_write_idx q + blk_sz sz\<rparr>) (W + n) R C
           (ms @ [msg_at (8 * (W mod ring_size Bytes)) (vq_blk q)])"
    by (simp add: spsc_rel_def blk_sz_def n(2))
qed

subsection \<open>The reader\<close>

text \<open>Equal counters designate equal positions, since the positions are at most a ring apart.\<close>

lemma index_eq_iff:
  assumes "shm_conf Bytes" and "R \<le> W" and "W \<le> R + ring_size Bytes"
  shows "(word_of_nat R :: u32) = word_of_nat W \<longleftrightarrow> R = W"
proof
  assume eq: "(word_of_nat R :: u32) = word_of_nat W"
  have "word_of_nat (W - R) = (word_of_nat W - word_of_nat R :: u32)"
    using assms(2) by (simp add: of_nat_diff)
  then have "unat (word_of_nat (W - R) :: u32) = 0" using eq by simp
  moreover have "unat (word_of_nat (W - R) :: u32) = W - R"
    using assms(3) shm_confD(2) [OF assms(1)] by (intro unat_of_nat_exact) simp
  ultimately show "R = W" using assms(2) by simp
qed simp

lemma spsc_Pop_rel:
  assumes conf: "shm_conf Bytes" and rel: "spsc_rel Bytes q W R C (m # ms)"
    and sz: "sz = hdr_size (vq_blk q ! (8 * (R mod ring_size Bytes)))" "sz \<noteq> 0"
  shows "spsc_Pop Bytes q = Some (q\<lparr>vq_read_idx := vq_read_idx q + blk_sz sz\<rparr>)"
    and "spsc_rel Bytes (q\<lparr>vq_read_idx := vq_read_idx q + blk_sz sz\<rparr>) W (R + blocks 64 (unat sz)) C ms"
proof -
  note D = spsc_relD [OF rel]
  have "R < W" using D(5,8) by (cases "R = W") simp_all
  note P = ring_parse_msgD [OF D(8) this sz]
  show "spsc_Pop Bytes q = Some (q\<lparr>vq_read_idx := vq_read_idx q + blk_sz sz\<rparr>)"
    using D sz(1) hdr_cell_less [OF conf, of R] by (simp add: spsc_Pop_def hdr_cell_of_nat [OF conf])
  show "spsc_rel Bytes (q\<lparr>vq_read_idx := vq_read_idx q + blk_sz sz\<rparr>) W (R + blocks 64 (unat sz)) C ms"
    using D P by (auto simp: spsc_rel_def blk_sz_def)
qed

text \<open>
  \<open>Front\<close>: either nothing is left and it returns the null pointer, or it ends at the header of the
  oldest message, having skipped at most one rewind marker.
\<close>

lemma spsc_Front_rel:
  assumes conf: "shm_conf Bytes" and rel: "spsc_rel Bytes q W R C ms"
  obtains q' R' where "spsc_rel Bytes q' W R' C ms" and "R \<le> R'"
    and "q' = q\<lparr>vq_read_idx := word_of_nat R'\<rparr>"
    and "spsc_Front Bytes q = Some (q', if ms = [] then None else Some (8 * (R' mod ring_size Bytes)))"
    and "ms \<noteq> [] \<Longrightarrow> hdr_size (vq_blk q ! (8 * (R' mod ring_size Bytes))) \<noteq> 0"
    and "ms \<noteq> [] \<Longrightarrow> hd ms = msg_at (8 * (R' mod ring_size Bytes)) (vq_blk q)"
    and "ms = [] \<Longrightarrow> R' = W"
proof -
  let ?N = "ring_size Bytes" and ?sz = "\<lambda>R. hdr_size (vq_blk q ! (8 * (R mod ring_size Bytes)))"
  note D = spsc_relD [OF rel]
  have WR: "W \<le> R + ?N" using D by simp
  have same: "q = q\<lparr>vq_read_idx := word_of_nat R\<rparr>" using D(2) by simp
  consider "R = W" | "R < W" "?sz R \<noteq> 0" | "R < W" "?sz R = 0" using D(5) by linarith
  then show ?thesis
  proof cases
    case 1
    then show ?thesis using that [OF rel _ same] D by (simp add: spsc_Front_def)
  next
    case 2
    note P = ring_parse_msgD [OF D(8) 2(1) refl 2(2)]
    have "spsc_Front Bytes q = Some (q, Some (8 * (R mod ?N)))"
      using D 2 WR hdr_cell_less [OF conf, of R]
      by (simp add: spsc_Front_def Let_def hdr_cell_of_nat [OF conf] index_eq_iff [OF conf])
    then show ?thesis using that [OF rel _ same] P(4) 2 by auto
  next
    case 3
    let ?R = "next_lap ?N R" and ?q = "q\<lparr>vq_read_idx := word_of_nat (next_lap (ring_size Bytes) R)\<rparr>"
    note P = ring_parse_padD [OF D(8) 3]
    have lap: "R < ?R" "?R \<le> W" using next_lap_bounds(1) [OF P(1)] ring_parse_le [OF P(3)] by simp_all
    have rel': "spsc_rel Bytes ?q W ?R C ms" using D P(3) lap by (simp add: spsc_rel_def)
    have nz: "?sz ?R \<noteq> 0" if "?R < W"
      using ring_parse_padD(2) [OF P(3) that] P(1) by (intro notI) simp
    have ms: "ms = [] \<longleftrightarrow> ?R = W" "ms \<noteq> [] \<Longrightarrow> hd ms = msg_at (8 * (?R mod ?N)) (vq_blk q)"
      using P(3) lap nz ring_parse_msgD(4) [OF P(3) _ refl nz] by (auto simp: le_less)
    have "spsc_Front Bytes q = Some (?q, if ms = [] then None else Some (8 * (?R mod ?N)))"
      using D 3 lap WR ms hdr_cell_less [OF conf, of R]
      by (simp add: spsc_Front_def Let_def hdr_cell_of_nat [OF conf] index_eq_iff [OF conf] index_next_lap [OF conf])
    then show ?thesis using that [OF rel' _ refl] lap ms nz by (auto simp: le_less)
  qed
qed

section \<open>Sending\<close>

lemma msg_at_body:
  assumes sz: "unat (hdr_size (cs ! i)) = length body + 8" and len: "i + blocks 8 (length body + 8) \<le> length cs"
    and inside: "segment (8 * Suc i) (8 * Suc i + length body) (cells_bytes hl cs) = body"
  shows "msg_body hl hl (msg_at i cs) = body" and "msg_header_of hl hl (msg_at i cs) = cs ! i"
proof -
  let ?n = "blocks 8 (length body + 8)"
  have n: "length body + 8 \<le> 8 * ?n" by (rule blocks_bounds(1)) simp
  then have m: "msg_at i cs = cs ! i # segment (Suc i) (i + ?n) cs"
    unfolding msg_at_def sz using len by (intro segment_Cons) simp_all
  have "msg_body hl hl (msg_at i cs) = take (length body) (segment (8 * Suc i) (8 * (i + ?n)) (cells_bytes hl cs))"
    by (simp add: m msg_body_def msg_size_def sz cells_bytes_segment)
  also have "\<dots> = body" using inside n by (simp add: take_segment)
  finally show "msg_body hl hl (msg_at i cs) = body" .
  show "msg_header_of hl hl (msg_at i cs) = cs ! i" by (simp add: m msg_header_of_def)
qed

lemma spsc_send_rel:
  assumes conf: "shm_conf Bytes" and rel: "spsc_rel Bytes q W R C ms" and len: "length body + 8 < 65536"
    and n: "n = blocks 64 (length body + 8)" and room: "W + alloc_span (ring_size Bytes) W n \<le> R + ring_size Bytes"
  obtains q' W' C' m where "spsc_send Bytes hl mt body q = Some (q', True)"
    and "spsc_rel Bytes q' W' R C' (ms @ [m])"
    and "msg_body hl hl m = body"
    and "hdr_size (msg_header_of hl hl m) = word_of_nat (length body + 8)"
    and "hdr_msg_type (msg_header_of hl hl m) = mt"
proof -
  let ?sz = "word_of_nat (length body) :: u16" and ?N = "ring_size Bytes"
  have usz: "unat ?sz = length body" using len by (simp add: unat_exact)
  have usz8: "unat (?sz + 8) = length body + 8" using unat_size_plus_header [of ?sz] usz len by simp
  obtain q1 W' C' where alloc: "spsc_Alloc Bytes ?sz q = Some (q1, Some (8 * (W' mod ?N)))"
    and rel1: "spsc_rel Bytes q1 W' R C' ms"
    and fits: "W' mod ?N + n \<le> ?N" "W' + n \<le> C' + ?N"
    and hsz: "hdr_size (vq_blk q1 ! (8 * (W' mod ?N))) = ?sz + 8"
    by (rule spsc_Alloc_rel [OF conf rel, of ?sz n]) (use len usz n room in simp_all)
  let ?i = "8 * (W' mod ?N)"
  note D1 = spsc_relD [OF rel1]
  have n8: "length body + 8 \<le> 64 * n" "blocks 8 (length body + 8) \<le> 8 * n"
    using blocks_bounds [of 64 "length body + 8"] blocks_bounds [of 8 "length body + 8"] n by simp_all
  have i: "?i < length (vq_blk q1)" using D1(7) hdr_cell_less [OF conf] by simp
  have end64: "8 * Suc ?i + length body \<le> 8 * (8 * (W' mod ?N + n))" using n8 by simp
  then have "8 * Suc ?i + length body \<le> 8 * length (vq_blk q1)" 
    using fits(1) D1(7) by (elim order.trans) simp
  from fill_msg_spec [OF i this, of hl mt] obtain b where fill: "fill_msg hl ?i mt body (vq_blk q1) = Some b"
    and lb: "length b = length (vq_blk q1)" and hb: "b ! ?i = (vq_blk q1 ! ?i)\<lparr>hdr_msg_type := mt\<rparr>"
    and keep: "\<And>k. k < length (vq_blk q1) \<Longrightarrow> k < ?i \<or> 8 * Suc ?i + length body \<le> 8 * k \<Longrightarrow> b ! k = vq_blk q1 ! k"
    and inside: "segment (8 * Suc ?i) (8 * Suc ?i + length body) (cells_bytes hl b) = body" by metis
  let ?q = "q1\<lparr>vq_blk := b\<rparr>"
  have same: "b ! k = vq_blk q1 ! k" if "k < 8 * ?N" "k < ?i \<or> 8 * (W' mod ?N + n) \<le> k" for k
    using that D1(7) order.trans [OF end64 mult_le_mono2, of k] by (intro keep) auto
  have "ring_parse ?N b R W' = ring_parse ?N (vq_blk q1) R W'"
    using D1(4,7) lb fits by (intro ring_parse_free_write [where n = n] same) simp_all
  then have rel2: "spsc_rel Bytes ?q W' R C' ms" using rel1 lb by (simp add: spsc_rel_def)
  have sz2: "?sz + 8 = hdr_size (vq_blk ?q ! ?i)" using hb hsz by simp
  note P = spsc_Push_rel [OF conf rel2 sz2, of n]
  have body: "msg_body hl hl (msg_at ?i b) = body" "msg_header_of hl hl (msg_at ?i b) = b ! ?i"
    using msg_at_body [OF _ _ inside] hb hsz usz8 n8(2) fits(1) lb D1(7) by simp_all
  have "spsc_send Bytes hl mt body q = Some (?q\<lparr>vq_write_idx := vq_write_idx ?q + blk_sz (?sz + 8)\<rparr>, True)"
    using alloc fill P(1) fits n usz8 by (simp add: spsc_send_def)
  moreover have "spsc_rel Bytes (?q\<lparr>vq_write_idx := vq_write_idx ?q + blk_sz (?sz + 8)\<rparr>) (W' + n) R C' (ms @ [msg_at ?i b])"
    using P(2) fits n usz8 by simp
  ultimately show ?thesis using that body hb hsz by simp
qed

lemma spsc_send_full:
  assumes "shm_conf Bytes" and "spsc_rel Bytes q W R C ms" and "length body + 8 < 65536"
    and "R + ring_size Bytes < W + alloc_span (ring_size Bytes) W (blocks 64 (length body + 8))"
  shows "spsc_send Bytes hl mt body q = Some (q\<lparr>vq_read_idx_cach := vq_read_idx q\<rparr>, False)"
    and "spsc_rel Bytes (q\<lparr>vq_read_idx_cach := vq_read_idx q\<rparr>) W R R ms"
proof -
  have usz: "unat (word_of_nat (length body) :: u16) = length body" using assms(3) by (simp add: unat_exact)
  then show "spsc_send Bytes hl mt body q = Some (q\<lparr>vq_read_idx_cach := vq_read_idx q\<rparr>, False)"
    using spsc_Alloc_full [OF assms(1,2), of "word_of_nat (length body)"] assms(3,4) by (simp add: spsc_send_def)
  show "spsc_rel Bytes (q\<lparr>vq_read_idx_cach := vq_read_idx q\<rparr>) W R R ms"
    using assms(2) by (simp add: spsc_rel_def)
qed

lemma spsc_zeroed_rel: "spsc_rel Bytes (spsc_zeroed Bytes) 0 0 0 []"
  by (simp add: spsc_rel_def spsc_zeroed_def)

section \<open>The shared-memory queue is a FIFO queue\<close>

definition spsc_holds :: "u32 \<Rightarrow> varq \<Rightarrow> msg_header list list \<Rightarrow> bool" where
  "spsc_holds Bytes q ms \<longleftrightarrow> shm_conf Bytes \<and> (\<exists>W R C. spsc_rel Bytes q W R C ms)"

definition spsc_carries :: "bool \<Rightarrow> u16 \<times> u8 list \<Rightarrow> msg_header list \<Rightarrow> bool" where
  "spsc_carries hl = (\<lambda>(mt, body) m. msg_body hl hl m = body \<and>
     hdr_size (msg_header_of hl hl m) = word_of_nat (length body + 8) \<and>
     hdr_msg_type (msg_header_of hl hl m) = mt)"

interpretation spsc_fifo: fifo_queue "spsc_holds Bytes" "\<lambda>(mt, body). spsc_send Bytes hl mt body"
  "\<lambda>(mt, body). length body + 8 < 65536" "\<lambda>q. spsc_carries hl" "spsc_front_msg Bytes" "spsc_Pop Bytes"
  for Bytes hl
proof
  fix q ms x
  assume "spsc_holds Bytes q ms" and x: "(\<lambda>(mt::u16, body::u8 list). length body + 8 < 65536) x"
  then obtain W R C where conf: "shm_conf Bytes" and rel: "spsc_rel Bytes q W R C ms"
    by (auto simp: spsc_holds_def)
  obtain mt body where [simp]: "x = (mt, body)" by (cases x)
  have len: "length body + 8 < 65536" using x by simp
  have cases: "(\<exists>q' m. spsc_send Bytes hl mt body q = Some (q', True) \<and>
        spsc_holds Bytes q' (ms @ [m]) \<and> spsc_carries hl (mt, body) m) \<or>
      (\<exists>q'. spsc_send Bytes hl mt body q = Some (q', False) \<and> spsc_holds Bytes q' ms)"
  proof (cases "W + alloc_span (ring_size Bytes) W (blocks 64 (length body + 8)) \<le> R + ring_size Bytes")
    case True
    then show ?thesis
      by (intro disjI1, rule_tac spsc_send_rel [OF conf rel len refl True, of hl mt])
        (use conf in \<open>fastforce simp: spsc_holds_def spsc_carries_def\<close>)
  next
    case False
    then show ?thesis
      using spsc_send_full [OF conf rel len] conf by (auto simp: spsc_holds_def)
  qed
  then show "\<exists>q' ok. (case x of (mt, body) \<Rightarrow> spsc_send Bytes hl mt body) q = Some (q', ok)" by auto
  show "\<exists>m. spsc_holds Bytes q' (ms @ [m]) \<and> spsc_carries hl x m"
    if "(case x of (mt, body) \<Rightarrow> spsc_send Bytes hl mt body) q = Some (q', True)" for q'
    using cases that by auto
  show "spsc_holds Bytes q' ms"
    if "(case x of (mt, body) \<Rightarrow> spsc_send Bytes hl mt body) q = Some (q', False)" for q'
    using cases that by auto
next
  fix q
  assume "spsc_holds Bytes q []"
  then obtain W R C where conf: "shm_conf Bytes" and rel: "spsc_rel Bytes q W R C []"
    by (auto simp: spsc_holds_def)
  show "\<exists>q'. spsc_front_msg Bytes q = Some (q', None) \<and> spsc_holds Bytes q' []"
    by (rule spsc_Front_rel [OF conf rel]) (use conf in \<open>auto simp: spsc_front_msg_def spsc_holds_def\<close>)
next
  fix q m ms
  assume "spsc_holds Bytes q (m # ms)"
  then obtain W R C where conf: "shm_conf Bytes" and rel: "spsc_rel Bytes q W R C (m # ms)"
    by (auto simp: spsc_holds_def)
  obtain q' R' where rel': "spsc_rel Bytes q' W R' C (m # ms)" and q': "q' = q\<lparr>vq_read_idx := word_of_nat R'\<rparr>"
    and front: "spsc_Front Bytes q = Some (q', Some (8 * (R' mod ring_size Bytes)))"
    and nz: "hdr_size (vq_blk q' ! (8 * (R' mod ring_size Bytes))) \<noteq> 0"
    and m: "m = msg_at (8 * (R' mod ring_size Bytes)) (vq_blk q')"
    by (rule spsc_Front_rel [OF conf rel]) auto
  show "\<exists>q' q''. spsc_front_msg Bytes q = Some (q', Some m) \<and> spsc_holds Bytes q' (m # ms) \<and>
      spsc_Pop Bytes q' = Some q'' \<and> spsc_holds Bytes q'' ms"
    using spsc_Pop_rel [OF conf rel' refl nz] front m rel' conf
    by (auto simp: spsc_front_msg_def spsc_holds_def)
qed

section \<open>Properties\<close>

lemma shm_conf_256: "shm_conf 256" and ring_size_256: "ring_size 256 = 4"
  by (auto simp: shm_conf_def SHM_BLK_CNT_def intro!: exI [of _ 2])

text \<open>C14: Writing a message of up to 65527 bytes to the shared-memory queue, for any position of the
  wrapping 32-bit counters: when the blocks of the message, and the rest of the current round of the
  ring if the message does not fit there, are free, the message is appended behind the ones in the
  queue, whether or not a rewind marker is written and \<open>read_idx_cach\<close> is refreshed; otherwise
  \<open>Alloc\<close> returns the null pointer and only the cached read index changes. The messages already in
  the queue are never overwritten and no access leaves the array.\<close>

theorem spsc_send_appends:
  assumes "shm_conf Bytes" and "spsc_rel Bytes q W R C ms" and "length body \<le> 65527"
  shows "if W + alloc_span (ring_size Bytes) W (blocks 64 (length body + 8)) \<le> R + ring_size Bytes
         then \<exists>q' W' C' m. spsc_send Bytes hl mt body q = Some (q', True) \<and>
                spsc_rel Bytes q' W' R C' (ms @ [m]) \<and> spsc_carries hl (mt, body) m
         else spsc_send Bytes hl mt body q = Some (q\<lparr>vq_read_idx_cach := vq_read_idx q\<rparr>, False) \<and>
              spsc_rel Bytes (q\<lparr>vq_read_idx_cach := vq_read_idx q\<rparr>) W R R ms"
proof (cases "W + alloc_span (ring_size Bytes) W (blocks 64 (length body + 8)) \<le> R + ring_size Bytes")
  case True
  have "length body + 8 < 65536" using assms(3) by simp
  then show ?thesis
    by (rule spsc_send_rel [OF assms(1,2) _ refl True, of hl mt]) (use True in \<open>auto simp: spsc_carries_def\<close>)
next
  case False
  then show ?thesis using spsc_send_full(1) [OF assms(1,2), of body hl mt] spsc_send_full(2) [OF assms(1,2), of body] assms(3) by simp
qed

theorem spsc_send_appends_witness:
  "\<exists>q' W' C' m. spsc_send 256 True 7 [1, 2, 3] (spsc_zeroed 256) = Some (q', True) \<and>
     spsc_rel 256 q' W' 0 C' [m] \<and> spsc_carries True (7, [1, 2, 3]) m"
  using spsc_send_appends [OF shm_conf_256 spsc_zeroed_rel, of "[1, 2, 3]" True 7]
  by (simp add: ring_size_256 alloc_span_def blocks_def)

text \<open>C13: First in, first out. From a zeroed segment, let a writer and a reader use the queue in any
  order, where the writer gives up a message when \<open>Alloc\<close> returns the null pointer and the reader
  does nothing when \<open>Front\<close> does. Every operation returns, and what the reader got followed by what
  is still in the queue is exactly the sequence of accepted messages, each with its type, size and
  body intact: none is lost, duplicated, reordered or overwritten.\<close>

theorem spsc_fifo_from_zeroed:
  assumes "shm_conf Bytes" and "list_all (written_op (\<lambda>(mt, body). length body \<le> 65527)) ops"
  shows "\<exists>q' written got left.
           queue_run (\<lambda>(mt, body). spsc_send Bytes hl mt body) (spsc_front_msg Bytes) (spsc_Pop Bytes) ops
             (spsc_zeroed Bytes) = Some (q', written, got) \<and>
           list_all2 (spsc_carries hl) written (got @ left) \<and> (\<exists>W R C. spsc_rel Bytes q' W R C left)"
proof -
  have "spsc_holds Bytes (spsc_zeroed Bytes) []"
    using assms(1) spsc_zeroed_rel by (auto simp: spsc_holds_def)
  moreover have "(\<lambda>(mt :: u16, body :: u8 list). length body \<le> 65527) = (\<lambda>(mt, body). length body + 8 < 65536)"
    by (auto simp: fun_eq_iff)
  with assms(2) have "list_all (written_op (\<lambda>(mt :: u16, body :: u8 list). length body + 8 < 65536)) ops" by simp
  ultimately show ?thesis
    using spsc_fifo.run_fifo [of Bytes "spsc_zeroed Bytes" "[]" ops hl] by (fastforce simp: spsc_holds_def)
qed

theorem spsc_fifo_from_zeroed_witness:
  "\<exists>q' written got left.
     queue_run (\<lambda>(mt, body). spsc_send 256 False mt body) (spsc_front_msg 256) (spsc_Pop 256)
       [Write (1, [5]), Read, Write (2, [6, 7]), Read, Read] (spsc_zeroed 256) = Some (q', written, got) \<and>
     list_all2 (spsc_carries False) written (got @ left)"
  using spsc_fifo_from_zeroed [OF shm_conf_256, of "[Write (1, [5]), Read, Write (2, [6, 7]), Read, Read]" False]
  by auto

text \<open>A message that takes at most half of the ring is never refused for good: once the reader has
  emptied the queue (its \<open>Front\<close> returned the null pointer), the next \<open>Alloc\<close> for such a message
  succeeds wherever the indices are.\<close>

theorem spsc_half_ring_accepted_when_empty:
  assumes "shm_conf Bytes" and "spsc_rel Bytes q W R C []" and "length body \<le> 65527"
    and "2 * blocks 64 (length body + 8) \<le> ring_size Bytes"
  shows "\<exists>q1 q2 W' R' C' m. spsc_Front Bytes q = Some (q1, None) \<and>
           spsc_send Bytes hl mt body q1 = Some (q2, True) \<and>
           spsc_rel Bytes q2 W' R' C' [m] \<and> spsc_carries hl (mt, body) m"
proof -
  let ?n = "blocks 64 (length body + 8)"
  obtain q1 where q1: "spsc_rel Bytes q1 W W C []" "spsc_Front Bytes q = Some (q1, None)"
    by (rule spsc_Front_rel [OF assms(1,2)]) auto
  have room: "W + alloc_span (ring_size Bytes) W ?n \<le> W + ring_size Bytes"
    using assms(4) by (auto simp: alloc_span_def next_lap_def)
  have "length body + 8 < 65536" using assms(3) by simp
  then show ?thesis
    by (rule spsc_send_rel [OF assms(1) q1(1) _ refl room, of hl mt]) (use q1(2) in \<open>auto simp: spsc_carries_def\<close>)
qed

theorem spsc_half_ring_accepted_when_empty_witness:
  "\<exists>q1 q2 W' R' C' m. spsc_Front 256 (spsc_zeroed 256) = Some (q1, None) \<and>
     spsc_send 256 True 1 (replicate 100 9) q1 = Some (q2, True) \<and>
     spsc_rel 256 q2 W' R' C' [m] \<and> spsc_carries True (1, replicate 100 9) m"
  using spsc_half_ring_accepted_when_empty [OF shm_conf_256 spsc_zeroed_rel, of "replicate 100 9"]
  by (simp add: ring_size_256 blocks_def)

text \<open>C37: Beyond half of the ring a message can be refused for good. When the queue is empty, the
  message fits neither behind the write position nor in front of it, then \<open>Alloc\<close> returns the null
  pointer although the whole ring is free; neither \<open>Front\<close> nor \<open>Alloc\<close> moves an index, so that
  retrying cannot succeed.\<close>

theorem spsc_large_message_starves:
  assumes "shm_conf Bytes" and "spsc_rel Bytes q W W C []" and "length body \<le> 65527"
    and "ring_size Bytes - W mod ring_size Bytes < blocks 64 (length body + 8)"
    and "W mod ring_size Bytes < blocks 64 (length body + 8)"
  shows "\<exists>q'. spsc_send Bytes hl mt body q = Some (q', False) \<and> spsc_Front Bytes q' = Some (q', None) \<and>
           spsc_send Bytes hl mt body q' = Some (q', False)"
proof -
  have len: "length body + 8 < 65536" using assms(3) by simp
  have full: "W + ring_size Bytes < W + alloc_span (ring_size Bytes) W (blocks 64 (length body + 8))"
    using assms(4,5) by (auto simp: alloc_span_def next_lap_def)
  note S = spsc_send_full [OF assms(1,2) len full]
  have "spsc_Front Bytes (q\<lparr>vq_read_idx_cach := vq_read_idx q\<rparr>) = Some (q\<lparr>vq_read_idx_cach := vq_read_idx q\<rparr>, None)"
    using spsc_relD(1,2) [OF assms(2)] by (simp add: spsc_Front_def)
  then show ?thesis using S(1) spsc_send_full(1) [OF assms(1) S(2) len full] by simp
qed

theorem spsc_large_message_starves_witness:
  "\<exists>q'. spsc_send 256 True 1 (replicate 130 9) ((spsc_zeroed 256)\<lparr>vq_write_idx := 2, vq_read_idx := 2\<rparr>) = Some (q', False) \<and>
     spsc_Front 256 q' = Some (q', None) \<and> spsc_send 256 True 1 (replicate 130 9) q' = Some (q', False)"
proof -
  have rel: "spsc_rel 256 ((spsc_zeroed 256)\<lparr>vq_write_idx := 2, vq_read_idx := 2\<rparr>) 2 2 0 []"
    by (simp add: spsc_rel_def spsc_zeroed_def ring_size_256)
  show ?thesis
    by (rule spsc_large_message_starves [OF shm_conf_256 rel]) (simp_all add: ring_size_256 blocks_def)
qed

text \<open>\<open>Alloc\<close> does not reject sizes above 65527: for 65528 the 16-bit sum with the header size is 0,
  \<open>Alloc\<close> returns a place in the ring although no ring can be shown to hold the message, and \<open>Push\<close>
  does not move the write index, so that the message is dropped without an error.\<close>

theorem spsc_Alloc_wraps_oversize:
  assumes "shm_conf Bytes" and "spsc_rel Bytes q W R C ms" and "W < R + ring_size Bytes"
  shows "\<exists>q' i. spsc_Alloc Bytes 65528 q = Some (q', Some i) \<and> spsc_Push Bytes q' = Some q' \<and>
           (\<exists>C. spsc_rel Bytes q' W R C ms)"
proof -
  let ?N = "ring_size Bytes" and ?i = "8 * (W mod ring_size Bytes)"
  note D = spsc_relD [OF assms(2)]
  have z: "blk_sz 0 = 0" by (simp add: blk_sz_def)
  have T: "sdiff (word_of_nat C) (word_of_nat W - SHM_BLK_CNT Bytes) < 0 \<longleftrightarrow> C + ?N < W"
    using min_read_idx_test [OF assms(1), of C W 0 0] D z by (simp add: alloc_span_def)
  let ?q = "q\<lparr>vq_blk := (vq_blk q)[?i := (vq_blk q ! ?i)\<lparr>hdr_size := 0\<rparr>]\<rparr>"
  have i: "?i < length (vq_blk q)" using D(7) hdr_cell_less [OF assms(1)] by simp
  have wrap: "(65528 :: u16) + 8 = 0" by (simp add: word_unat_eq_iff)
  have "spsc_Alloc Bytes 65528 q = Some (?q, Some ?i)"
    unfolding spsc_Alloc_def wrap using T D i z by (simp add: spsc_reserve_def Let_def hdr_cell_of_nat [OF assms(1)])
  moreover have "spsc_Push Bytes ?q = Some ?q"
    using D i z by (simp add: spsc_Push_def hdr_cell_of_nat [OF assms(1)])
  ultimately show ?thesis using spsc_rel_header_write [OF assms(1,2,3)] by blast
qed

theorem spsc_Alloc_wraps_oversize_witness:
  "\<exists>q' i. spsc_Alloc 256 65528 (spsc_zeroed 256) = Some (q', Some i) \<and> spsc_Push 256 q' = Some q' \<and>
     (\<exists>C. spsc_rel 256 q' 0 0 C [])"
  by (rule spsc_Alloc_wraps_oversize [OF shm_conf_256 spsc_zeroed_rel]) (simp add: ring_size_256)

end
