(* ===== verification/Tcpshm_Conn.thy ===== *)
theory Tcpshm_Conn
  imports Ptcp_Send Spsc_Varq
begin

text \<open>
  The class \<open>TcpShmConnection\<close> of \<^verbatim>\<open>tcpshm_conn.h\<close>: one interface to a connection that runs either over
  TCP (a \<open>PTCPConnection\<close> with its persistent queue) or over shared memory (two \<open>SPSCVarQueue\<close>s, with the
  TCP socket kept for heartbeats). As \<open>pc_q\<close>, the fields \<open>tc_sendq\<close> and \<open>tc_recvq\<close> are the mapped
  objects, \<open>None\<close> for the null pointer; what the peer does to a shared queue between two calls is a
  step on these contents.

  Character arrays are lists of characters of the array's length, with the C library's \<open>strncpy\<close> and
  \<open>strncmp\<close> on them.
\<close>

section \<open>Character arrays\<close>

definition cstr :: "string \<Rightarrow> string" where
  "cstr s = takeWhile (\<lambda>ch. ch \<noteq> CHR 0x00) s"

text \<open>\<open>strncpy(dst, src, n)\<close>: the characters of \<open>src\<close> up to its end, padded with 0, but no more than \<open>n\<close>.\<close>

definition strncpy :: "string \<Rightarrow> string \<Rightarrow> nat \<Rightarrow> string" where
  "strncpy dst src n = take n (cstr src @ replicate n (CHR 0x00)) @ drop n dst"

text \<open>\<open>strncmp(a, b, n) == 0\<close>\<close>

definition strneq :: "string \<Rightarrow> string \<Rightarrow> nat \<Rightarrow> bool" where
  "strneq a b n \<longleftrightarrow> cstr (take n a) = cstr (take n b)"

lemma length_strncpy [simp]: "n \<le> length dst \<Longrightarrow> length (strncpy dst src n) = length dst"
  by (simp add: strncpy_def)

lemma cstr_take: "cstr (take n s) = take n (cstr s)"
  by (induction s arbitrary: n) (auto simp: cstr_def take_Cons' split: nat.splits)

lemma cstr_idem [simp]: "cstr (cstr s) = cstr s"
  by (simp add: cstr_def)

lemma cstr_append_nul: "cstr (s @ replicate k (CHR 0x00)) = cstr s"
  by (induction s) (auto simp: cstr_def takeWhile_eq_Nil_iff intro: takeWhile_replicate [of _ k, THEN trans])

lemma cstr_strncpy: "length dst = n \<Longrightarrow> cstr (strncpy dst src n) = take n (cstr src)"
  by (simp add: strncpy_def cstr_take cstr_append_nul)

lemma cstr_empty_iff: "0 < length s \<Longrightarrow> cstr s = [] \<longleftrightarrow> s ! 0 = CHR 0x00"
  by (cases s) (simp_all add: cstr_def)

section \<open>The connection\<close>

record tcpshm_conn =
  tc_local_name :: string
  tc_remote_name :: string
  tc_ptcp_dir :: string
  tc_ptcp_conn :: ptcp_conn
  tc_sendq :: "varq option"
  tc_recvq :: "varq option"

text \<open>Where a message header is: in a shared queue, in the TCP queue, or in the receive buffer.\<close>

datatype msg_ptr = Shm_cell nat | Ptcp_cell u32 | Recv_byte u32

text \<open>
  The constructor, which makes \<open>remote_name_\<close> the empty string and leaves the rest of the array
  indeterminate (\<open>junk\<close>), and \<open>init\<close>.
\<close>

definition TcpShmConnection :: "conf \<Rightarrow> string \<Rightarrow> tcpshm_conn" where
  "TcpShmConnection cf junk =
     \<lparr>tc_local_name = [], tc_remote_name = CHR 0x00 # junk, tc_ptcp_dir = [], tc_ptcp_conn = PTCPConnection cf,
      tc_sendq = None, tc_recvq = None\<rparr>"

definition tc_init :: "string \<Rightarrow> string \<Rightarrow> tcpshm_conn \<Rightarrow> tcpshm_conn" where
  "tc_init ptcp_dir local_name c = c\<lparr>tc_ptcp_dir := ptcp_dir, tc_local_name := local_name\<rparr>"

definition tc_GetPtcpFile :: "tcpshm_conn \<Rightarrow> string" where
  "tc_GetPtcpFile c = tc_ptcp_dir c @ ''/'' @ cstr (tc_local_name c) @ ''_'' @ cstr (tc_remote_name c) @ ''.ptcp''"

definition tc_IsClosed :: "tcpshm_conn \<Rightarrow> bool" where
  "tc_IsClosed c = pc_IsClosed (tc_ptcp_conn c)"

definition tc_Close :: "tcpshm_conn \<Rightarrow> tcpshm_conn" where
  "tc_Close c = c\<lparr>tc_ptcp_conn := pc_RequestClose (tc_ptcp_conn c)\<rparr>"

definition tc_GetCloseReason :: "tcpshm_conn \<Rightarrow> string \<times> int" where
  "tc_GetCloseReason c = pc_GetCloseReason (tc_ptcp_conn c)"

subsection \<open>Messages\<close>

definition tc_Alloc :: "conf \<Rightarrow> u16 \<Rightarrow> tcpshm_conn \<Rightarrow> (tcpshm_conn \<times> msg_ptr option) option" where
  "tc_Alloc cf sz c =
     (case tc_sendq c of
        Some q \<Rightarrow> do {
          (q', p) \<leftarrow> spsc_Alloc (ShmQueueSize cf) sz q;
          Some (c\<lparr>tc_sendq := Some q'\<rparr>, map_option Shm_cell p)
        }
      | None \<Rightarrow> do {
          (pc, p) \<leftarrow> pc_Alloc cf sz (tc_ptcp_conn c);
          Some (c\<lparr>tc_ptcp_conn := pc\<rparr>, map_option Ptcp_cell p)
        })"

definition tc_Push :: "'w os \<Rightarrow> conf \<Rightarrow> tcpshm_conn \<Rightarrow> 'w \<Rightarrow> (tcpshm_conn \<times> 'w) option" where
  "tc_Push os cf c w =
     (case tc_sendq c of
        Some q \<Rightarrow> do { q' \<leftarrow> spsc_Push (ShmQueueSize cf) q; Some (c\<lparr>tc_sendq := Some q'\<rparr>, w) }
      | None \<Rightarrow> do { (pc, w') \<leftarrow> pc_Push os cf (tc_ptcp_conn c) w; Some (c\<lparr>tc_ptcp_conn := pc\<rparr>, w') })"

definition tc_PushMore :: "conf \<Rightarrow> tcpshm_conn \<Rightarrow> tcpshm_conn option" where
  "tc_PushMore cf c =
     (case tc_sendq c of
        Some q \<Rightarrow> do { q' \<leftarrow> spsc_Push (ShmQueueSize cf) q; Some (c\<lparr>tc_sendq := Some q'\<rparr>) }
      | None \<Rightarrow> do { pc \<leftarrow> pc_PushMore cf (tc_ptcp_conn c); Some (c\<lparr>tc_ptcp_conn := pc\<rparr>) })"

definition tc_ShmFront :: "conf \<Rightarrow> tcpshm_conn \<Rightarrow> (msg_ptr option \<times> tcpshm_conn) option" where
  "tc_ShmFront cf c = do {
     q \<leftarrow> tc_recvq c;
     (q', p) \<leftarrow> spsc_Front (ShmQueueSize cf) q;
     Some (map_option Shm_cell p, c\<lparr>tc_recvq := Some q'\<rparr>)
   }"

definition tc_Front :: "'w os \<Rightarrow> conf \<Rightarrow> tcpshm_conn \<Rightarrow> 'w \<Rightarrow> (msg_ptr option \<times> tcpshm_conn \<times> 'w) option" where
  "tc_Front os cf c w =
     (case tc_recvq c of
        Some _ \<Rightarrow> do { (p, c') \<leftarrow> tc_ShmFront cf c; Some (p, c', w) }
      | None \<Rightarrow> do {
          (p, pc, w') \<leftarrow> pc_Front os cf (tc_ptcp_conn c) w;
          Some (map_option Recv_byte p, c\<lparr>tc_ptcp_conn := pc\<rparr>, w')
        })"

definition tc_Pop :: "conf \<Rightarrow> tcpshm_conn \<Rightarrow> tcpshm_conn option" where
  "tc_Pop cf c =
     (case tc_recvq c of
        Some q \<Rightarrow> do { q' \<leftarrow> spsc_Pop (ShmQueueSize cf) q; Some (c\<lparr>tc_recvq := Some q'\<rparr>) }
      | None \<Rightarrow> do { pc \<leftarrow> pc_Pop cf (tc_ptcp_conn c); Some (c\<lparr>tc_ptcp_conn := pc\<rparr>) })"

definition tc_TcpFront :: "'w os \<Rightarrow> conf \<Rightarrow> int \<Rightarrow> tcpshm_conn \<Rightarrow> 'w \<Rightarrow> (msg_ptr option \<times> tcpshm_conn \<times> 'w) option" where
  "tc_TcpFront os cf now c w = do {
     (pc, w1) \<leftarrow> pc_SendHB os cf now (tc_ptcp_conn c) w;
     (p, pc', w2) \<leftarrow> pc_Front os cf pc w1;
     Some (map_option Recv_byte p, c\<lparr>tc_ptcp_conn := pc'\<rparr>, w2)
   }"

subsection \<open>Files\<close>

text \<open>The kernel's mappings of the two kinds of queue files.\<close>

record 'w queue_maps =
  map_ptcp :: "(ptcp_queue, 'w) map_ops"
  map_shm :: "(varq, 'w) map_ops"

definition tc_OpenFile ::
    "'w os \<Rightarrow> 'w queue_maps \<Rightarrow> bool \<Rightarrow> tcpshm_conn \<Rightarrow> 'w \<Rightarrow> (unit + string) \<times> tcpshm_conn \<times> 'w" where
  "tc_OpenFile os T use_shm c w =
     (if use_shm
      then let shm_send_file = ''/'' @ cstr (tc_local_name c) @ ''_'' @ cstr (tc_remote_name c) @ ''.shm'';
               shm_recv_file = ''/'' @ cstr (tc_remote_name c) @ ''_'' @ cstr (tc_local_name c) @ ''.shm'';
               (r1, c1, w1) = (case tc_sendq c of
                  Some _ \<Rightarrow> (Inl (), c, w)
                | None \<Rightarrow> (case my_mmap os (map_shm T) shm_send_file True w of
                     (Inl q, w') \<Rightarrow> (Inl (), c\<lparr>tc_sendq := Some q\<rparr>, w')
                   | (Inr e, w') \<Rightarrow> (Inr e, c, w')))
           in case r1 of
                Inr e \<Rightarrow> (Inr e, c1, w1)
              | Inl _ \<Rightarrow> (case tc_recvq c1 of
                  Some _ \<Rightarrow> (Inl (), c1, w1)
                | None \<Rightarrow> (case my_mmap os (map_shm T) shm_recv_file True w1 of
                     (Inl q, w') \<Rightarrow> (Inl (), c1\<lparr>tc_recvq := Some q\<rparr>, w')
                   | (Inr e, w') \<Rightarrow> (Inr e, c1, w')))
      else case pc_OpenFile os (map_ptcp T) (tc_GetPtcpFile c) (tc_ptcp_conn c) w of
             (r, pc, w') \<Rightarrow> (r, c\<lparr>tc_ptcp_conn := pc\<rparr>, w'))"

text \<open>
  \<open>GetSeq\<close> with the initial values of its three out parameters: whether it succeeded and what they
  hold afterwards.
\<close>

definition tc_GetSeq :: "conf \<Rightarrow> tcpshm_conn \<Rightarrow> u32 \<times> u32 \<times> u32 \<Rightarrow> (bool \<times> u32 \<times> u32 \<times> u32) option" where
  "tc_GetSeq cf c = (\<lambda>(ack_seq, seq_start, seq_end).
     (case tc_sendq c of
        Some _ \<Rightarrow> Some (True, ack_seq, seq_start, seq_end)
      | None \<Rightarrow> do {
          (a, r) \<leftarrow> pc_GetSeq cf (tc_ptcp_conn c);
          Some (case r of None \<Rightarrow> (False, a, seq_start, seq_end) | Some (s, e) \<Rightarrow> (True, a, s, e))
        }))"

definition tc_Reset :: "conf \<Rightarrow> tcpshm_conn \<Rightarrow> tcpshm_conn option" where
  "tc_Reset cf c =
     (case tc_sendq c of
        Some _ \<Rightarrow> do {
          q \<leftarrow> tc_recvq c;
          Some (c\<lparr>tc_sendq := Some (spsc_zeroed (ShmQueueSize cf)), tc_recvq := Some (spsc_zeroed (ShmQueueSize cf))\<rparr>)
        }
      | None \<Rightarrow> do { pc \<leftarrow> pc_Reset cf (tc_ptcp_conn c); Some (c\<lparr>tc_ptcp_conn := pc\<rparr>) })"

definition tc_Release :: "'w os \<Rightarrow> 'w queue_maps \<Rightarrow> tcpshm_conn \<Rightarrow> 'w \<Rightarrow> tcpshm_conn \<times> 'w" where
  "tc_Release os T c w =
     (let w1 = (case tc_sendq c of Some q \<Rightarrow> my_munmap (map_shm T) q w | None \<Rightarrow> w);
          w2 = (case tc_recvq c of Some q \<Rightarrow> my_munmap (map_shm T) q w1 | None \<Rightarrow> w1);
          (pc, w3) = pc_Release os (map_ptcp T) (tc_ptcp_conn c) w2
      in (c\<lparr>tc_remote_name := CHR 0x00 # tl (tc_remote_name c), tc_sendq := None, tc_recvq := None,
            tc_ptcp_conn := pc\<rparr>, w3))"

definition tc_Open :: "'w os \<Rightarrow> conf \<Rightarrow> int \<Rightarrow> u32 \<Rightarrow> int \<Rightarrow> tcpshm_conn \<Rightarrow> 'w \<Rightarrow> (tcpshm_conn \<times> 'w) option" where
  "tc_Open os cf sock_fd remote_ack_seq now c w = do {
     (pc, w') \<leftarrow> pc_Open os cf sock_fd remote_ack_seq now (tc_ptcp_conn c) w;
     Some (c\<lparr>tc_ptcp_conn := pc\<rparr>, w')
   }"

definition tc_TryCloseFd :: "'w os \<Rightarrow> tcpshm_conn \<Rightarrow> 'w \<Rightarrow> bool \<times> tcpshm_conn \<times> 'w" where
  "tc_TryCloseFd os c w =
     (case pc_TryCloseFd os (tc_ptcp_conn c) w of (r, pc, w') \<Rightarrow> (r, c\<lparr>tc_ptcp_conn := pc\<rparr>, w'))"

section \<open>Both kinds of connection are send queues\<close>

text \<open>
  An application's write through the interface: \<open>Alloc\<close>, set the type and copy the body, \<open>Push\<close>.
  \<open>False\<close> when \<open>Alloc\<close> returned the null pointer.
\<close>

definition tc_send :: "'w os \<Rightarrow> conf \<Rightarrow> u16 \<Rightarrow> u8 list \<Rightarrow> tcpshm_conn \<times> 'w \<Rightarrow> ((tcpshm_conn \<times> 'w) \<times> bool) option" where
  "tc_send os cf mt body = (\<lambda>(c, w). do {
     (c1, p) \<leftarrow> tc_Alloc cf (word_of_nat (length body)) c;
     (case p of
        None \<Rightarrow> Some ((c1, w), False)
      | Some (Shm_cell i) \<Rightarrow> do {
          q \<leftarrow> tc_sendq c1;
          b \<leftarrow> fill_msg (HostLittle cf) i mt body (vq_blk q);
          r \<leftarrow> tc_Push os cf (c1\<lparr>tc_sendq := Some (q\<lparr>vq_blk := b\<rparr>)\<rparr>) w;
          Some (r, True)
        }
      | Some (Ptcp_cell i) \<Rightarrow> do {
          q \<leftarrow> pc_q (tc_ptcp_conn c1);
          b \<leftarrow> fill_msg (HostLittle cf) (unat i) mt body (pq_blk q);
          r \<leftarrow> tc_Push os cf (c1\<lparr>tc_ptcp_conn := (tc_ptcp_conn c1)\<lparr>pc_q := Some (q\<lparr>pq_blk := b\<rparr>)\<rparr>\<rparr>) w;
          Some (r, True)
        }
      | Some (Recv_byte _) \<Rightarrow> None)
   })"

text \<open>The messages in the send queue of a connection, whichever it is.\<close>

definition tc_holds :: "conf \<Rightarrow> tcpshm_conn \<Rightarrow> msg_header list list \<Rightarrow> bool" where
  "tc_holds cf c ms \<longleftrightarrow>
     (case tc_sendq c of
        Some q \<Rightarrow> spsc_holds (ShmQueueSize cf) q ms
      | None \<Rightarrow> (\<exists>q. pc_q (tc_ptcp_conn c) = Some q \<and>
                   ptcp_rel (TcpQueueSize cf) (ToLittleEndian cf) (HostLittle cf) q ms))"

text \<open>The body, size and type a stored message carries; headers are in wire order in the TCP queue only.\<close>

definition tc_carries :: "conf \<Rightarrow> tcpshm_conn \<Rightarrow> u16 \<times> u8 list \<Rightarrow> msg_header list \<Rightarrow> bool" where
  "tc_carries cf c = (\<lambda>(mt, body) m.
     let wl = (if tc_sendq c = None then ToLittleEndian cf else HostLittle cf)
     in msg_body wl (HostLittle cf) m = body \<and>
        hdr_size (msg_header_of wl (HostLittle cf) m) = word_of_nat (length body + 8) \<and>
        hdr_msg_type (msg_header_of wl (HostLittle cf) m) = mt)"

definition send_os :: "'w os \<Rightarrow> bool" where
  "send_os os \<longleftrightarrow> send_ok os \<and> send_progress os \<and> (\<exists>out. stream_send os out)"

lemma pc_SendPending_keeps:
  assumes os: "send_os os" and q: "pc_q c = Some q" "ptcp_rel (TcpQueueSize cf) wl hl q ms"
  obtains ok c' w' q' where "pc_SendPending os cf c w = Some (ok, c', w')" and "pc_q c' = Some q'"
    and "ptcp_rel (TcpQueueSize cf) wl hl q' ms"
    and "pq_read_seq_num q' = pq_read_seq_num q" and "pq_ack_seq_num q' = pq_ack_seq_num q"
proof -
  obtain out where O: "send_ok os" "send_progress os" "stream_send os out" using os by (auto simp: send_os_def)
  consider "pc_IsClosed c" | "\<not> pc_IsClosed c" "unsent q = []" | "\<not> pc_IsClosed c" "unsent q \<noteq> []" by blast
  then show ?thesis
  proof cases
    case 1
    then show ?thesis using that [of False c w q] q by (simp add: pc_SendPending_def)
  next
    case 2
    then show ?thesis using that [of False c w q] q ptcp_GetSendable_unsent [OF q(2)] by (simp add: pc_SendPending_def)
  next
    case 3
    obtain ok c' w' k where S: "pc_SendPending os cf c w = Some (ok, c', w')"
      "ok \<Longrightarrow> \<exists>q'. pc_q c' = Some q' \<and> ptcp_rel (TcpQueueSize cf) wl hl q' ms \<and>
         pq_read_seq_num q' = pq_read_seq_num q \<and> pq_ack_seq_num q' = pq_ack_seq_num q"
      "\<not> ok \<Longrightarrow> pc_q c' = Some q"
      by (rule pc_SendPending_spec [OF O q 3, of w]) blast
    then show ?thesis using that [of ok c' w'] q(2) by (cases ok) auto
  qed
qed

text \<open>Writing through the interface is writing to the queue behind it.\<close>

lemma tc_send_shm:
  assumes "tc_sendq c = Some q" and "spsc_send (ShmQueueSize cf) (HostLittle cf) mt body q = Some (q', ok)"
  shows "tc_send os cf mt body (c, w) = Some ((c\<lparr>tc_sendq := Some q'\<rparr>, w), ok)"
proof -
  obtain q1 p where alloc: "spsc_Alloc (ShmQueueSize cf) (word_of_nat (length body)) q = Some (q1, p)"
    using assms(2) by (auto simp: spsc_send_def Option.bind_eq_Some_conv)
  show ?thesis
  proof (cases p)
    case None
    then show ?thesis using assms alloc by (simp add: spsc_send_def tc_send_def tc_Alloc_def)
  next
    case (Some i)
    then obtain b where "fill_msg (HostLittle cf) i mt body (vq_blk q1) = Some b"
      "spsc_Push (ShmQueueSize cf) (q1\<lparr>vq_blk := b\<rparr>) = Some q'" ok
      using assms(2) alloc by (auto simp: spsc_send_def Option.bind_eq_Some_conv)
    then show ?thesis using assms(1) alloc Some by (simp add: tc_send_def tc_Alloc_def tc_Push_def)
  qed
qed

lemma tc_send_tcp:
  assumes "tc_sendq c = None" and "pc_q (tc_ptcp_conn c) = Some q"
    and "ptcp_send (TcpQueueSize cf) (ToLittleEndian cf) (HostLittle cf) mt body q = Some (q', ok)"
    and "pc_SendPending os cf ((tc_ptcp_conn c)\<lparr>pc_q := Some q'\<rparr>) w = Some (sent, pc, w')"
  shows "tc_send os cf mt body (c, w) =
    Some (if ok then ((c\<lparr>tc_ptcp_conn := pc\<rparr>, w'), True)
          else ((c\<lparr>tc_ptcp_conn := (tc_ptcp_conn c)\<lparr>pc_q := Some q'\<rparr>\<rparr>, w), False))"
proof -
  obtain q1 p where alloc: "ptcp_Alloc (TcpQueueSize cf) (word_of_nat (length body)) q = Some (q1, p)"
    using assms(3) by (auto simp: ptcp_send_def Option.bind_eq_Some_conv)
  show ?thesis
  proof (cases p)
    case None
    then show ?thesis using assms alloc by (simp add: ptcp_send_def tc_send_def tc_Alloc_def pc_Alloc_def)
  next
    case (Some i)
    then obtain b where "fill_msg (HostLittle cf) (unat i) mt body (pq_blk q1) = Some b"
      "ptcp_Push (ToLittleEndian cf) (HostLittle cf) (q1\<lparr>pq_blk := b\<rparr>) = Some q'" ok
      using assms(3) alloc by (auto simp: ptcp_send_def Option.bind_eq_Some_conv)
    then show ?thesis using assms(1,2,4) alloc Some
      by (simp add: tc_send_def tc_Alloc_def tc_Push_def pc_Alloc_def pc_Push_def pc_PushMore_def)
  qed
qed

lemma tc_send_outcome:
  assumes os: "send_os os" and holds: "tc_holds cf c ms" and len: "length body + 8 < 65536"
  shows "(\<exists>c' w' m. tc_send os cf mt body (c, w) = Some ((c', w'), True) \<and> tc_holds cf c' (ms @ [m]) \<and>
            tc_carries cf c (mt, body) m) \<or>
         (\<exists>c' w'. tc_send os cf mt body (c, w) = Some ((c', w'), False) \<and> tc_holds cf c' ms)"
proof (cases "tc_sendq c")
  case (Some q)
  then have h: "spsc_holds (ShmQueueSize cf) q ms" using holds by (simp add: tc_holds_def)
  obtain q' ok where step: "spsc_send (ShmQueueSize cf) (HostLittle cf) mt body q = Some (q', ok)"
    using spsc_fifo.send_returns [OF h, of "(mt, body)" "HostLittle cf"] len by auto
  note S = tc_send_shm [OF Some step, of os w]
  show ?thesis
  proof (cases ok)
    case True
    then show ?thesis using spsc_fifo.send_accept [OF h, of "(mt, body)" "HostLittle cf" q'] step len S Some
      by (auto simp: tc_holds_def tc_carries_def spsc_carries_def Let_def)
  next
    case False
    then show ?thesis using spsc_fifo.send_reject [OF h, of "(mt, body)" "HostLittle cf" q'] step len S Some
      by (auto simp: tc_holds_def)
  qed
next
  case None
  then obtain q where q: "pc_q (tc_ptcp_conn c) = Some q"
    and rel: "ptcp_rel (TcpQueueSize cf) (ToLittleEndian cf) (HostLittle cf) q ms"
    using holds by (auto simp: tc_holds_def)
  obtain q' ok where step: "ptcp_send (TcpQueueSize cf) (ToLittleEndian cf) (HostLittle cf) mt body q = Some (q', ok)"
    using ptcp_sq.send_returns [OF rel, of "(mt, body)"] len by auto
  show ?thesis
  proof (cases ok)
    case True
    obtain m where rel': "ptcp_rel (TcpQueueSize cf) (ToLittleEndian cf) (HostLittle cf) q' (ms @ [m])"
      and m: "tc_carries cf c (mt, body) m"
      using ptcp_sq.send_accept [OF rel, of "(mt, body)" q'] step len True None by (auto simp: tc_carries_def)
    have pcq: "pc_q ((tc_ptcp_conn c)\<lparr>pc_q := Some q'\<rparr>) = Some q'" by simp
    obtain sent pc w' q'' where P: "pc_SendPending os cf ((tc_ptcp_conn c)\<lparr>pc_q := Some q'\<rparr>) w = Some (sent, pc, w')"
      "pc_q pc = Some q''" "ptcp_rel (TcpQueueSize cf) (ToLittleEndian cf) (HostLittle cf) q'' (ms @ [m])"
      by (rule pc_SendPending_keeps [OF os pcq rel'])
    show ?thesis using tc_send_tcp [OF None q step P(1)] P(2,3) m True None by (auto simp: tc_holds_def)
  next
    case False
    then have rel': "ptcp_rel (TcpQueueSize cf) (ToLittleEndian cf) (HostLittle cf) q' ms"
      using ptcp_sq.send_reject [OF rel, of "(mt, body)" q'] step len by simp
    have pcq: "pc_q ((tc_ptcp_conn c)\<lparr>pc_q := Some q'\<rparr>) = Some q'" by simp
    obtain sent pc w' q'' where P: "pc_SendPending os cf ((tc_ptcp_conn c)\<lparr>pc_q := Some q'\<rparr>) w = Some (sent, pc, w')"
      by (rule pc_SendPending_keeps [OF os pcq rel'])
    show ?thesis using tc_send_tcp [OF None q step P] rel' False None by (auto simp: tc_holds_def)
  qed
qed

interpretation tc_sq: send_queue
  "\<lambda>(c, w) ms. send_os os \<and> tc_holds cf c ms"
  "\<lambda>(mt, body). tc_send os cf mt body"
  "\<lambda>(mt, body). length body + 8 < 65536"
  "\<lambda>(c, w). tc_carries cf c"
  for os :: "'w os" and cf
proof
  fix q :: "tcpshm_conn \<times> 'w" and ms :: "msg_header list list" and x :: "u16 \<times> u8 list"
  assume h: "(case q of (c, w) \<Rightarrow> \<lambda>ms. send_os os \<and> tc_holds cf c ms) ms" and x: "case x of (mt, body) \<Rightarrow> length body + 8 < 65536"
  obtain c w mt body where [simp]: "q = (c, w)" "x = (mt, body)" by (cases q, cases x)
  have O: "(\<exists>c' w' m. tc_send os cf mt body (c, w) = Some ((c', w'), True) \<and> tc_holds cf c' (ms @ [m]) \<and>
            tc_carries cf c (mt, body) m) \<or>
         (\<exists>c' w'. tc_send os cf mt body (c, w) = Some ((c', w'), False) \<and> tc_holds cf c' ms)"
    using h x by (intro tc_send_outcome) simp_all
  then show "\<exists>q' ok. (case x of (mt, body) \<Rightarrow> tc_send os cf mt body) q = Some (q', ok)" by auto
  show "\<exists>m. (case q' of (c, w) \<Rightarrow> \<lambda>ms. send_os os \<and> tc_holds cf c ms) (ms @ [m]) \<and> (case q of (c, w) \<Rightarrow> tc_carries cf c) x m"
    if "(case x of (mt, body) \<Rightarrow> tc_send os cf mt body) q = Some (q', True)" for q'
    using O that h by auto
  show "(case q' of (c, w) \<Rightarrow> \<lambda>ms. send_os os \<and> tc_holds cf c ms) ms"
    if "(case x of (mt, body) \<Rightarrow> tc_send os cf mt body) q = Some (q', False)" for q'
    using O that h by auto
qed

section \<open>Properties\<close>

lemma script_send_os: "send_os script_os"
  using script_send_ok script_send_progress script_stream_send by (auto simp: send_os_def)

text \<open>C28: One interface for both transports. Whatever a connection runs over, writing a message of up to
  65527 bytes through \<open>Alloc\<close> and \<open>Push\<close> returns; if \<open>Alloc\<close> gave a place, the send queue ends up with
  its old messages followed by this one, with type, size and body intact (over TCP also when the
  socket fails meanwhile and the connection is closed), and if it gave the null pointer the
  messages are the old ones.\<close>

theorem tc_send_appends:
  assumes "send_os os" and "tc_holds cf c ms" and "length body \<le> 65527"
  shows "\<exists>c' w' ok. tc_send os cf mt body (c, w) = Some ((c', w'), ok) \<and>
           (if ok then \<exists>m. tc_holds cf c' (ms @ [m]) \<and> tc_carries cf c (mt, body) m else tc_holds cf c' ms)"
proof -
  have "length body + 8 < 65536" using assms(3) by simp
  from tc_send_outcome [OF assms(1,2) this, of mt w] show ?thesis by fastforce
qed

theorem tc_send_appends_witness:
  "\<exists>c' w' ok. tc_send script_os sample_conf 7 [1, 2]
      ((TcpShmConnection sample_conf [])\<lparr>tc_ptcp_conn := sample_conn\<rparr>,
       \<lparr>sw_out = [], sw_inp = [], sw_limits = [3], sw_closed = []\<rparr>) = Some ((c', w'), ok) \<and>
     (if ok then \<exists>m. tc_holds sample_conf c' [m] else tc_holds sample_conf c' [])"
proof -
  have "tc_holds sample_conf ((TcpShmConnection sample_conf [])\<lparr>tc_ptcp_conn := sample_conn\<rparr>) []"
    using ptcp_zeroed_rel [of 64 True False]
    by (simp add: tc_holds_def TcpShmConnection_def sample_conn_def sample_conf_def)
  from tc_send_appends [OF script_send_os this, of "[1, 2]" 7
      "\<lparr>sw_out = [], sw_inp = [], sw_limits = [3], sw_closed = []\<rparr>"]
  show ?thesis by (fastforce split: if_splits)
qed

text \<open>C39: A connection object does not change its transport. Once it has been opened over TCP, opening it
  over shared memory without \<open>Release\<close> in between leaves both kinds of queue mapped: messages
  are then written to shared memory, while the TCP side still has its queue, so that \<open>UseShm\<close>
  is false and the TCP channel is read as if it carried messages.\<close>

theorem tc_OpenFile_mixes_transports:
  assumes "tc_OpenFile os T False c w = (Inl (), c1, w1)" and "tc_OpenFile os T True c1 w1 = (Inl (), c2, w2)"
  shows "tc_sendq c2 \<noteq> None \<and> tc_recvq c2 \<noteq> None \<and> pc_q (tc_ptcp_conn c2) \<noteq> None \<and> \<not> pc_UseShm (tc_ptcp_conn c2)"
proof -
  have "pc_q (tc_ptcp_conn c1) \<noteq> None"
    using assms(1) by (auto simp: tc_OpenFile_def pc_OpenFile_def split: option.splits sum.splits prod.splits)
  moreover have "tc_ptcp_conn c2 = tc_ptcp_conn c1" "tc_sendq c2 \<noteq> None" "tc_recvq c2 \<noteq> None"
    using assms(2) by (auto simp: tc_OpenFile_def Let_def split: option.splits sum.splits prod.splits)
  ultimately show ?thesis by (simp add: pc_UseShm_def)
qed

definition sample_maps :: "script_world queue_maps" where
  "sample_maps = \<lparr>map_ptcp = \<lparr>map_sizeof = 84, map_fd = (\<lambda>fd w. (Some (ptcp_zeroed 64), w)), unmap = (\<lambda>q w. w)\<rparr>,
     map_shm = \<lparr>map_sizeof = 512, map_fd = (\<lambda>fd w. (Some (spsc_zeroed 256), w)), unmap = (\<lambda>q w. w)\<rparr>\<rparr>"

theorem tc_OpenFile_mixes_transports_witness:
  "\<exists>c1 w1 c2 w2. tc_OpenFile script_os sample_maps False (TcpShmConnection sample_conf [])
       \<lparr>sw_out = [], sw_inp = [], sw_limits = [], sw_closed = []\<rparr> = (Inl (), c1, w1) \<and>
     tc_OpenFile script_os sample_maps True c1 w1 = (Inl (), c2, w2) \<and>
     tc_sendq c2 \<noteq> None \<and> tc_recvq c2 \<noteq> None \<and> pc_q (tc_ptcp_conn c2) \<noteq> None \<and> \<not> pc_UseShm (tc_ptcp_conn c2)"
proof -
  let ?w = "\<lparr>sw_out = [], sw_inp = [], sw_limits = [], sw_closed = []\<rparr>"
  have "\<exists>c1 w1. tc_OpenFile script_os sample_maps False (TcpShmConnection sample_conf []) ?w = (Inl (), c1, w1) \<and>
      tc_sendq c1 = None \<and> tc_recvq c1 = None"
    by (simp add: tc_OpenFile_def pc_OpenFile_def my_mmap_def mmap_and_close_def sample_maps_def script_os_def
        TcpShmConnection_def PTCPConnection_def)
  then obtain c1 w1 where 1: "tc_OpenFile script_os sample_maps False (TcpShmConnection sample_conf []) ?w = (Inl (), c1, w1)"
    "tc_sendq c1 = None" "tc_recvq c1 = None" by blast
  have "\<exists>c2 w2. tc_OpenFile script_os sample_maps True c1 w1 = (Inl (), c2, w2)"
    using 1(2,3) by (simp add: tc_OpenFile_def Let_def my_mmap_def mmap_and_close_def sample_maps_def script_os_def)
  then show ?thesis using 1(1) tc_OpenFile_mixes_transports [OF 1(1)] by blast
qed

end
