(* ===== verification/Login_Msg.thy ===== *)
theory Login_Msg
  imports Tcpshm_Conn
begin

text \<open>
  The messages of the login phase (\<^verbatim>\<open>ptcp_conn.h\<close>): \<open>LoginMsgTpl\<close>, \<open>LoginRspMsgTpl\<close>, \<open>ShmProbeReqMsg\<close>,
  \<open>ShmProbeRspMsg\<close> and the shared \<open>ShmProbeData\<close>, with their layout in memory and their
  \<open>ConvertByteOrder\<close>. A message is sent as a buffer of whole 8-byte cells: the header, the struct, and
  padding whose contents the source leaves indeterminate (the parameter \<open>pad\<close>).
\<close>

section \<open>Characters in memory\<close>

definition char_bytes :: "string \<Rightarrow> u8 list" where
  "char_bytes s = map (\<lambda>ch. word_of_nat (of_char ch)) s"

definition bytes_chars :: "u8 list \<Rightarrow> string" where
  "bytes_chars bs = map (\<lambda>b. char_of (unat b)) bs"

lemma length_char_bytes [simp]: "length (char_bytes s) = length s"
  by (simp add: char_bytes_def)

lemma bytes_chars_bytes [simp]: "bytes_chars (char_bytes s) = s"
proof -
  have "unat (word_of_nat (of_char ch) :: u8) = of_char ch" for ch :: char
    using of_char_mod_256 [of ch, where ?'a = nat] by (simp add: unat_of_nat)
  then show ?thesis by (simp add: bytes_chars_def char_bytes_def comp_def)
qed

section \<open>LoginMsgTpl\<close>

record login_msg =
  lm_client_seq_start :: u32
  lm_client_seq_end :: u32
  lm_user_data :: "u8 list"
  lm_use_shm :: u8
  lm_client_name :: string
  lm_last_server_name :: string

definition LoginMsg_msg_type :: u16 where
  "LoginMsg_msg_type = 1"

definition sizeof_LoginMsg :: "conf \<Rightarrow> nat" where
  "sizeof_LoginMsg cf = 4 * blocks 4 (9 + LoginUserDataSize cf + 2 * NameSize cf)"

definition lm_ConvertByteOrder :: "bool \<Rightarrow> bool \<Rightarrow> login_msg \<Rightarrow> login_msg" where
  "lm_ConvertByteOrder ToLittle IsLittle m =
     m\<lparr>lm_client_seq_start := Convert ToLittle IsLittle (lm_client_seq_start m),
       lm_client_seq_end := Convert ToLittle IsLittle (lm_client_seq_end m)\<rparr>"

definition login_bytes :: "bool \<Rightarrow> login_msg \<Rightarrow> u8 list" where
  "login_bytes hl m =
     mem_bytes hl 4 (lm_client_seq_start m) @ mem_bytes hl 4 (lm_client_seq_end m) @ lm_user_data m @
     [lm_use_shm m] @ char_bytes (lm_client_name m) @ char_bytes (lm_last_server_name m)"

definition login_of_bytes :: "conf \<Rightarrow> bool \<Rightarrow> u8 list \<Rightarrow> login_msg" where
  "login_of_bytes cf hl bs =
     (let U = LoginUserDataSize cf; N = NameSize cf
      in \<lparr>lm_client_seq_start = mem_word hl (take 4 bs), lm_client_seq_end = mem_word hl (take 4 (drop 4 bs)),
          lm_user_data = take U (drop 8 bs), lm_use_shm = bs ! (8 + U),
          lm_client_name = bytes_chars (take N (drop (9 + U) bs)),
          lm_last_server_name = bytes_chars (take N (drop (9 + U + N) bs))\<rparr>)"

definition wf_login :: "conf \<Rightarrow> login_msg \<Rightarrow> bool" where
  "wf_login cf m \<longleftrightarrow> length (lm_user_data m) = LoginUserDataSize cf \<and> length (lm_client_name m) = NameSize cf \<and>
     length (lm_last_server_name m) = NameSize cf"

lemma length_login_bytes: "wf_login cf m \<Longrightarrow> length (login_bytes hl m) = 9 + LoginUserDataSize cf + 2 * NameSize cf"
  by (simp add: wf_login_def login_bytes_def)

lemma login_of_bytes_bytes:
  assumes "wf_login cf m"
  shows "login_of_bytes cf hl (login_bytes hl m @ pad) = m"
  using assms by (simp add: login_of_bytes_def login_bytes_def wf_login_def Let_def mem_word_bytes_width nth_append)

interpretation conv_login: in_place_conversion "lm_ConvertByteOrder wl hl" for wl hl
  by unfold_locales (simp add: lm_ConvertByteOrder_def)

section \<open>LoginRspMsgTpl\<close>

record login_rsp =
  lr_server_seq_start :: u32
  lr_server_seq_end :: u32
  lr_user_data :: "u8 list"
  lr_status :: u8
  lr_server_name :: string
  lr_error_msg :: string

definition LoginRspMsg_msg_type :: u16 where
  "LoginRspMsg_msg_type = 2"

definition sizeof_LoginRspMsg :: "conf \<Rightarrow> nat" where
  "sizeof_LoginRspMsg cf = 4 * blocks 4 (41 + LoginRspUserDataSize cf + NameSize cf)"

definition lr_ConvertByteOrder :: "bool \<Rightarrow> bool \<Rightarrow> login_rsp \<Rightarrow> login_rsp" where
  "lr_ConvertByteOrder ToLittle IsLittle m =
     m\<lparr>lr_server_seq_start := Convert ToLittle IsLittle (lr_server_seq_start m),
       lr_server_seq_end := Convert ToLittle IsLittle (lr_server_seq_end m)\<rparr>"

definition rsp_bytes :: "bool \<Rightarrow> login_rsp \<Rightarrow> u8 list" where
  "rsp_bytes hl m =
     mem_bytes hl 4 (lr_server_seq_start m) @ mem_bytes hl 4 (lr_server_seq_end m) @ lr_user_data m @
     [lr_status m] @ char_bytes (lr_server_name m) @ char_bytes (lr_error_msg m)"

definition rsp_of_bytes :: "conf \<Rightarrow> bool \<Rightarrow> u8 list \<Rightarrow> login_rsp" where
  "rsp_of_bytes cf hl bs =
     (let U = LoginRspUserDataSize cf; N = NameSize cf
      in \<lparr>lr_server_seq_start = mem_word hl (take 4 bs), lr_server_seq_end = mem_word hl (take 4 (drop 4 bs)),
          lr_user_data = take U (drop 8 bs), lr_status = bs ! (8 + U),
          lr_server_name = bytes_chars (take N (drop (9 + U) bs)),
          lr_error_msg = bytes_chars (take 32 (drop (9 + U + N) bs))\<rparr>)"

definition wf_rsp :: "conf \<Rightarrow> login_rsp \<Rightarrow> bool" where
  "wf_rsp cf m \<longleftrightarrow> length (lr_user_data m) = LoginRspUserDataSize cf \<and> length (lr_server_name m) = NameSize cf \<and>
     length (lr_error_msg m) = 32"

lemma length_rsp_bytes: "wf_rsp cf m \<Longrightarrow> length (rsp_bytes hl m) = 41 + LoginRspUserDataSize cf + NameSize cf"
  by (simp add: wf_rsp_def rsp_bytes_def)

lemma rsp_of_bytes_bytes:
  assumes "wf_rsp cf m"
  shows "rsp_of_bytes cf hl (rsp_bytes hl m @ pad) = m"
  using assms by (simp add: rsp_of_bytes_def rsp_bytes_def wf_rsp_def Let_def mem_word_bytes_width nth_append)

interpretation conv_rsp: in_place_conversion "lr_ConvertByteOrder wl hl" for wl hl
  by unfold_locales (simp add: lr_ConvertByteOrder_def)

section \<open>The shared-memory probe\<close>

definition ShmProbeAckMask :: u64 where
  "ShmProbeAckMask = 0x5a5a5a5a5a5a5a5a"

definition ShmProbeNameSize :: nat where
  "ShmProbeNameSize = 64"

record shm_probe_data =
  pd_token :: u64
  pd_ack :: u64

text \<open>A mapped \<open>ShmProbeData\<close>, shared with another process: reached by its address, its fields are in the world.\<close>

record 'w probe_mem =
  pm_map :: "(nat, 'w) map_ops"
  pm_token :: "nat \<Rightarrow> 'w \<Rightarrow> u64"
  pm_ack :: "nat \<Rightarrow> 'w \<Rightarrow> u64"
  pm_set_token :: "nat \<Rightarrow> u64 \<Rightarrow> 'w \<Rightarrow> 'w"
  pm_set_ack :: "nat \<Rightarrow> u64 \<Rightarrow> 'w \<Rightarrow> 'w"

record shm_probe_req =
  pr_token :: u64
  pr_shm_name :: string

definition ShmProbeReqMsg_msg_type :: u16 where
  "ShmProbeReqMsg_msg_type = 3"

definition sizeof_ShmProbeReqMsg :: nat where
  "sizeof_ShmProbeReqMsg = 72"

definition pr_ConvertByteOrder :: "bool \<Rightarrow> bool \<Rightarrow> shm_probe_req \<Rightarrow> shm_probe_req" where
  "pr_ConvertByteOrder ToLittle IsLittle m = m\<lparr>pr_token := Convert ToLittle IsLittle (pr_token m)\<rparr>"

definition req_bytes :: "bool \<Rightarrow> shm_probe_req \<Rightarrow> u8 list" where
  "req_bytes hl m = mem_bytes hl 8 (pr_token m) @ char_bytes (pr_shm_name m)"

definition req_of_bytes :: "bool \<Rightarrow> u8 list \<Rightarrow> shm_probe_req" where
  "req_of_bytes hl bs = \<lparr>pr_token = mem_word hl (take 8 bs), pr_shm_name = bytes_chars (take ShmProbeNameSize (drop 8 bs))\<rparr>"

record shm_probe_rsp =
  ps_ack :: u64
  ps_ok :: u8

definition ShmProbeRspMsg_msg_type :: u16 where
  "ShmProbeRspMsg_msg_type = 4"

definition sizeof_ShmProbeRspMsg :: nat where
  "sizeof_ShmProbeRspMsg = 16"

definition ps_ConvertByteOrder :: "bool \<Rightarrow> bool \<Rightarrow> shm_probe_rsp \<Rightarrow> shm_probe_rsp" where
  "ps_ConvertByteOrder ToLittle IsLittle m = m\<lparr>ps_ack := Convert ToLittle IsLittle (ps_ack m)\<rparr>"

definition probe_rsp_bytes :: "bool \<Rightarrow> shm_probe_rsp \<Rightarrow> u8 list" where
  "probe_rsp_bytes hl m = mem_bytes hl 8 (ps_ack m) @ [ps_ok m]"

definition probe_rsp_of_bytes :: "bool \<Rightarrow> u8 list \<Rightarrow> shm_probe_rsp" where
  "probe_rsp_of_bytes hl bs = \<lparr>ps_ack = mem_word hl (take 8 bs), ps_ok = bs ! 8\<rparr>"

interpretation conv_probe_req: in_place_conversion "pr_ConvertByteOrder wl hl" for wl hl
  by unfold_locales (simp add: pr_ConvertByteOrder_def)

interpretation conv_probe_rsp: in_place_conversion "ps_ConvertByteOrder wl hl" for wl hl
  by unfold_locales (simp add: ps_ConvertByteOrder_def)

section \<open>Buffers\<close>

text \<open>
  \<open>MsgHeader buf[1 + (sizeof(T) + 7) / 8]\<close>: how many bytes follow the header, and the buffer with a
  converted header and the bytes of a converted struct.
\<close>

definition body_buf_size :: "nat \<Rightarrow> nat" where
  "body_buf_size sizeof_T = 8 * blocks 8 sizeof_T"

definition login_buf :: "conf \<Rightarrow> msg_header \<Rightarrow> login_msg \<Rightarrow> u8 list \<Rightarrow> u8 list" where
  "login_buf cf h m pad =
     hdr_bytes (HostLittle cf) (ConvertByteOrder (ToLittleEndian cf) (HostLittle cf) h) @
     login_bytes (HostLittle cf) (lm_ConvertByteOrder (ToLittleEndian cf) (HostLittle cf) m) @ pad"

definition rsp_buf :: "conf \<Rightarrow> msg_header \<Rightarrow> login_rsp \<Rightarrow> u8 list \<Rightarrow> u8 list" where
  "rsp_buf cf h m pad =
     hdr_bytes (HostLittle cf) (ConvertByteOrder (ToLittleEndian cf) (HostLittle cf) h) @
     rsp_bytes (HostLittle cf) (lr_ConvertByteOrder (ToLittleEndian cf) (HostLittle cf) m) @ pad"

definition probe_req_buf :: "conf \<Rightarrow> msg_header \<Rightarrow> shm_probe_req \<Rightarrow> u8 list" where
  "probe_req_buf cf h m =
     hdr_bytes (HostLittle cf) (ConvertByteOrder (ToLittleEndian cf) (HostLittle cf) h) @
     req_bytes (HostLittle cf) (pr_ConvertByteOrder (ToLittleEndian cf) (HostLittle cf) m)"

definition probe_rsp_buf :: "conf \<Rightarrow> msg_header \<Rightarrow> shm_probe_rsp \<Rightarrow> u8 list" where
  "probe_rsp_buf cf h m =
     hdr_bytes (HostLittle cf) (ConvertByteOrder (ToLittleEndian cf) (HostLittle cf) h) @
     probe_rsp_bytes (HostLittle cf) (ps_ConvertByteOrder (ToLittleEndian cf) (HostLittle cf) m) @ replicate 7 0"

text \<open>What a receiver makes of such a buffer: load the header and the struct, convert both in place.\<close>

definition load_hdr :: "conf \<Rightarrow> u8 list \<Rightarrow> msg_header" where
  "load_hdr cf bs = ConvertByteOrder (ToLittleEndian cf) (HostLittle cf) (hdr_of_bytes (HostLittle cf) (take 8 bs))"

definition load_login :: "conf \<Rightarrow> u8 list \<Rightarrow> login_msg" where
  "load_login cf bs = lm_ConvertByteOrder (ToLittleEndian cf) (HostLittle cf) (login_of_bytes cf (HostLittle cf) (drop 8 bs))"

definition load_rsp :: "conf \<Rightarrow> u8 list \<Rightarrow> login_rsp" where
  "load_rsp cf bs = lr_ConvertByteOrder (ToLittleEndian cf) (HostLittle cf) (rsp_of_bytes cf (HostLittle cf) (drop 8 bs))"

definition load_probe_req :: "conf \<Rightarrow> u8 list \<Rightarrow> shm_probe_req" where
  "load_probe_req cf bs = pr_ConvertByteOrder (ToLittleEndian cf) (HostLittle cf) (req_of_bytes (HostLittle cf) (drop 8 bs))"

definition load_probe_rsp :: "conf \<Rightarrow> u8 list \<Rightarrow> shm_probe_rsp" where
  "load_probe_rsp cf bs = ps_ConvertByteOrder (ToLittleEndian cf) (HostLittle cf) (probe_rsp_of_bytes (HostLittle cf) (drop 8 bs))"

lemma login_bytes_convert:
  "login_bytes hl (lm_ConvertByteOrder wl hl m) = login_bytes wl m"
  by (simp add: login_bytes_def lm_ConvertByteOrder_def mem_bytes_Convert)

lemma rsp_bytes_convert: "rsp_bytes hl (lr_ConvertByteOrder wl hl m) = rsp_bytes wl m"
  by (simp add: rsp_bytes_def lr_ConvertByteOrder_def mem_bytes_Convert)

lemma req_bytes_convert: "req_bytes hl (pr_ConvertByteOrder wl hl m) = req_bytes wl m"
  by (simp add: req_bytes_def pr_ConvertByteOrder_def mem_bytes_Convert)

lemma probe_rsp_bytes_convert: "probe_rsp_bytes hl (ps_ConvertByteOrder wl hl m) = probe_rsp_bytes wl m"
  by (simp add: probe_rsp_bytes_def ps_ConvertByteOrder_def mem_bytes_Convert)

lemma load_hdr_bytes:
  "load_hdr cf (hdr_bytes hl (ConvertByteOrder (ToLittleEndian cf) hl h) @ rest) = h"
  by (simp add: load_hdr_def hdr_bytes_Convert Convert_hdr_of_bytes)

text \<open>Two ends of a connection agree on the constants of the protocol, not on the byte order of their hosts.\<close>

definition same_protocol :: "conf \<Rightarrow> conf \<Rightarrow> bool" where
  "same_protocol cf cf' \<longleftrightarrow> ToLittleEndian cf = ToLittleEndian cf' \<and> NameSize cf = NameSize cf' \<and>
     LoginUserDataSize cf = LoginUserDataSize cf' \<and> LoginRspUserDataSize cf = LoginRspUserDataSize cf'"

lemma load_login_bytes:
  assumes "wf_login cf m"
  shows "lm_ConvertByteOrder wl hl (login_of_bytes cf hl (login_bytes wl m @ pad)) = m"
proof -
  have "login_bytes wl m = login_bytes hl (lm_ConvertByteOrder wl hl m)" by (simp add: login_bytes_convert)
  moreover have "wf_login cf (lm_ConvertByteOrder wl hl m)" using assms by (simp add: wf_login_def lm_ConvertByteOrder_def)
  ultimately show ?thesis by (simp add: login_of_bytes_bytes)
qed

lemma load_rsp_bytes:
  assumes "wf_rsp cf m"
  shows "lr_ConvertByteOrder wl hl (rsp_of_bytes cf hl (rsp_bytes wl m @ pad)) = m"
proof -
  have "rsp_bytes wl m = rsp_bytes hl (lr_ConvertByteOrder wl hl m)" by (simp add: rsp_bytes_convert)
  moreover have "wf_rsp cf (lr_ConvertByteOrder wl hl m)" using assms by (simp add: wf_rsp_def lr_ConvertByteOrder_def)
  ultimately show ?thesis by (simp add: rsp_of_bytes_bytes)
qed

text \<open>Both directions, and the sizes of the buffers.\<close>

lemma login_buf_load:
  assumes "same_protocol cf cf'" and "wf_login cf m"
  shows "load_hdr cf' (login_buf cf h m pad) = h" and "load_login cf' (login_buf cf h m pad) = m"
proof -
  have wf: "wf_login cf' m" and wl: "ToLittleEndian cf' = ToLittleEndian cf"
    using assms by (simp_all add: same_protocol_def wf_login_def)
  show "load_hdr cf' (login_buf cf h m pad) = h" using load_hdr_bytes [of cf'] by (simp add: login_buf_def wl)
  show "load_login cf' (login_buf cf h m pad) = m"
    using load_login_bytes [OF wf] by (simp add: load_login_def login_buf_def login_bytes_convert wl)
qed

lemma rsp_buf_load:
  assumes "same_protocol cf cf'" and "wf_rsp cf' r"
  shows "load_hdr cf (rsp_buf cf' h r pad) = h" and "load_rsp cf (rsp_buf cf' h r pad) = r"
proof -
  have wf: "wf_rsp cf r" and wl: "ToLittleEndian cf' = ToLittleEndian cf"
    using assms by (simp_all add: same_protocol_def wf_rsp_def)
  show "load_hdr cf (rsp_buf cf' h r pad) = h" using load_hdr_bytes [of cf] by (simp add: rsp_buf_def wl)
  show "load_rsp cf (rsp_buf cf' h r pad) = r"
    using load_rsp_bytes [OF wf] by (simp add: load_rsp_def rsp_buf_def rsp_bytes_convert wl)
qed

lemma body_buf_room: "n \<le> body_buf_size (4 * blocks 4 n)"
  using blocks_bounds(1) [of 4 n] blocks_bounds(1) [of 8 "4 * blocks 4 n"] by (simp add: body_buf_size_def mult.commute)

lemma length_login_buf:
  assumes "wf_login cf m" and "length pad = body_buf_size (sizeof_LoginMsg cf) - (9 + LoginUserDataSize cf + 2 * NameSize cf)"
  shows "length (login_buf cf h m pad) = 8 + body_buf_size (sizeof_LoginMsg cf)"
proof -
  have "wf_login cf (lm_ConvertByteOrder wl hl m)" for wl hl using assms(1) by (simp add: wf_login_def lm_ConvertByteOrder_def)
  note len = length_login_bytes [OF this]
  show ?thesis using assms(2) body_buf_room [of "9 + LoginUserDataSize cf + 2 * NameSize cf"]
    by (simp add: login_buf_def len sizeof_LoginMsg_def)
qed

lemma length_rsp_buf:
  assumes "wf_rsp cf m" and "length pad = body_buf_size (sizeof_LoginRspMsg cf) - (41 + LoginRspUserDataSize cf + NameSize cf)"
  shows "length (rsp_buf cf h m pad) = 8 + body_buf_size (sizeof_LoginRspMsg cf)"
proof -
  have "wf_rsp cf (lr_ConvertByteOrder wl hl m)" for wl hl using assms(1) by (simp add: wf_rsp_def lr_ConvertByteOrder_def)
  note len = length_rsp_bytes [OF this]
  show ?thesis using assms(2) body_buf_room [of "41 + LoginRspUserDataSize cf + NameSize cf"]
    by (simp add: rsp_buf_def len sizeof_LoginRspMsg_def)
qed

section \<open>Properties\<close>

text \<open>C29: The login exchange crosses hosts: the server's load and conversion of the client's login buffer
  gives the header and the login message the client filled in, and the client's load of the
  server's response buffer gives the response, whatever the byte orders of the two hosts are and
  whatever the padding holds.\<close>

theorem login_crosses_hosts:
  assumes "same_protocol cf cf'" and "wf_login cf m" and "wf_rsp cf' r"
  shows "load_hdr cf' (login_buf cf h m pad) = h \<and> load_login cf' (login_buf cf h m pad) = m \<and>
         load_hdr cf (rsp_buf cf' h' r pad') = h' \<and> load_rsp cf (rsp_buf cf' h' r pad') = r"
  using login_buf_load [OF assms(1,2)] rsp_buf_load [OF assms(1,3)] by simp

definition sample_login :: login_msg where
  "sample_login = \<lparr>lm_client_seq_start = 1, lm_client_seq_end = 258, lm_user_data = [9], lm_use_shm = 0,
     lm_client_name = strncpy (replicate 16 (CHR 0x00)) ''c'' 16, lm_last_server_name = replicate 16 (CHR 0x00)\<rparr>"

definition sample_rsp :: login_rsp where
  "sample_rsp = \<lparr>lr_server_seq_start = 3, lr_server_seq_end = 4, lr_user_data = [0], lr_status = 0,
     lr_server_name = strncpy (replicate 16 (CHR 0x00)) ''s'' 16, lr_error_msg = replicate 32 (CHR 0x00)\<rparr>"

theorem login_crosses_hosts_witness:
  "load_hdr same_endian_conf (login_buf sample_conf zero_header sample_login [7]) = zero_header \<and>
   load_login same_endian_conf (login_buf sample_conf zero_header sample_login [7]) = sample_login \<and>
   load_hdr sample_conf (rsp_buf same_endian_conf zero_header sample_rsp []) = zero_header \<and>
   load_rsp sample_conf (rsp_buf same_endian_conf zero_header sample_rsp []) = sample_rsp"
  by (rule login_crosses_hosts)
    (simp_all add: same_protocol_def wf_login_def wf_rsp_def sample_login_def sample_rsp_def sample_conf_def same_endian_conf_def)

end
