(* ===== verification/Tcpshm_Client.thy ===== *)
theory Tcpshm_Client
  imports Login_Msg
begin

text \<open>
  The class \<open>TcpShmClient\<close> of \<^verbatim>\<open>tcpshm_client.h\<close>: connecting and logging in, answering the server's
  shared-memory probe, and polling. As in the server, the callbacks of \<open>Derived\<close> are a parameter
  (\<open>cl_cb\<close>): functions of their arguments and the world, with the connection for those that use it
  while it is open.

  \<open>server_name_\<close> points to the mapped \<^verbatim>\<open>.lastserver\<close> file; \<open>cl_server_name\<close> is the contents of that file,
  \<open>None\<close> for the null pointer.
\<close>

section \<open>State\<close>

record client =
  cl_client_name :: string
  cl_server_name :: "string option"
  cl_ptcp_dir :: string
  cl_conn :: tcpshm_conn

record 'w cl_cb =
  cl_OnSystemError :: "string \<Rightarrow> int \<Rightarrow> 'w \<Rightarrow> 'w"
  cl_OnLoginReject :: "login_rsp \<Rightarrow> 'w \<Rightarrow> 'w"
  cl_OnSeqNumberMismatch :: "u32 list \<Rightarrow> 'w \<Rightarrow> 'w"
  cl_OnLoginSuccess :: "login_rsp \<Rightarrow> tcpshm_conn \<Rightarrow> 'w \<Rightarrow> int \<times> tcpshm_conn \<times> 'w"
  cl_OnServerMsg :: "msg_ptr \<Rightarrow> tcpshm_conn \<Rightarrow> 'w \<Rightarrow> (tcpshm_conn \<times> 'w) option"
  cl_OnDisconnected :: "string \<Rightarrow> int \<Rightarrow> tcpshm_conn \<Rightarrow> 'w \<Rightarrow> tcpshm_conn \<times> 'w"

record 'w cl_env =
  ce_os :: "'w os"
  ce_maps :: "'w queue_maps"
  ce_name_map :: "(string, 'w) map_ops"
  ce_probe :: "'w probe_mem"
  ce_cb :: "'w cl_cb"

text \<open>The constructor; \<open>junk\<close> is the indeterminate rest of \<open>remote_name_\<close>.\<close>

definition TcpShmClient :: "'w os \<Rightarrow> conf \<Rightarrow> string \<Rightarrow> string \<Rightarrow> string \<Rightarrow> 'w \<Rightarrow> client \<times> 'w" where
  "TcpShmClient os cf client_name ptcp_dir junk w =
     (let name = strncpy (replicate (NameSize cf) (CHR 0x00)) client_name (NameSize cf - 1)
      in (\<lparr>cl_client_name = name, cl_server_name = None, cl_ptcp_dir = ptcp_dir,
           cl_conn = tc_init ptcp_dir name (TcpShmConnection cf junk)\<rparr>,
          snd (tcp_mkdir os ptcp_dir w)))"

section \<open>Receiving the login response\<close>

text \<open>The error number a failed transfer stores.\<close>

definition err_of :: "int option \<Rightarrow> int" where
  "err_of e = (case e of None \<Rightarrow> 0 | Some x \<Rightarrow> x)"

text \<open>\<open>Inr\<close> is \<open>*error_msg\<close> and \<open>*sys_errno\<close> of a call that returns false.\<close>

definition RecvHeader :: "'w os \<Rightarrow> conf \<Rightarrow> int \<Rightarrow> 'w \<Rightarrow> ((msg_header + string \<times> int) \<times> 'w) option" where
  "RecvHeader os cf fd w = do {
     (ok, err, buf, w') \<leftarrow> tcp_recv_all os fd 8 (replicate 8 0) w;
     Some (if ok then Inl (load_hdr cf buf) else Inr (''recv'', err_of err), w')
   }"

text \<open>The part of \<open>HandleShmProbe\<close> that maps the object the server named: the values of \<open>ack\<close> and \<open>ok\<close>.\<close>

definition answer_probe :: "'w os \<Rightarrow> 'w probe_mem \<Rightarrow> shm_probe_req \<Rightarrow> 'w \<Rightarrow> shm_probe_rsp \<times> 'w" where
  "answer_probe os P req w =
     (case my_mmap_existing os (pm_map P) (cstr (pr_shm_name req)) True w of
        (Inr _, w1) \<Rightarrow> (\<lparr>ps_ack = 0, ps_ok = 0\<rparr>, w1)
      | (Inl probe, w1) \<Rightarrow>
          if pm_token P probe w1 = pr_token req
          then let ack = pr_token req XOR ShmProbeAckMask
               in (\<lparr>ps_ack = ack, ps_ok = 1\<rparr>, my_munmap (pm_map P) probe (pm_set_ack P probe ack w1))
          else (\<lparr>ps_ack = 0, ps_ok = 0\<rparr>, my_munmap (pm_map P) probe w1))"

definition HandleShmProbe :: "'w os \<Rightarrow> 'w probe_mem \<Rightarrow> conf \<Rightarrow> int \<Rightarrow> msg_header \<Rightarrow> 'w \<Rightarrow> ((unit + string \<times> int) \<times> 'w) option" where
  "HandleShmProbe os P cf fd header w =
     (if unat (hdr_size header) \<noteq> 8 + sizeof_ShmProbeReqMsg then Some (Inr (''Invalid ShmProbeReq'', 0), w)
      else do {
        let n = body_buf_size sizeof_ShmProbeReqMsg;
        (ok, err, body, w1) \<leftarrow> tcp_recv_all os fd n (replicate n 0) w;
        if \<not> ok then Some (Inr (''recv'', err_of err), w1)
        else let req0 = pr_ConvertByteOrder (ToLittleEndian cf) (HostLittle cf) (req_of_bytes (HostLittle cf) body);
                 req = req0\<lparr>pr_shm_name := (pr_shm_name req0)[ShmProbeNameSize - 1 := CHR 0x00]\<rparr>;
                 (rsp, w2) = answer_probe os P req w1;
                 h = \<lparr>hdr_size = word_of_nat (8 + sizeof_ShmProbeRspMsg), hdr_msg_type = ShmProbeRspMsg_msg_type, hdr_ack_seq = 0\<rparr>
             in case tcp_send_all os fd (probe_rsp_buf cf h rsp) w2 of (sent, err2, w3) \<Rightarrow>
                  Some (if sent then Inl () else Inr (''send'', err_of err2), w3)
      })"

definition RecvLoginRsp :: "'w os \<Rightarrow> 'w probe_mem \<Rightarrow> conf \<Rightarrow> int \<Rightarrow> 'w \<Rightarrow> ((msg_header \<times> login_rsp + string \<times> int) \<times> 'w) option" where
  "RecvLoginRsp os P cf fd w = do {
     (r1, w1) \<leftarrow> RecvHeader os cf fd w;
     (r2, w2) \<leftarrow> (case r1 of
        Inr e \<Rightarrow> Some (Inr e, w1)
      | Inl header \<Rightarrow>
          if hdr_msg_type header = ShmProbeReqMsg_msg_type
          then do {
            (r, w') \<leftarrow> HandleShmProbe os P cf fd header w1;
            (case r of Inr e \<Rightarrow> Some (Inr e, w') | Inl _ \<Rightarrow> RecvHeader os cf fd w')
          }
          else Some (Inl header, w1));
     (case r2 of
        Inr e \<Rightarrow> Some (Inr e, w2)
      | Inl header \<Rightarrow>
          if unat (hdr_size header) \<noteq> 8 + sizeof_LoginRspMsg cf \<or> hdr_msg_type header \<noteq> LoginRspMsg_msg_type
          then Some (Inr (''Invalid LoginRsp'', 0), w2)
          else do {
            let n = body_buf_size (sizeof_LoginRspMsg cf);
            (ok, err, body, w3) \<leftarrow> tcp_recv_all os fd n (replicate n 0) w2;
            Some (if ok then Inl (header, lr_ConvertByteOrder (ToLittleEndian cf) (HostLittle cf) (rsp_of_bytes cf (HostLittle cf) body))
                  else Inr (''recv'', err_of err), w3)
          })
   }"

section \<open>Connect\<close>

definition cl_error :: "'w cl_env \<Rightarrow> string \<Rightarrow> int \<Rightarrow> 'w \<Rightarrow> 'w" where
  "cl_error E = cl_OnSystemError (ce_cb E)"

text \<open>The beginning of \<open>Connect\<close>: map the file with the name of the last server, if it is not mapped yet.\<close>

definition map_last_server :: "'w cl_env \<Rightarrow> conf \<Rightarrow> client \<Rightarrow> 'w \<Rightarrow> bool \<times> client \<times> 'w" where
  "map_last_server E cf cl w =
     (case cl_server_name cl of
        Some _ \<Rightarrow> (True, cl, w)
      | None \<Rightarrow>
          (case my_mmap (ce_os E) (ce_name_map E) (cl_ptcp_dir cl @ ''/'' @ cstr (cl_client_name cl) @ ''.lastserver'') False w of
             (Inr e, w1) \<Rightarrow> (False, cl, cl_error E e (tcp_get_last_error (ce_os E) w1) w1)
           | (Inl name, w1) \<Rightarrow>
               (True, cl\<lparr>cl_server_name := Some name,
                         cl_conn := (cl_conn cl)\<lparr>tc_remote_name := strncpy (tc_remote_name (cl_conn cl)) name (NameSize cf)\<rparr>\<rparr>, w1)))"

text \<open>The login message and its header, with the sequence numbers that \<open>GetSeq\<close> fills in below.\<close>

definition login_msg_init :: "conf \<Rightarrow> bool \<Rightarrow> u8 list \<Rightarrow> string \<Rightarrow> string \<Rightarrow> login_msg" where
  "login_msg_init cf use_shm user_data client_name server_name =
     \<lparr>lm_client_seq_start = 0, lm_client_seq_end = 0, lm_user_data = user_data, lm_use_shm = of_bool use_shm,
      lm_client_name = strncpy (replicate (NameSize cf) (CHR 0x00)) client_name (NameSize cf),
      lm_last_server_name = strncpy (replicate (NameSize cf) (CHR 0x00)) server_name (NameSize cf)\<rparr>"

definition login_msg_hdr :: "conf \<Rightarrow> msg_header" where
  "login_msg_hdr cf = \<lparr>hdr_size = word_of_nat (8 + sizeof_LoginMsg cf), hdr_msg_type = LoginMsg_msg_type, hdr_ack_seq = 0\<rparr>"

text \<open>
  Opening the queue file before the login, for TCP and a known server: header and message with the
  sequence numbers of the queue, or the error that \<open>OnSystemError\<close> gets (\<open>GetSeq\<close> sets the error number
  to 0).
\<close>

definition login_with_seqs :: "'w cl_env \<Rightarrow> conf \<Rightarrow> bool \<Rightarrow> login_msg \<Rightarrow> string \<Rightarrow> tcpshm_conn \<Rightarrow> 'w \<Rightarrow>
    ((msg_header \<times> login_msg + string \<times> int) \<times> tcpshm_conn \<times> 'w) option" where
  "login_with_seqs E cf use_shm login server_name c w =
     (if server_name ! 0 \<noteq> CHR 0x00 \<and> \<not> use_shm
      then case tc_OpenFile (ce_os E) (ce_maps E) use_shm c w of
             (Inr e, c1, w1) \<Rightarrow> Some (Inr (e, tcp_get_last_error (ce_os E) w1), c1, w1)
           | (Inl _, c1, w1) \<Rightarrow> do {
               (ok, ack, s, e) \<leftarrow> tc_GetSeq cf c1 (0, 0, 0);
               Some (if ok then Inl ((login_msg_hdr cf)\<lparr>hdr_ack_seq := ack\<rparr>, login\<lparr>lm_client_seq_start := s, lm_client_seq_end := e\<rparr>)
                     else Inr (''Ptcp file corrupt'', 0), c1, w1)
             }
      else Some (Inl (login_msg_hdr cf, login), c, w))"

text \<open>Socket, options and \<open>connect\<close>: the descriptor, unless a step failed, which closes it and calls \<open>OnSystemError\<close>.\<close>

definition connect_socket :: "'w cl_env \<Rightarrow> conf \<Rightarrow> string \<Rightarrow> u16 \<Rightarrow> 'w \<Rightarrow> int option \<times> 'w" where
  "connect_socket E cf server_ipv4 server_port w =
     (let os = ce_os E
      in case tcp_socket os w of (fd, w1) \<Rightarrow>
        let fail = (\<lambda>msg v. (None, snd (tcp_close os fd (cl_error E msg (tcp_get_last_error os v) v))))
        in if fd = INVALID_TCP_SOCKET then (None, cl_error E ''socket'' (tcp_get_last_error os w1) w1)
           else case tcp_set_timeout os fd SO_RCVTIMEO 10000 w1 of (r2, w2) \<Rightarrow>
             if r2 < 0 then fail ''tcp_set_timeout SO_RCVTIMEO'' w2
             else case tcp_set_timeout os fd SO_SNDTIMEO 10000 w2 of (r3, w3) \<Rightarrow>
               if r3 < 0 then fail ''tcp_set_timeout SO_SNDTIMEO'' w3
               else case (if TcpNoDelay cf then tcp_setsockopt os fd (TCP_NODELAY True) w3 else (0, w3)) of (r4, w4) \<Rightarrow>
                 if r4 < 0 then fail ''setsockopt TCP_NODELAY'' w4
                 else case tcp_connect os fd (make_sockaddr os server_ipv4 server_port) w4 of (r5, w5) \<Rightarrow>
                   if r5 < 0 then fail ''connect'' w5 else (Some fd, w5))"

text \<open>
  Sending the login and judging the response; \<open>pad\<close> are the indeterminate bytes behind the message in
  \<open>sendbuf\<close>. \<open>None\<close> inside the result is a refused login, after its callback and with the socket closed.
\<close>

definition exchange_login :: "'w cl_env \<Rightarrow> conf \<Rightarrow> int \<Rightarrow> msg_header \<Rightarrow> login_msg \<Rightarrow> u8 list \<Rightarrow> 'w \<Rightarrow>
    ((msg_header \<times> login_rsp) option \<times> 'w) option" where
  "exchange_login E cf fd h login pad w =
     (let os = ce_os E; fail = (\<lambda>v. Some (None, snd (tcp_close os fd v)))
      in case tcp_send_all os fd (login_buf cf h login pad) w of (ok, err, w1) \<Rightarrow>
           if \<not> ok then fail (cl_error E ''send'' (err_of err) w1)
           else do {
             (r, w2) \<leftarrow> RecvLoginRsp os (ce_probe E) cf fd w1;
             (case r of
                Inr (msg, e) \<Rightarrow> fail (cl_error E msg e w2)
              | Inl (rh, rsp) \<Rightarrow>
                  if unat (hdr_size rh) \<noteq> 8 + sizeof_LoginRspMsg cf \<or> hdr_msg_type rh \<noteq> LoginRspMsg_msg_type \<or>
                     lr_server_name rsp ! 0 = CHR 0x00
                  then fail (cl_error E ''Invalid LoginRsp'' 0 w2)
                  else if lr_status rsp \<noteq> 0
                  then fail (if lr_status rsp = 1
                             then cl_OnSeqNumberMismatch (ce_cb E) [hdr_ack_seq h, lm_client_seq_start login, lm_client_seq_end login,
                                    hdr_ack_seq rh, lr_server_seq_start rsp, lr_server_seq_end rsp] w2
                             else cl_OnLoginReject (ce_cb E) rsp w2)
                  else Some (Some (rh, rsp), w2))
           })"

text \<open>The end of \<open>Connect\<close> after an accepted login.\<close>

definition logged_on :: "'w cl_env \<Rightarrow> conf \<Rightarrow> bool \<Rightarrow> bool \<Rightarrow> int \<Rightarrow> msg_header \<Rightarrow> login_rsp \<Rightarrow> string \<Rightarrow> client \<Rightarrow> 'w \<Rightarrow>
    (bool \<times> client \<times> 'w) option" where
  "logged_on E cf use_shm opened fd rh rsp0 server_name cl w =
     (let os = ce_os E; n = NameSize cf;
          rsp = rsp0\<lparr>lr_server_name := (lr_server_name rsp0)[n - 1 := CHR 0x00]\<rparr>;
          changed = (\<not> strneq server_name (lr_server_name rsp) n);
          name' = (if changed then strncpy server_name (lr_server_name rsp) n else server_name);
          (c1, w1) = (if changed
                      then case tc_Release os (ce_maps E) (cl_conn cl) w of
                             (c, v) \<Rightarrow> (c\<lparr>tc_remote_name := strncpy (tc_remote_name c) name' n\<rparr>, v)
                      else (cl_conn cl, w));
          (opn, c2, w2) = (if opened \<and> \<not> changed then (Inl (), c1, w1) else tc_OpenFile os (ce_maps E) use_shm c1 w1)
      in case opn of
           Inr e \<Rightarrow> Some (False, cl\<lparr>cl_server_name := Some name', cl_conn := c2\<rparr>,
                          snd (tcp_close os fd (cl_error E e (tcp_get_last_error os w2) w2)))
         | Inl _ \<Rightarrow> do {
             c3 \<leftarrow> (if changed then tc_Reset cf c2 else Some c2);
             let w3 = snd (tcp_set_nonblocking os fd w2);
             let (now, c4, w4) = cl_OnLoginSuccess (ce_cb E) rsp c3 w3;
             (c5, w5) \<leftarrow> tc_Open os cf fd (hdr_ack_seq rh) now c4 w4;
             Some (True, cl\<lparr>cl_server_name := Some name', cl_conn := c5\<rparr>, w5)
           })"

definition Connect :: "'w cl_env \<Rightarrow> conf \<Rightarrow> bool \<Rightarrow> string \<Rightarrow> u16 \<Rightarrow> u8 list \<Rightarrow> u8 list \<Rightarrow> client \<Rightarrow> 'w \<Rightarrow> (bool \<times> client \<times> 'w) option" where
  "Connect E cf use_shm server_ipv4 server_port user_data pad cl0 w0 =
     (if \<not> tc_IsClosed (cl_conn cl0) then Some (False, cl0, cl_error E ''already connected'' 0 w0)
      else let (_, c, w1) = tc_TryCloseFd (ce_os E) (cl_conn cl0) w0;
               (mapped, cl2, w2) = map_last_server E cf (cl0\<lparr>cl_conn := c\<rparr>) w1
           in if \<not> mapped then Some (False, cl2, w2)
              else do {
                name \<leftarrow> cl_server_name cl2;
                (r, c3, w3) \<leftarrow> login_with_seqs E cf use_shm (login_msg_init cf use_shm user_data (cl_client_name cl2) name) name
                                 (cl_conn cl2) w2;
                let cl3 = cl2\<lparr>cl_conn := c3\<rparr>;
                (case r of
                   Inr (msg, e) \<Rightarrow> Some (False, cl3, cl_error E msg e w3)
                 | Inl (h, login) \<Rightarrow>
                     (case connect_socket E cf server_ipv4 server_port w3 of
                        (None, w4) \<Rightarrow> Some (False, cl3, w4)
                      | (Some fd, w4) \<Rightarrow> do {
                          (x, w5) \<leftarrow> exchange_login E cf fd h login pad w4;
                          (case x of
                             None \<Rightarrow> Some (False, cl3, w5)
                           | Some (rh, rsp) \<Rightarrow>
                               logged_on E cf use_shm (name ! 0 \<noteq> CHR 0x00 \<and> \<not> use_shm) fd rh rsp name cl3 w5)
                        }))
              })"

section \<open>Polling and stopping\<close>

definition cl_deliver :: "'w cl_env \<Rightarrow> msg_ptr option \<Rightarrow> tcpshm_conn \<Rightarrow> 'w \<Rightarrow> (tcpshm_conn \<times> 'w) option" where
  "cl_deliver E head c w = (case head of None \<Rightarrow> Some (c, w) | Some m \<Rightarrow> cl_OnServerMsg (ce_cb E) m c w)"

definition cl_PollTcp :: "'w cl_env \<Rightarrow> conf \<Rightarrow> int \<Rightarrow> client \<Rightarrow> 'w \<Rightarrow> (client \<times> 'w) option" where
  "cl_PollTcp E cf now cl w = do {
     (c1, w1) \<leftarrow> (if \<not> tc_IsClosed (cl_conn cl)
                  then do { (head, c, v) \<leftarrow> tc_TcpFront (ce_os E) cf now (cl_conn cl) w; cl_deliver E head c v }
                  else Some (cl_conn cl, w));
     let (closed, c2, w2) = tc_TryCloseFd (ce_os E) c1 w1;
     let (c3, w3) = (if closed then case tc_GetCloseReason c2 of (reason, e) \<Rightarrow> cl_OnDisconnected (ce_cb E) reason e c2 w2 else (c2, w2));
     Some (cl\<lparr>cl_conn := c3\<rparr>, w3)
   }"

definition cl_PollShm :: "'w cl_env \<Rightarrow> conf \<Rightarrow> client \<Rightarrow> 'w \<Rightarrow> (client \<times> 'w) option" where
  "cl_PollShm E cf cl w = do {
     (head, c1) \<leftarrow> tc_ShmFront cf (cl_conn cl);
     (c2, w2) \<leftarrow> cl_deliver E head c1 w;
     Some (cl\<lparr>cl_conn := c2\<rparr>, w2)
   }"

definition cl_Stop :: "'w cl_env \<Rightarrow> client \<Rightarrow> 'w \<Rightarrow> client \<times> 'w" where
  "cl_Stop E cl w =
     (let w1 = (case cl_server_name cl of None \<Rightarrow> w | Some name \<Rightarrow> my_munmap (ce_name_map E) name w);
          (c, w2) = tc_Release (ce_os E) (ce_maps E) (cl_conn cl) w1
      in (cl\<lparr>cl_server_name := None, cl_conn := c\<rparr>, w2))"

end
