(* ===== verification/Tcpshm_Server.thy ===== *)
theory Tcpshm_Server
  imports Login_Msg
begin

text \<open>
  The class \<open>TcpShmServer\<close> of \<^verbatim>\<open>tcpshm_server.h\<close>: the listening socket, the connections that have not
  logged in yet, and the groups of shared-memory and TCP connections with their pool.

  The pool \<open>conn_pool_\<close> is a list of connections; the pointers \<open>conns[i]\<close> of a group are indices into
  it. The callbacks of \<open>Derived\<close> are not part of the class: they are the parameter \<open>srv_cb\<close>, each a
  function of its arguments, the connection it is handed (which it may use, so that it returns it) and
  the world. The probe of \<open>VerifyShmProbe\<close> is shared with the client process, so that \<open>ShmProbeData\<close> is
  reached through an address and the world (\<open>probe_mem\<close>).

  A poll is one step: the other threads of the server act between polls.
\<close>

section \<open>State\<close>

record new_conn =
  nc_time :: int
  nc_fd :: int
  nc_addr :: sockaddr
  nc_recvbuf :: "u8 list"

record conn_group =
  cg_live_cnt :: nat
  cg_conns :: "nat list"

record server =
  sv_server_name :: string
  sv_ptcp_dir :: string
  sv_listenfd :: int
  sv_new_conns :: "new_conn list"
  sv_avail_idx :: nat
  sv_conn_pool :: "tcpshm_conn list"
  sv_shm_grps :: "conn_group list"
  sv_tcp_grps :: "conn_group list"

text \<open>The constants of \<open>Conf\<close> that only the server uses.\<close>

record srv_conf =
  MaxNewConnections :: nat
  MaxShmConnsPerGrp :: nat
  MaxShmGrps :: nat
  MaxTcpConnsPerGrp :: nat
  MaxTcpGrps :: nat
  NewConnectionTimeout :: int

record 'w srv_cb =
  srv_OnSystemError :: "string \<Rightarrow> int \<Rightarrow> 'w \<Rightarrow> 'w"
  srv_OnNewConnection :: "sockaddr \<Rightarrow> login_msg \<Rightarrow> login_rsp \<Rightarrow> 'w \<Rightarrow> int \<times> login_rsp \<times> 'w"
  srv_OnClientFileError :: "string \<Rightarrow> int \<Rightarrow> tcpshm_conn \<Rightarrow> 'w \<Rightarrow> tcpshm_conn \<times> 'w"
  srv_OnSeqNumberMismatch :: "u32 list \<Rightarrow> tcpshm_conn \<Rightarrow> 'w \<Rightarrow> tcpshm_conn \<times> 'w"
  srv_OnClientLogon :: "sockaddr \<Rightarrow> tcpshm_conn \<Rightarrow> 'w \<Rightarrow> tcpshm_conn \<times> 'w"
  srv_OnClientDisconnected :: "string \<Rightarrow> int \<Rightarrow> tcpshm_conn \<Rightarrow> 'w \<Rightarrow> tcpshm_conn \<times> 'w"
  srv_OnClientMsg :: "msg_ptr \<Rightarrow> tcpshm_conn \<Rightarrow> 'w \<Rightarrow> (tcpshm_conn \<times> 'w) option"

text \<open>
  What the server runs on: the system calls, the mappings, the callbacks, the clock
  (\<open>steady_clock\<close>), and the address \<open>this\<close>.
\<close>

record 'w srv_env =
  se_os :: "'w os"
  se_maps :: "'w queue_maps"
  se_probe :: "'w probe_mem"
  se_cb :: "'w srv_cb"
  se_clock :: "'w \<Rightarrow> u64 \<times> 'w"
  se_this :: u64

section \<open>Construction, Start and Stop\<close>

text \<open>
  The constructor numbers the connections of the pool: first those of the shared-memory groups, then
  those of the TCP groups. \<open>junk\<close> and \<open>mem\<close> are the indeterminate contents of arrays and fields the
  constructor does not write. The directory a connection gets is the text behind the pointer
  \<open>ptcp_dir.c_str()\<close>, which the caller has to keep alive.
\<close>

definition group_of :: "nat \<Rightarrow> nat \<Rightarrow> nat \<Rightarrow> conn_group" where
  "group_of first n g = \<lparr>cg_live_cnt = 0, cg_conns = [first + g * n ..< first + g * n + n]\<rparr>"

definition TcpShmServer ::
    "'w os \<Rightarrow> conf \<Rightarrow> srv_conf \<Rightarrow> string \<Rightarrow> string \<Rightarrow> string \<Rightarrow> new_conn \<Rightarrow> 'w \<Rightarrow> server \<times> 'w" where
  "TcpShmServer os cf sc server_name ptcp_dir junk mem w =
     (let name = strncpy (replicate (NameSize cf) (CHR 0x00)) server_name (NameSize cf - 1);
          shm_cnt = MaxShmConnsPerGrp sc * MaxShmGrps sc;
          tcp_cnt = MaxTcpConnsPerGrp sc * MaxTcpGrps sc
      in (\<lparr>sv_server_name = name, sv_ptcp_dir = ptcp_dir, sv_listenfd = INVALID_TCP_SOCKET,
           sv_new_conns = replicate (MaxNewConnections sc) (mem\<lparr>nc_fd := INVALID_TCP_SOCKET\<rparr>), sv_avail_idx = 0,
           sv_conn_pool = replicate (shm_cnt + tcp_cnt) (tc_init ptcp_dir name (TcpShmConnection cf junk)),
           sv_shm_grps = map (group_of 0 (MaxShmConnsPerGrp sc)) [0..<MaxShmGrps sc],
           sv_tcp_grps = map (group_of shm_cnt (MaxTcpConnsPerGrp sc)) [0..<MaxTcpGrps sc]\<rparr>,
          snd (tcp_mkdir os ptcp_dir w)))"

definition OnSystemError :: "'w srv_env \<Rightarrow> string \<Rightarrow> int \<Rightarrow> 'w \<Rightarrow> 'w" where
  "OnSystemError E = srv_OnSystemError (se_cb E)"

definition Start :: "'w srv_env \<Rightarrow> conf \<Rightarrow> string \<Rightarrow> u16 \<Rightarrow> server \<Rightarrow> 'w \<Rightarrow> bool \<times> server \<times> 'w" where
  "Start E cf listen_ipv4 listen_port sv w =
     (if sv_listenfd sv \<noteq> INVALID_TCP_SOCKET then (False, sv, OnSystemError E ''already started'' 0 w)
      else case tcp_socket (se_os E) w of (listenfd, w1) \<Rightarrow>
        let sv1 = sv\<lparr>sv_listenfd := listenfd\<rparr>;
            fail = (\<lambda>msg w'. (False, sv1, OnSystemError E msg (tcp_get_last_error (se_os E) w') w'))
        in if listenfd = INVALID_TCP_SOCKET then fail ''socket'' w1
           else case tcp_set_nonblocking (se_os E) listenfd w1 of (_, w2) \<Rightarrow>
             case tcp_setsockopt (se_os E) listenfd (SO_REUSEADDR True) w2 of (r3, w3) \<Rightarrow>
               if r3 < 0 then fail ''setsockopt SO_REUSEADDR'' w3
               else case (if TcpNoDelay cf then tcp_setsockopt (se_os E) listenfd (TCP_NODELAY True) w3 else (0, w3)) of
                 (r4, w4) \<Rightarrow>
                   if r4 < 0 then fail ''setsockopt TCP_NODELAY'' w4
                   else case tcp_bind (se_os E) listenfd (make_sockaddr (se_os E) listen_ipv4 listen_port) w4 of (r5, w5) \<Rightarrow>
                     if r5 < 0 then fail ''bind'' w5
                     else case tcp_listen (se_os E) listenfd 5 w5 of (r6, w6) \<Rightarrow>
                       if r6 < 0 then fail ''listen'' w6 else (True, sv1, w6))"

text \<open>The loops of \<open>Stop\<close> over the new connections and over the connections of the groups.\<close>

primrec stop_new_conns :: "'w os \<Rightarrow> new_conn list \<Rightarrow> 'w \<Rightarrow> new_conn list \<times> 'w" where
  "stop_new_conns os [] w = ([], w)"
| "stop_new_conns os (c # cs) w =
     (let (c', w1) = (if nc_fd c \<noteq> INVALID_TCP_SOCKET
                      then (c\<lparr>nc_fd := INVALID_TCP_SOCKET\<rparr>, snd (tcp_close os (nc_fd c) w)) else (c, w));
          (cs', w2) = stop_new_conns os cs w1
      in (c' # cs', w2))"

primrec release_conns :: "'w os \<Rightarrow> 'w queue_maps \<Rightarrow> nat list \<Rightarrow> tcpshm_conn list \<Rightarrow> 'w \<Rightarrow> tcpshm_conn list \<times> 'w" where
  "release_conns os T [] pool w = (pool, w)"
| "release_conns os T (p # ps) pool w =
     (let (c, w1) = tc_Release os T (pool ! p) w in release_conns os T ps (pool[p := c]) w1)"

definition Stop :: "'w srv_env \<Rightarrow> server \<Rightarrow> 'w \<Rightarrow> server \<times> 'w" where
  "Stop E sv w =
     (if sv_listenfd sv = INVALID_TCP_SOCKET then (sv, w)
      else let w1 = snd (tcp_close (se_os E) (sv_listenfd sv) w);
               (ncs, w2) = stop_new_conns (se_os E) (sv_new_conns sv) w1;
               (pool1, w3) = release_conns (se_os E) (se_maps E) (concat (map cg_conns (sv_shm_grps sv))) (sv_conn_pool sv) w2;
               (pool2, w4) = release_conns (se_os E) (se_maps E) (concat (map cg_conns (sv_tcp_grps sv))) pool1 w3
           in (sv\<lparr>sv_listenfd := INVALID_TCP_SOCKET, sv_new_conns := ncs, sv_avail_idx := 0, sv_conn_pool := pool2,
                  sv_shm_grps := map (\<lambda>g. g\<lparr>cg_live_cnt := 0\<rparr>) (sv_shm_grps sv),
                  sv_tcp_grps := map (\<lambda>g. g\<lparr>cg_live_cnt := 0\<rparr>) (sv_tcp_grps sv)\<rparr>, w4))"

section \<open>The shared-memory probe\<close>

text \<open>\<open>%llx\<close>\<close>

fun hex_digits :: "nat \<Rightarrow> string" where
  "hex_digits n =
     (if n < 16 then [''0123456789abcdef'' ! n] else hex_digits (n div 16) @ [''0123456789abcdef'' ! (n mod 16)])"

declare hex_digits.simps [simp del]

definition MakeShmProbeToken :: "'w srv_env \<Rightarrow> string \<Rightarrow> 'w \<Rightarrow> u64 \<times> 'w" where
  "MakeShmProbeToken E client_name w =
     (case se_clock E w of (now, w1) \<Rightarrow>
        let salt = foldl (\<lambda>salt p. salt * 131 + of_char p) (se_this E) (cstr client_name)
        in (now XOR push_bit 17 salt XOR drop_bit 7 salt, w1))"

definition probe_name :: "string \<Rightarrow> string \<Rightarrow> u64 \<Rightarrow> string" where
  "probe_name server_name client_name token =
     take (ShmProbeNameSize - 1)
       (''/tcpshm_probe_'' @ cstr server_name @ ''_'' @ cstr client_name @ ''_'' @ hex_digits (unat token))"

definition SendShmProbeReq :: "'w os \<Rightarrow> conf \<Rightarrow> int \<Rightarrow> string \<Rightarrow> u64 \<Rightarrow> 'w \<Rightarrow> bool \<times> 'w" where
  "SendShmProbeReq os cf fd name token w =
     (let h = \<lparr>hdr_size = word_of_nat (8 + sizeof_ShmProbeReqMsg), hdr_msg_type = ShmProbeReqMsg_msg_type, hdr_ack_seq = 0\<rparr>;
          req = \<lparr>pr_token = token,
                 pr_shm_name = strncpy (replicate ShmProbeNameSize (CHR 0x00)) name (ShmProbeNameSize - 1)\<rparr>
      in case tcp_send_all os fd (probe_req_buf cf h req) w of (ok, _, w') \<Rightarrow> (ok, w'))"

definition RecvAndCheckShmProbeRsp :: "'w os \<Rightarrow> 'w probe_mem \<Rightarrow> conf \<Rightarrow> int \<Rightarrow> u64 \<Rightarrow> nat \<Rightarrow> 'w \<Rightarrow> (bool \<times> 'w) option" where
  "RecvAndCheckShmProbeRsp os P cf fd token probe w = do {
     let n = 8 + body_buf_size sizeof_ShmProbeRspMsg;
     (ok, _, rspbuf, w') \<leftarrow> tcp_recv_all os fd n (replicate n 0) w;
     if \<not> ok then Some (False, w')
     else let h = load_hdr cf rspbuf; rsp = load_probe_rsp cf rspbuf; expected_ack = token XOR ShmProbeAckMask
          in if unat (hdr_size h) \<noteq> 8 + sizeof_ShmProbeRspMsg \<or> hdr_msg_type h \<noteq> ShmProbeRspMsg_msg_type
             then Some (False, w')
             else Some (ps_ok rsp \<noteq> 0 \<and> ps_ack rsp = expected_ack \<and> pm_ack P probe w' = expected_ack, w')
   }"

definition VerifyShmProbe :: "'w srv_env \<Rightarrow> conf \<Rightarrow> string \<Rightarrow> int \<Rightarrow> string \<Rightarrow> 'w \<Rightarrow> (bool \<times> 'w) option" where
  "VerifyShmProbe E cf server_name fd client_name w0 =
     (let os = se_os E; P = se_probe E;
          w1 = snd (tcp_set_blocking os fd w0);
          w2 = snd (tcp_set_timeout os fd SO_RCVTIMEO 3000 w1);
          w3 = snd (tcp_set_timeout os fd SO_SNDTIMEO 3000 w2);
          (token, w4) = MakeShmProbeToken E client_name w3;
          name = probe_name server_name client_name token
      in case my_mmap os (pm_map P) name True w4 of
           (Inr _, w5) \<Rightarrow> Some (False, w5)
         | (Inl probe, w5) \<Rightarrow> do {
             let w6 = pm_set_ack P probe 0 (pm_set_token P probe token w5);
             let (sent, w7) = SendShmProbeReq os cf fd name token w6;
             (ok, w8) \<leftarrow> (if sent then RecvAndCheckShmProbeRsp os P cf fd token probe w7 else Some (False, w7));
             Some (ok, snd (my_shm_unlink os name (my_munmap (pm_map P) probe w8)))
           })"

section \<open>Login\<close>

definition CheckAckInQueue :: "u32 \<Rightarrow> u32 \<Rightarrow> u32 \<Rightarrow> bool" where
  "CheckAckInQueue ack_seq seq_start seq_end \<longleftrightarrow> 0 \<le> sint (ack_seq - seq_start) \<and> 0 \<le> sint (seq_end - ack_seq)"

definition SendLoginRsp :: "'w os \<Rightarrow> conf \<Rightarrow> int \<Rightarrow> msg_header \<Rightarrow> login_rsp \<Rightarrow> 'w \<Rightarrow> bool \<times> 'w" where
  "SendLoginRsp os cf fd header login_rsp w =
     (let pad = body_buf_size (sizeof_LoginRspMsg cf) - (41 + LoginRspUserDataSize cf + NameSize cf)
      in case tcp_send_all os fd (rsp_buf cf header login_rsp (replicate pad 0)) w of (ok, _, w') \<Rightarrow> (ok, w'))"

text \<open>\<open>std::swap(conns[i], conns[j])\<close>\<close>

definition swap_conns :: "nat \<Rightarrow> nat \<Rightarrow> nat list \<Rightarrow> nat list" where
  "swap_conns i j xs = xs[i := xs ! j, j := xs ! i]"

text \<open>The groups \<open>HandleLogin\<close> is given: those for shared memory or those for TCP.\<close>

definition sv_grps :: "bool \<Rightarrow> server \<Rightarrow> conn_group list" where
  "sv_grps shm sv = (if shm then sv_shm_grps sv else sv_tcp_grps sv)"

definition sv_set_grps :: "bool \<Rightarrow> conn_group list \<Rightarrow> server \<Rightarrow> server" where
  "sv_set_grps shm gs sv = (if shm then sv\<lparr>sv_shm_grps := gs\<rparr> else sv\<lparr>sv_tcp_grps := gs\<rparr>)"

definition sv_set_conn :: "nat \<Rightarrow> tcpshm_conn \<Rightarrow> server \<Rightarrow> server" where
  "sv_set_conn p c sv = sv\<lparr>sv_conn_pool := (sv_conn_pool sv)[p := c]\<rparr>"

text \<open>
  The search in the loop of \<open>HandleLogin\<close>: the first connection that is unused, which gets the
  client's name, or has the client's name.
\<close>

fun find_conn :: "nat \<Rightarrow> string \<Rightarrow> nat list \<Rightarrow> nat \<Rightarrow> tcpshm_conn list \<Rightarrow> nat option \<times> tcpshm_conn list" where
  "find_conn n client_name [] i pool = (None, pool)"
| "find_conn n client_name (p # ps) i pool =
     (let c = pool ! p;
          c' = (if tc_remote_name c ! 0 = CHR 0x00
                then c\<lparr>tc_remote_name := strncpy (tc_remote_name c) client_name n\<rparr> else c);
          pool' = pool[p := c']
      in if \<not> strneq (tc_remote_name c') client_name n then find_conn n client_name ps (Suc i) pool'
         else (Some i, pool'))"

text \<open>A response with an error text, and the end of \<open>HandleLogin\<close> that sends it.\<close>

definition set_error :: "string \<Rightarrow> login_rsp \<Rightarrow> login_rsp" where
  "set_error msg rsp = rsp\<lparr>lr_error_msg := strncpy (lr_error_msg rsp) msg 32\<rparr>"

definition login_hdr :: "conf \<Rightarrow> msg_header" where
  "login_hdr cf = \<lparr>hdr_size = word_of_nat (8 + sizeof_LoginRspMsg cf), hdr_msg_type = LoginRspMsg_msg_type, hdr_ack_seq = 0\<rparr>"

definition login_rsp_init :: "conf \<Rightarrow> string \<Rightarrow> login_rsp" where
  "login_rsp_init cf server_name =
     \<lparr>lr_server_seq_start = 0, lr_server_seq_end = 0, lr_user_data = replicate (LoginRspUserDataSize cf) 0, lr_status = 2,
      lr_server_name = strncpy (replicate (NameSize cf) (CHR 0x00)) server_name (NameSize cf),
      lr_error_msg = replicate 32 (CHR 0x00)\<rparr>"

text \<open>
  The sequence numbers the two sides present, after \<open>Reset\<close> when the client's last server was
  another one: whether \<open>GetSeq\<close> succeeded, the connection, the local numbers (ack, start, end) and
  the remote ones.
\<close>

definition login_seqs :: "conf \<Rightarrow> string \<Rightarrow> msg_header \<Rightarrow> login_msg \<Rightarrow> tcpshm_conn \<Rightarrow>
    (bool \<times> tcpshm_conn \<times> (u32 \<times> u32 \<times> u32) \<times> (u32 \<times> u32 \<times> u32)) option" where
  "login_seqs cf server_name h login c =
     (if \<not> strneq (lm_last_server_name login) server_name (NameSize cf)
      then do { c' \<leftarrow> tc_Reset cf c; Some (True, c', (0, 0, 0), (0, 0, 0)) }
      else do {
        (ok, local) \<leftarrow> tc_GetSeq cf c (0, 0, 0);
        Some (ok, c, local, (hdr_ack_seq h, lm_client_seq_start login, lm_client_seq_end login))
      })"

text \<open>
  The part of \<open>HandleLogin\<close> after the search found \<open>conns[i]\<close> of group \<open>grpid\<close>, which is not live:
  \<open>h\<close> and \<open>login\<close> are what the client sent, \<open>rsp\<close> is the response so far.
\<close>

definition login_conn :: "'w srv_env \<Rightarrow> conf \<Rightarrow> int \<Rightarrow> bool \<Rightarrow> nat \<Rightarrow> nat \<Rightarrow> msg_header \<Rightarrow> login_msg \<Rightarrow> login_rsp \<Rightarrow>
    new_conn \<Rightarrow> server \<Rightarrow> 'w \<Rightarrow> (new_conn \<times> server \<times> 'w) option" where
  "login_conn E cf now shm grpid i h login rsp conn sv w =
     (let os = se_os E; cb = se_cb E; grp = sv_grps shm sv ! grpid; p = cg_conns grp ! i;
          respond = (\<lambda>hdr r c w'. Some (conn, sv_set_conn p c sv, snd (SendLoginRsp os cf (nc_fd conn) hdr r w')))
      in case tc_OpenFile os (se_maps E) (lm_use_shm login \<noteq> 0) (sv_conn_pool sv ! p) w of
           (Inr e, c1, w1) \<Rightarrow>
             let (c2, w2) = srv_OnClientFileError cb e (tcp_get_last_error os w1) c1 w1
             in respond (login_hdr cf) (set_error ''System error'' rsp) c2 w2
         | (Inl _, c1, w1) \<Rightarrow> do {
             (ok, c2, (local_ack_seq, local_seq_start, local_seq_end), (remote_ack_seq, remote_seq_start, remote_seq_end)) \<leftarrow>
               login_seqs cf (sv_server_name sv) h login c1;
             (if \<not> ok
              then let (c3, w3) = srv_OnClientFileError cb ''Ptcp file corrupt'' 0 c2 w1
                   in respond (login_hdr cf) (set_error ''System error'' rsp) c3 w3
              else let hdr = (login_hdr cf)\<lparr>hdr_ack_seq := local_ack_seq\<rparr>;
                       rsp' = rsp\<lparr>lr_server_seq_start := local_seq_start, lr_server_seq_end := local_seq_end\<rparr>
                   in if \<not> CheckAckInQueue remote_ack_seq local_seq_start local_seq_end \<or>
                         \<not> CheckAckInQueue local_ack_seq remote_seq_start remote_seq_end
                      then let (c3, w3) = srv_OnSeqNumberMismatch cb [local_ack_seq, local_seq_start, local_seq_end,
                                             remote_ack_seq, remote_seq_start, remote_seq_end] c2 w1
                           in respond hdr (rsp'\<lparr>lr_status := 1\<rparr>) c3 w3
                      else case SendLoginRsp os cf (nc_fd conn) hdr (rsp'\<lparr>lr_status := 0\<rparr>) w1 of (sent, w2) \<Rightarrow>
                        if \<not> sent then Some (conn, sv_set_conn p c2 sv, w2)
                        else do {
                          (c3, w3) \<leftarrow> tc_Open os cf (nc_fd conn) remote_ack_seq now c2
                                        (snd (tcp_set_nonblocking os (nc_fd conn) w2));
                          let grp' = \<lparr>cg_live_cnt = Suc (cg_live_cnt grp), cg_conns = swap_conns i (cg_live_cnt grp) (cg_conns grp)\<rparr>;
                          let (c4, w4) = srv_OnClientLogon cb (nc_addr conn) c3 w3;
                          Some (conn\<lparr>nc_fd := INVALID_TCP_SOCKET\<rparr>,
                                sv_set_conn p c4 (sv_set_grps shm ((sv_grps shm sv)[grpid := grp']) sv), w4)
                        })
           })"

text \<open>The login message in the buffer of a new connection, already in host byte order.\<close>

definition store_login :: "bool \<Rightarrow> msg_header \<Rightarrow> login_msg \<Rightarrow> u8 list \<Rightarrow> u8 list" where
  "store_login hl h m buf =
     (let bs = hdr_bytes hl h @ login_bytes hl m in bs @ drop (length bs) buf)"

definition HandleLogin :: "'w srv_env \<Rightarrow> conf \<Rightarrow> int \<Rightarrow> bool \<Rightarrow> new_conn \<Rightarrow> server \<Rightarrow> 'w \<Rightarrow> (new_conn \<times> server \<times> 'w) option" where
  "HandleLogin E cf now shm conn0 sv w =
     (let os = se_os E; n = NameSize cf;
          h = hdr_of_bytes (HostLittle cf) (take 8 (nc_recvbuf conn0));
          login0 = login_of_bytes cf (HostLittle cf) (drop 8 (nc_recvbuf conn0));
          rsp = login_rsp_init cf (sv_server_name sv);
          respond = (\<lambda>r c s w'. Some (c, s, snd (SendLoginRsp os cf (nc_fd c) (login_hdr cf) r w')))
      in if lm_client_name login0 ! 0 = CHR 0x00 then respond (set_error ''Invalid client name'' rsp) conn0 sv w
         else let login = login0\<lparr>lm_client_name := (lm_client_name login0)[n - 1 := CHR 0x00]\<rparr>;
                  conn = conn0\<lparr>nc_recvbuf := store_login (HostLittle cf) h login (nc_recvbuf conn0)\<rparr>
              in do {
                (probe_ok, w1) \<leftarrow> (if lm_use_shm login \<noteq> 0
                                   then VerifyShmProbe E cf (sv_server_name sv) (nc_fd conn) (lm_client_name login) w
                                   else Some (True, w));
                (if \<not> probe_ok then respond (set_error ''SHM probe failed'' rsp) conn sv w1
                 else case srv_OnNewConnection (se_cb E) (nc_addr conn) login rsp w1 of (grpid, rsp1, w2) \<Rightarrow>
                   if grpid < 0
                   then respond (if lr_error_msg rsp1 ! 0 = CHR 0x00 then set_error ''Login Reject'' rsp1 else rsp1) conn sv w2
                   else do {
                     grp \<leftarrow> array_get (sv_grps shm sv) (nat grpid);
                     let (found, pool) = find_conn n (lm_client_name login) (cg_conns grp) 0 (sv_conn_pool sv);
                     let sv1 = sv\<lparr>sv_conn_pool := pool\<rparr>;
                     (case found of
                        None \<Rightarrow> respond (set_error ''Max client cnt exceeded'' rsp1) conn sv1 w2
                      | Some i \<Rightarrow>
                          if i < cg_live_cnt grp then respond (set_error ''Already loggned on'' rsp1) conn sv1 w2
                          else login_conn E cf now shm (nat grpid) i h login rsp1 conn sv1 w2)
                   })
              })"

section \<open>Polling\<close>

text \<open>The attempt of \<open>PollCtl\<close> to accept one connection.\<close>

definition accept_one :: "'w srv_env \<Rightarrow> srv_conf \<Rightarrow> int \<Rightarrow> server \<Rightarrow> 'w \<Rightarrow> server \<times> 'w" where
  "accept_one E sc now sv w =
     (if sv_avail_idx sv \<noteq> MaxNewConnections sc
      then case tcp_accept (se_os E) (sv_listenfd sv) w of ((fd, addr), w1) \<Rightarrow>
        let i = sv_avail_idx sv; conn = (sv_new_conns sv ! i)\<lparr>nc_fd := fd, nc_addr := addr\<rparr>
        in if fd \<noteq> INVALID_TCP_SOCKET
           then (sv\<lparr>sv_new_conns := (sv_new_conns sv)[i := conn\<lparr>nc_time := now\<rparr>], sv_avail_idx := MaxNewConnections sc\<rparr>,
                 snd (tcp_set_nonblocking (se_os E) fd w1))
           else (sv\<lparr>sv_new_conns := (sv_new_conns sv)[i := conn]\<rparr>, w1)
      else (sv, w))"

text \<open>What \<open>PollCtl\<close> does with the bytes of a whole login message.\<close>

definition recv_login :: "'w srv_env \<Rightarrow> conf \<Rightarrow> int \<Rightarrow> new_conn \<Rightarrow> server \<Rightarrow> 'w \<Rightarrow> (new_conn \<times> server \<times> 'w) option" where
  "recv_login E cf now conn sv w =
     (let hl = HostLittle cf; buf = nc_recvbuf conn; h = load_hdr cf buf; login = load_login cf buf
      in if unat (hdr_size h) = 8 + sizeof_LoginMsg cf \<and> hdr_msg_type h = LoginMsg_msg_type
         then HandleLogin E cf now (lm_use_shm login \<noteq> 0) (conn\<lparr>nc_recvbuf := store_login hl h login buf\<rparr>) sv w
         else Some (conn\<lparr>nc_recvbuf := hdr_bytes hl h @ drop 8 buf\<rparr>, sv, w))"

text \<open>One pass of the loop of \<open>PollCtl\<close> over the new connections.\<close>

definition visit_new :: "'w srv_env \<Rightarrow> conf \<Rightarrow> srv_conf \<Rightarrow> int \<Rightarrow> nat \<Rightarrow> server \<Rightarrow> 'w \<Rightarrow> (server \<times> 'w) option" where
  "visit_new E cf sc now i sv w =
     (let os = se_os E; conn = sv_new_conns sv ! i; n = 8 + body_buf_size (sizeof_LoginMsg cf)
      in if nc_fd conn = INVALID_TCP_SOCKET then Some (sv\<lparr>sv_avail_idx := i\<rparr>, w)
         else do {
           (ret, buf, w1) \<leftarrow> tcp_recv os (nc_fd conn) 0 n (nc_recvbuf conn) w;
           let conn1 = conn\<lparr>nc_recvbuf := buf\<rparr>;
           if ret < 0 \<and> tcp_get_last_error os w1 = TCP_ERR_AGAIN \<and> now - nc_time conn \<le> NewConnectionTimeout sc
           then Some (sv\<lparr>sv_new_conns := (sv_new_conns sv)[i := conn1]\<rparr>, w1)
           else do {
             (conn2, sv2, w2) \<leftarrow> (if ret = int n then recv_login E cf now conn1 sv w1 else Some (conn1, sv, w1));
             let (conn3, w3) = (if nc_fd conn2 \<noteq> INVALID_TCP_SOCKET
                                then (conn2\<lparr>nc_fd := INVALID_TCP_SOCKET\<rparr>, snd (tcp_close os (nc_fd conn2) w2)) else (conn2, w2));
             Some (sv2\<lparr>sv_new_conns := (sv_new_conns sv2)[i := conn3], sv_avail_idx := i\<rparr>, w3)
           }
         })"

primrec visit_all :: "'w srv_env \<Rightarrow> conf \<Rightarrow> srv_conf \<Rightarrow> int \<Rightarrow> nat list \<Rightarrow> server \<Rightarrow> 'w \<Rightarrow> (server \<times> 'w) option" where
  "visit_all E cf sc now [] sv w = Some (sv, w)"
| "visit_all E cf sc now (i # is) sv w = do {
     (sv1, w1) \<leftarrow> visit_new E cf sc now i sv w;
     visit_all E cf sc now is sv1 w1
   }"

text \<open>
  The loop of \<open>PollCtl\<close> over the live connections of a group; for shared-memory groups it also polls
  the heartbeats (\<open>hb\<close>). A connection that has been closed is swapped behind the live ones.
\<close>

function ctl_scan :: "'w srv_env \<Rightarrow> conf \<Rightarrow> bool \<Rightarrow> int \<Rightarrow> nat \<Rightarrow> conn_group \<Rightarrow> tcpshm_conn list \<Rightarrow> 'w \<Rightarrow>
    (conn_group \<times> tcpshm_conn list \<times> 'w) option" where
  "ctl_scan E cf hb now i grp pool w =
     (if i < cg_live_cnt grp
      then do {
        let p = cg_conns grp ! i;
        (c1, w1) \<leftarrow> (if hb then do { (_, c, w') \<leftarrow> tc_TcpFront (se_os E) cf now (pool ! p) w; Some (c, w') }
                     else Some (pool ! p, w));
        let (closed, c2, w2) = tc_TryCloseFd (se_os E) c1 w1;
        if closed
        then let (reason, sys_err) = tc_GetCloseReason c2;
                 (c3, w3) = srv_OnClientDisconnected (se_cb E) reason sys_err c2 w2;
                 live = cg_live_cnt grp - 1
             in ctl_scan E cf hb now i \<lparr>cg_live_cnt = live, cg_conns = swap_conns i live (cg_conns grp)\<rparr> (pool[p := c3]) w3
        else ctl_scan E cf hb now (Suc i) grp (pool[p := c2]) w2
      }
      else Some (grp, pool, w))"
  by pat_completeness auto
termination
  by (relation "measure (\<lambda>(_, _, _, _, i, grp, _, _). cg_live_cnt grp - i)") auto

declare ctl_scan.simps [simp del]

primrec ctl_grps :: "'w srv_env \<Rightarrow> conf \<Rightarrow> bool \<Rightarrow> int \<Rightarrow> conn_group list \<Rightarrow> tcpshm_conn list \<Rightarrow> 'w \<Rightarrow>
    (conn_group list \<times> tcpshm_conn list \<times> 'w) option" where
  "ctl_grps E cf hb now [] pool w = Some ([], pool, w)"
| "ctl_grps E cf hb now (g # gs) pool w = do {
     (g', pool1, w1) \<leftarrow> ctl_scan E cf hb now 0 g pool w;
     (gs', pool2, w2) \<leftarrow> ctl_grps E cf hb now gs pool1 w1;
     Some (g' # gs', pool2, w2)
   }"

definition PollCtl :: "'w srv_env \<Rightarrow> conf \<Rightarrow> srv_conf \<Rightarrow> int \<Rightarrow> server \<Rightarrow> 'w \<Rightarrow> (server \<times> 'w) option" where
  "PollCtl E cf sc now sv0 w0 = do {
     let (sv1, w1) = accept_one E sc now sv0 w0;
     (sv2, w2) \<leftarrow> visit_all E cf sc now [0..<MaxNewConnections sc] sv1 w1;
     (shm, pool3, w3) \<leftarrow> ctl_grps E cf True now (sv_shm_grps sv2) (sv_conn_pool sv2) w2;
     (tcp, pool4, w4) \<leftarrow> ctl_grps E cf False now (sv_tcp_grps sv2) pool3 w3;
     Some (sv2\<lparr>sv_shm_grps := shm, sv_tcp_grps := tcp, sv_conn_pool := pool4\<rparr>, w4)
   }"

text \<open>The loops of \<open>PollTcp\<close> and \<open>PollShm\<close> over the live connections; \<open>front\<close> is \<open>TcpFront\<close> or \<open>ShmFront\<close>.\<close>

primrec poll_conns :: "(tcpshm_conn \<Rightarrow> 'w \<Rightarrow> (msg_ptr option \<times> tcpshm_conn \<times> 'w) option) \<Rightarrow>
    (msg_ptr \<Rightarrow> tcpshm_conn \<Rightarrow> 'w \<Rightarrow> (tcpshm_conn \<times> 'w) option) \<Rightarrow> nat list \<Rightarrow> tcpshm_conn list \<Rightarrow> 'w \<Rightarrow>
    (tcpshm_conn list \<times> 'w) option" where
  "poll_conns front on_msg [] pool w = Some (pool, w)"
| "poll_conns front on_msg (p # ps) pool w = do {
     (head, c1, w1) \<leftarrow> front (pool ! p) w;
     (c2, w2) \<leftarrow> (case head of None \<Rightarrow> Some (c1, w1) | Some m \<Rightarrow> on_msg m c1 w1);
     poll_conns front on_msg ps (pool[p := c2]) w2
   }"

definition PollTcp :: "'w srv_env \<Rightarrow> conf \<Rightarrow> int \<Rightarrow> nat \<Rightarrow> server \<Rightarrow> 'w \<Rightarrow> (server \<times> 'w) option" where
  "PollTcp E cf now grpid sv w = do {
     grp \<leftarrow> array_get (sv_tcp_grps sv) grpid;
     (pool, w') \<leftarrow> poll_conns (tc_TcpFront (se_os E) cf now) (srv_OnClientMsg (se_cb E))
                     (take (cg_live_cnt grp) (cg_conns grp)) (sv_conn_pool sv) w;
     Some (sv\<lparr>sv_conn_pool := pool\<rparr>, w')
   }"

definition PollShm :: "'w srv_env \<Rightarrow> conf \<Rightarrow> nat \<Rightarrow> server \<Rightarrow> 'w \<Rightarrow> (server \<times> 'w) option" where
  "PollShm E cf grpid sv w = do {
     grp \<leftarrow> array_get (sv_shm_grps sv) grpid;
     (pool, w') \<leftarrow> poll_conns (\<lambda>c w. do { (head, c') \<leftarrow> tc_ShmFront cf c; Some (head, c', w) }) (srv_OnClientMsg (se_cb E))
                     (take (cg_live_cnt grp) (cg_conns grp)) (sv_conn_pool sv) w;
     Some (sv\<lparr>sv_conn_pool := pool\<rparr>, w')
   }"

end
