(* ===== verification/Conn_Frame.thy ===== *)
theory Conn_Frame
  imports Tcpshm_Conn "HOL-Library.Multiset"
begin

text \<open>
  What the operations of a connection leave alone: the name of its peer, the descriptor it has to
  close (\<open>pc_fd_to_close\<close>), and every quantity of the world that the system calls they make leave alone.
  The server uses these facts to account for names and descriptors, taking for that quantity the
  open descriptors of the process.
\<close>

section \<open>TCP connections\<close>

text \<open>
  Sending on a socket, receiving from it and allocating memory do not change \<open>F\<close>: for one socket, and
  for all of them.
\<close>

definition send_keeps :: "'w os \<Rightarrow> int \<Rightarrow> ('w \<Rightarrow> 'b) \<Rightarrow> bool" where
  "send_keeps os s F \<longleftrightarrow> (\<forall>buf w. F (snd (sys_send os s buf w)) = F w)"

definition recv_keeps :: "'w os \<Rightarrow> int \<Rightarrow> ('w \<Rightarrow> 'b) \<Rightarrow> bool" where
  "recv_keeps os s F \<longleftrightarrow>
     (\<forall>n w. F (snd (sys_recv os s n w)) = F w) \<and> (\<forall>ns w. F (snd (sys_readv os s ns w)) = F w) \<and> (\<forall>n w. F (snd (sys_new os n w)) = F w)"

definition io_keeps :: "'w os \<Rightarrow> ('w \<Rightarrow> 'b) \<Rightarrow> bool" where
  "io_keeps os F \<longleftrightarrow> (\<forall>s. send_keeps os s F \<and> recv_keeps os s F)"

lemma send_keepsD: "send_keeps os s F \<Longrightarrow> sys_send os s buf w = (n, w') \<Longrightarrow> F w' = F w"
  unfolding send_keeps_def by (metis snd_conv)

lemma recv_keepsD:
  assumes "recv_keeps os s F"
  shows "sys_recv os s len w = (d, w') \<Longrightarrow> F w' = F w" "sys_readv os s lens w = (d, w') \<Longrightarrow> F w' = F w"
    "sys_new os k w = (b, w') \<Longrightarrow> F w' = F w"
  using assms unfolding recv_keeps_def by (metis snd_conv)+

lemma io_keepsD:
  assumes "io_keeps os F"
  shows "sys_send os s buf w = (n, w') \<Longrightarrow> F w' = F w" "sys_recv os s len w = (d, w') \<Longrightarrow> F w' = F w"
    "sys_readv os s lens w = (d, w') \<Longrightarrow> F w' = F w" "sys_new os k w = (b, w') \<Longrightarrow> F w' = F w"
    "send_keeps os s F" "recv_keeps os s F"
  using assms unfolding io_keeps_def by (blast dest: send_keepsD recv_keepsD)+

text \<open>
  What an operation on an open connection does to it at most: it stays on its socket or closes, keeps
  the descriptor to close, and of the heartbeat message changes the acknowledgement number only. An
  operation that sends also leaves the receive buffer alone.
\<close>

definition steady :: "ptcp_conn \<Rightarrow> ptcp_conn \<Rightarrow> bool" where
  "steady c c' \<longleftrightarrow>
     pc_fd_to_close c' = pc_fd_to_close c \<and> (pc_sockfd c' = pc_sockfd c \<or> pc_sockfd c' = INVALID_TCP_SOCKET) \<and>
     hdr_size (pc_hbmsg c') = hdr_size (pc_hbmsg c) \<and> hdr_msg_type (pc_hbmsg c') = hdr_msg_type (pc_hbmsg c)"

definition sends :: "ptcp_conn \<Rightarrow> ptcp_conn \<Rightarrow> bool" where
  "sends c c' \<longleftrightarrow>
     steady c c' \<and> pc_recvbuf c' = pc_recvbuf c \<and> pc_recvbuf_size c' = pc_recvbuf_size c \<and> pc_writeidx c' = pc_writeidx c \<and>
     pc_nextmsg_idx c' = pc_nextmsg_idx c \<and> pc_readidx c' = pc_readidx c"

lemma steady_refl [simp]: "steady c c"
  by (simp add: steady_def)

lemma steady_trans: "steady c1 c2 \<Longrightarrow> steady c2 c3 \<Longrightarrow> steady c1 c3"
  by (auto simp: steady_def)

lemma sends_refl [simp]: "sends c c"
  by (simp add: sends_def)

lemma sends_trans: "sends c1 c2 \<Longrightarrow> sends c2 c3 \<Longrightarrow> sends c1 c3"
  by (auto simp: sends_def steady_def)

lemma pc_Close_steady [simp]: "steady c (pc_Close r e c)" and pc_Close_sends: "sends c (pc_Close r e c)"
  by (simp_all add: pc_Close_def steady_def sends_def)

lemma recv_restart_steady: "steady c (recv_restart c)"
  by (simp add: recv_restart_def steady_def)

lemma recv_failed_steady: "steady c (recv_failed os cf ret (c\<lparr>pc_recvbuf := buf\<rparr>) w)"
  by (simp add: recv_failed_def pc_Close_def steady_def)

lemma recv_compact_steady: "recv_compact ret wr stack c = Some c' \<Longrightarrow> steady c c'"
  by (auto simp: recv_compact_def Let_def steady_def split: Option.bind_split_asm)

lemma recv_expand_steady:
  "recv_keeps os s F \<Longrightarrow> recv_expand os cf ret wr stack c w = Some (c', w') \<Longrightarrow> steady c c' \<and> F w' = F w"
  by (auto simp: recv_expand_def Let_def steady_def split: Option.bind_split_asm prod.split_asm dest: recv_keepsD)

lemma recv_call_keeps:
  "recv_keeps os (pc_sockfd c) F \<Longrightarrow> recv_call os cf c wr extra w = Some (ret, buf, stack, w') \<Longrightarrow> F w' = F w"
  by (auto simp: recv_call_def tcp_recv_def tcp_readv_def split: if_split_asm prod.split_asm dest: recv_keepsD)

lemma pc_DoRecv_steady:
  assumes io: "recv_keeps os (pc_sockfd c0) F" and run: "pc_DoRecv os cf c0 w = Some (n, c', w')"
  shows "steady c0 c' \<and> F w' = F w"
proof -
  define c where "c = recv_restart c0"
  define writable where "writable = pc_recvbuf_size c - pc_writeidx c"
  define allow where "allow \<longleftrightarrow> (writable + pc_readidx c) * 2 < pc_recvbuf_size c"
  define extra where "extra = min 65536 (pc_readidx c + (if allow then TcpRecvBufMaxSize cf - pc_recvbuf_size c else 0))"
  have fd: "steady c0 c" and io': "recv_keeps os (pc_sockfd c) F" using io recv_restart_steady [of c0] by (simp_all add: c_def steady_def)
  have run': "(if writable + extra = 0 then Some (0, c, w)
      else Option.bind (recv_call os cf c writable extra w) (\<lambda>(ret, buf, stack, w1).
        if ret \<le> 0 then Some (0, recv_failed os cf ret (c\<lparr>pc_recvbuf := buf\<rparr>) w1, w1)
        else let c2 = c\<lparr>pc_recvbuf := buf, pc_recv_time := pc_now (c\<lparr>pc_recvbuf := buf\<rparr>)\<rparr> in
          if ret \<le> sint writable then Some (ret, c2, w1)
          else Option.bind (if ret \<le> sint (writable + pc_readidx c2)
                            then map_option (\<lambda>c. (c, w1)) (recv_compact ret writable stack c2)
                            else recv_expand os cf ret writable stack c2 w1)
            (\<lambda>(c3, w2). Some (ret, recv_shift c3, w2)))) = Some (n, c', w')"
    using run unfolding pc_DoRecv_def recv_restart_def [symmetric] c_def [symmetric] Let_def recv_shift_def
      writable_def [symmetric] allow_def [symmetric] extra_def [symmetric] recv_call_def .
  have "steady c c' \<and> F w' = F w"
  proof (cases "writable + extra = 0")
    case True
    then show ?thesis using run' by simp
  next
    case False
    with run' obtain ret buf stack w1 where call: "recv_call os cf c writable extra w = Some (ret, buf, stack, w1)"
      by (auto split: Option.bind_split_asm)
    have w1: "F w1 = F w" by (rule recv_call_keeps [OF io' call])
    let ?c2 = "c\<lparr>pc_recvbuf := buf, pc_recv_time := pc_now (c\<lparr>pc_recvbuf := buf\<rparr>)\<rparr>"
    have two: "steady c ?c2" by (simp add: steady_def)
    have shift: "steady c (recv_shift c3)" if "steady ?c2 c3" for c3 using that by (simp add: recv_shift_def steady_def)
    show ?thesis using run' False w1 two recv_failed_steady [of c] unfolding call
      by (auto simp: Let_def split: if_split_asm Option.bind_split_asm
          dest!: recv_compact_steady recv_expand_steady [OF io'] intro!: shift)
  qed
  then show ?thesis using fd steady_trans by blast
qed

lemma front_skip_steady: "front_skip cf q c = Some (b, c') \<Longrightarrow> steady c c'"
proof -
  have "steady c (snd r)" if "front_skip cf q c = Some r" for r
  proof (induction rule: front_skip.raw_induct [where P = "\<lambda>cf q c r. steady c (snd r)", OF _ that], goal_cases)
    case 1
    then show ?case by (fastforce simp: steady_def split: if_splits option.splits)
  qed
  then show "front_skip cf q c = Some (b, c') \<Longrightarrow> steady c c'" by fastforce
qed

lemma front_parse_steady: "front_parse cf old c = Some (b, c') \<Longrightarrow> steady c c'"
proof -
  have "steady c (snd r)" if "front_parse cf old c = Some r" for r
  proof (induction rule: front_parse.raw_induct [where P = "\<lambda>cf q c r. steady c (snd r)", OF _ that], goal_cases)
    case (1 rec cf old c r)
    from 1(2) show ?case by (auto simp: Let_def steady_def pc_Close_def split: if_split_asm option.split_asm dest!: 1(1))
  qed
  then show "front_parse cf old c = Some (b, c') \<Longrightarrow> steady c c'" by fastforce
qed

lemma pc_Front_steady:
  assumes io: "recv_keeps os (pc_sockfd c) F" "recv_keeps os INVALID_TCP_SOCKET F" and run: "pc_Front os cf c w = Some (p, c', w')"
  shows "steady c c' \<and> F w' = F w"
proof (cases "pc_q c")
  case None
  then show ?thesis using run by (auto simp: pc_Front_def dest: pc_DoRecv_steady [OF io(1)])
next
  case (Some q)
  then obtain found c1 where skip: "front_skip cf q c = Some (found, c1)" using run by (auto simp: pc_Front_def split: Option.bind_split_asm)
  have c1: "steady c c1" by (rule front_skip_steady [OF skip])
  have io1: "recv_keeps os (pc_sockfd c1) F" using c1 io by (auto simp: steady_def)
  have parse: "steady c2 c3" if "front_parse cf old (c2\<lparr>pc_writeidx := i\<rparr>) = Some (failed, c3)" for c2 c3 old i failed
    using front_parse_steady [OF that] by (simp add: steady_def)
  show ?thesis using run Some skip c1
    by (auto simp: pc_Front_def split: if_split_asm Option.bind_split_asm dest!: pc_DoRecv_steady [OF io1] parse
        intro: steady_trans)
qed

lemma send_pending_loop_keeps:
  assumes io: "send_keeps os fd F" and run: "send_pending_loop os fd p sz w = Some (r, w')"
  shows "F w' = F w"
proof -
  have "F (snd r) = F w" if "send_pending_loop os fd p sz w = Some r" for r
  proof (induction rule: send_pending_loop.raw_induct
      [where P = "\<lambda>os' fd' p sz w r. os' = os \<and> fd' = fd \<longrightarrow> F (snd r) = F w", OF _ that, rule_format, OF _ conjI [OF refl refl]], goal_cases)
    case (1 rec os' fd' p sz w r)
    obtain sent w1 where s: "sys_send os fd (take (unat sz) p) w = (sent, w1)" by fastforce
    then have "F w1 = F w" using io by (auto dest: send_keepsD)
    then show ?case using 1 s by (auto simp: Let_def tcp_send_def split: if_split_asm)
  qed
  then show ?thesis using run by fastforce
qed

lemma pc_SendPending_sends:
  assumes "send_keeps os (pc_sockfd c) F" and "pc_SendPending os cf c w = Some (ok, c', w')"
  shows "sends c c' \<and> F w' = F w"
  using assms unfolding pc_SendPending_def Let_def
  by (auto simp: pc_Close_def sends_def steady_def split: if_split_asm sum.split_asm prod.split_asm Option.bind_split_asm
      dest: send_pending_loop_keeps)

lemma send_heartbeat_sends:
  assumes "send_keeps os (pc_sockfd c) F" and "send_heartbeat os cf c w = (c', w')"
  shows "sends c c' \<and> F w' = F w"
  using assms by (auto simp: send_heartbeat_def tcp_send_def pc_Close_def sends_def steady_def split: if_split_asm prod.split_asm
      dest: send_keepsD)

lemma pc_SendHB_sends:
  assumes io: "send_keeps os (pc_sockfd c) F" "send_keeps os INVALID_TCP_SOCKET F" and run: "pc_SendHB os cf now c w = Some (c', w')"
  shows "sends c c' \<and> F w' = F w"
proof -
  let ?c = "c\<lparr>pc_now := now\<rparr>"
  have c: "sends c ?c" by (simp add: sends_def steady_def)
  have io': "send_keeps os (pc_sockfd ?c) F" using io by simp
  consider "pc_now ?c - pc_send_time ?c < HeartBeatInverval cf"
    | "\<not> pc_now ?c - pc_send_time ?c < HeartBeatInverval cf" "pc_q c = None"
    | q where "\<not> pc_now ?c - pc_send_time ?c < HeartBeatInverval cf" "pc_q c = Some q" by blast
  then show ?thesis
  proof cases
    case 1
    then show ?thesis using run c by (auto simp: pc_SendHB_def Let_def)
  next
    case 2
    then have "send_heartbeat os cf ?c w = (c', w')" using run by (simp add: pc_SendHB_def Let_def)
    from send_heartbeat_sends [OF io' this] show ?thesis using c sends_trans by blast
  next
    case 3
    obtain pending c1 w1 where P: "pc_SendPending os cf ?c w = Some (pending, c1, w1)"
      using 3 run by (auto simp: pc_SendHB_def Let_def split: Option.bind_split_asm)
    note S = pc_SendPending_sends [OF io' P]
    show ?thesis
    proof (cases pending)
      case True
      then show ?thesis using S P 3 run c sends_trans by (auto simp: pc_SendHB_def Let_def)
    next
      case False
      then obtain a where H: "send_heartbeat os cf (c1\<lparr>pc_hbmsg := (pc_hbmsg c1)\<lparr>hdr_ack_seq := a\<rparr>\<rparr>) w1 = (c', w')"
        using P 3 run by (auto simp: pc_SendHB_def Let_def split: Option.bind_split_asm)
      have hb: "sends c1 (c1\<lparr>pc_hbmsg := (pc_hbmsg c1)\<lparr>hdr_ack_seq := a\<rparr>\<rparr>)" by (simp add: sends_def steady_def)
      have "send_keeps os (pc_sockfd c1) F" using S io by (auto simp: sends_def steady_def)
      then have "send_keeps os (pc_sockfd (c1\<lparr>pc_hbmsg := (pc_hbmsg c1)\<lparr>hdr_ack_seq := a\<rparr>\<rparr>)) F" by simp
      from send_heartbeat_sends [OF this H] S show ?thesis using c hb sends_trans by metis
    qed
  qed
qed

lemma pc_Open_opens:
  assumes io: "send_keeps os fd F" "recv_keeps os s F" and run: "pc_Open os cf fd ack now c w = Some (c', w')"
  shows "pc_fd_to_close c' = fd \<and> (pc_sockfd c' = fd \<or> pc_sockfd c' = INVALID_TCP_SOCKET) \<and>
    hdr_size (pc_hbmsg c') = hdr_size (pc_hbmsg c) \<and> hdr_msg_type (pc_hbmsg c') = hdr_msg_type (pc_hbmsg c) \<and> F w' = F w"
proof -
  let ?c = "c\<lparr>pc_sockfd := fd, pc_fd_to_close := fd, pc_writeidx := 0, pc_readidx := 0,
                pc_nextmsg_idx := 0, pc_recv_time := now, pc_send_time := now, pc_now := now\<rparr>"
  have S: "sends ?c c1 \<and> F w1 = F w" if "pc_SendPending os cf (?c\<lparr>pc_q := q\<rparr>) w = Some (ok, c1, w1)" for q ok c1 w1
    using pc_SendPending_sends [OF _ that] io(1) by (simp add: sends_def steady_def)
  show ?thesis using run
    by (auto simp: pc_Open_def Let_def sends_def steady_def split: if_split_asm option.split_asm Option.bind_split_asm prod.split_asm
        dest!: S recv_keepsD(3) [OF io(2)])
qed


section \<open>Connections over either transport\<close>

text \<open>The descriptor a connection holds, and the two things an owner of connections keeps track of.\<close>

definition tc_fd :: "tcpshm_conn \<Rightarrow> int" where
  "tc_fd c = pc_fd_to_close (tc_ptcp_conn c)"

definition same_owner :: "tcpshm_conn \<Rightarrow> tcpshm_conn \<Rightarrow> bool" where
  "same_owner c c' \<longleftrightarrow> tc_remote_name c' = tc_remote_name c \<and> tc_fd c' = tc_fd c"

text \<open>
  The kernel's table of open descriptors: \<open>socket\<close>, \<open>accept\<close>, \<open>open\<close> and \<open>shm_open\<close> add what they
  return, \<open>close\<close> removes its argument, and no other call changes it.
\<close>

definition opens :: "('w \<Rightarrow> int multiset) \<Rightarrow> 'w \<Rightarrow> int \<times> 'w \<Rightarrow> bool" where
  "opens F w = (\<lambda>(fd, w'). F w' = (if fd = - 1 then F w else add_mset fd (F w)))"

definition fd_kernel :: "'w os \<Rightarrow> ('w \<Rightarrow> int multiset) \<Rightarrow> bool" where
  "fd_kernel os F \<longleftrightarrow>
     io_keeps os F \<and>
     (\<forall>s w. F (snd (sys_close os s w)) = F w - {#s#}) \<and>
     (\<forall>f b w. opens F w (sys_open os f b w)) \<and>
     (\<forall>f b w. opens F w (sys_shm_open os f b w)) \<and>
     (\<forall>w. opens F w (sys_socket os w)) \<and>
     (\<forall>s w. opens F w (apfst fst (sys_accept os s w))) \<and>
     (\<forall>fd n w. F (snd (sys_ftruncate os fd n w)) = F w) \<and> (\<forall>f w. F (snd (sys_shm_unlink os f w)) = F w) \<and>
     (\<forall>f w. F (snd (sys_mkdir os f w)) = F w) \<and> (\<forall>s a w. F (snd (sys_bind os s a w)) = F w) \<and>
     (\<forall>s n w. F (snd (sys_listen os s n w)) = F w) \<and> (\<forall>s a w. F (snd (sys_connect os s a w)) = F w) \<and>
     (\<forall>s opt w. F (snd (sys_setsockopt os s opt w)) = F w) \<and> (\<forall>s w. F (snd (sys_getfl os s w)) = F w) \<and>
     (\<forall>s n w. F (snd (sys_setfl os s n w)) = F w)"

definition map_keeps :: "('t, 'w) map_ops \<Rightarrow> ('w \<Rightarrow> 'b) \<Rightarrow> bool" where
  "map_keeps T F \<longleftrightarrow> (\<forall>fd w. F (snd (map_fd T fd w)) = F w) \<and> (\<forall>p w. F (unmap T p w) = F w)"

lemma fd_kernelD:
  assumes "fd_kernel os F"
  shows "io_keeps os F" and "F (snd (sys_close os s w)) = F w - {#s#}"
    and "sys_open os f b w = (fd, w') \<Longrightarrow> F w' = (if fd = - 1 then F w else add_mset fd (F w))"
    and "sys_shm_open os f b w = (fd, w') \<Longrightarrow> F w' = (if fd = - 1 then F w else add_mset fd (F w))"
    and "sys_socket os w = (fd, w') \<Longrightarrow> F w' = (if fd = - 1 then F w else add_mset fd (F w))"
    and "sys_accept os s w = ((fd, a), w') \<Longrightarrow> F w' = (if fd = - 1 then F w else add_mset fd (F w))"
proof -
  show "io_keeps os F" and "F (snd (sys_close os s w)) = F w - {#s#}" using assms by (simp_all add: fd_kernel_def)
  have O: "opens F w (sys_open os f b w)" "opens F w (sys_shm_open os f b w)" "opens F w (sys_socket os w)"
    "opens F w (apfst fst (sys_accept os s w))" using assms by (simp_all add: fd_kernel_def del: split_paired_All)
  show "sys_open os f b w = (fd, w') \<Longrightarrow> F w' = (if fd = - 1 then F w else add_mset fd (F w))"
    and "sys_shm_open os f b w = (fd, w') \<Longrightarrow> F w' = (if fd = - 1 then F w else add_mset fd (F w))"
    and "sys_socket os w = (fd, w') \<Longrightarrow> F w' = (if fd = - 1 then F w else add_mset fd (F w))"
    and "sys_accept os s w = ((fd, a), w') \<Longrightarrow> F w' = (if fd = - 1 then F w else add_mset fd (F w))"
    using O by (simp_all add: opens_def)
qed

lemma fd_kernel_quiet:
  assumes "fd_kernel os F"
  shows "F (snd (sys_ftruncate os fd n w)) = F w" and "F (snd (sys_shm_unlink os f w)) = F w"
    and "F (snd (sys_mkdir os f w)) = F w" and "F (snd (sys_bind os s a w)) = F w"
    and "F (snd (sys_listen os s k w)) = F w" and "F (snd (sys_connect os s a w)) = F w"
    and "F (snd (sys_setsockopt os s opt w)) = F w" and "F (snd (sys_getfl os s w)) = F w"
    and "F (snd (sys_setfl os s l w)) = F w"
  using assms by (simp_all add: fd_kernel_def del: split_paired_All)

text \<open>A mapping opens a descriptor and closes it again, on every branch.\<close>

lemma mmap_and_close_fds:
  assumes "fd_kernel os F" and "map_keeps T F" and "F w = add_mset fd M" and "mmap_and_close os T fd w = (r, w')"
  shows "F w' = M"
  using assms(2-4) fd_kernelD(2) [OF assms(1)]
  by (auto simp: mmap_and_close_def map_keeps_def split: prod.split_asm) (metis add_mset_remove_trivial snd_conv)

lemma my_mmap_fds:
  assumes k: "fd_kernel os F" and T: "map_keeps T F" and run: "my_mmap os T f shm w = (r, w')"
  shows "F w' = F w"
proof -
  obtain fd w1 where o: "(if shm then sys_shm_open os f True w else sys_open os f True w) = (fd, w1)" by fastforce
  obtain t w2 where t: "sys_ftruncate os fd (map_sizeof T) w1 = (t, w2)" by fastforce
  have w1: "F w1 = (if fd = - 1 then F w else add_mset fd (F w))"
    using o fd_kernelD(3,4) [OF k] by (cases shm) auto
  have w2: "F w2 = F w1" using fd_kernel_quiet(1) [OF k, of fd "map_sizeof T" w1] t by simp
  consider "fd = - 1" | "fd \<noteq> - 1" "t \<noteq> 0" | "fd \<noteq> - 1" "t = 0" by blast
  then show ?thesis
  proof cases
    case 3
    then have "mmap_and_close os T fd w2 = (r, w')" using run o t by (simp add: my_mmap_def)
    from mmap_and_close_fds [OF k T _ this] show ?thesis using 3 w1 w2 by simp
  qed (use run o t w1 w2 fd_kernelD(2) [OF k] in \<open>auto simp: my_mmap_def\<close>)
qed

lemma tc_OpenFile_owner:
  assumes k: "fd_kernel os F" and T: "map_keeps (map_ptcp T) F" "map_keeps (map_shm T) F"
    and run: "tc_OpenFile os T use_shm c w = (r, c', w')"
  shows "same_owner c c' \<and> F w' = F w"
  using run
  by (auto simp: tc_OpenFile_def pc_OpenFile_def same_owner_def tc_fd_def Let_def
      split: if_split_asm option.split_asm sum.split_asm prod.split_asm
      dest!: my_mmap_fds [OF k T(1)] my_mmap_fds [OF k T(2)])

lemma tc_TcpFront_owner:
  assumes "io_keeps os F" and "tc_TcpFront os cf now c w = Some (p, c', w')"
  shows "same_owner c c' \<and> F w' = F w"
  using assms(2) by (auto simp: tc_TcpFront_def same_owner_def tc_fd_def sends_def steady_def split: Option.bind_split_asm
      dest!: pc_SendHB_sends [OF io_keepsD(5,5) [OF assms(1)]] pc_Front_steady [OF io_keepsD(6,6) [OF assms(1)]])

lemma tc_ShmFront_owner: "tc_ShmFront cf c = Some (p, c') \<Longrightarrow> same_owner c c'"
  by (auto simp: tc_ShmFront_def same_owner_def tc_fd_def split: Option.bind_split_asm)

lemma tc_Reset_owner: "tc_Reset cf c = Some c' \<Longrightarrow> same_owner c c'"
  by (auto simp: tc_Reset_def pc_Reset_def same_owner_def tc_fd_def split: Option.bind_split_asm option.split_asm)

lemma tc_Open_owner:
  assumes "io_keeps os F" and "tc_Open os cf fd ack now c w = Some (c', w')"
  shows "tc_remote_name c' = tc_remote_name c" and "tc_fd c' = fd" and "F w' = F w"
  using assms(2) by (auto simp: tc_Open_def tc_fd_def split: Option.bind_split_asm
      dest!: pc_Open_opens [OF io_keepsD(5,6) [OF assms(1)]])

lemma tc_TryCloseFd_owner:
  assumes k: "fd_kernel os F" and run: "tc_TryCloseFd os c w = (closed, c', w')"
  shows "tc_remote_name c' = tc_remote_name c"
    and "if closed then tc_fd c \<noteq> INVALID_TCP_SOCKET \<and> tc_fd c' = INVALID_TCP_SOCKET \<and> F w' = F w - {#tc_fd c#}
         else tc_fd c' = tc_fd c \<and> F w' = F w"
  using run fd_kernelD(2) [OF k]
  by (auto simp: tc_TryCloseFd_def pc_TryCloseFd_def tc_fd_def tcp_close_def split: if_splits)

lemma tc_Release_owner:
  assumes k: "fd_kernel os F" and T: "map_keeps (map_ptcp T) F" "map_keeps (map_shm T) F"
    and run: "tc_Release os T c w = (c', w')"
  shows "tc_remote_name c' = CHR 0x00 # tl (tc_remote_name c)" and "tc_fd c' = INVALID_TCP_SOCKET"
    and "F w' = (if tc_fd c = INVALID_TCP_SOCKET then F w else F w - {#tc_fd c#})"
proof -
  define w1 where "w1 = (case tc_sendq c of Some q \<Rightarrow> my_munmap (map_shm T) q w | None \<Rightarrow> w)"
  define w2 where "w2 = (case tc_recvq c of Some q \<Rightarrow> my_munmap (map_shm T) q w1 | None \<Rightarrow> w1)"
  have w2: "F w2 = F w" using T(2) by (simp add: w1_def w2_def my_munmap_def map_keeps_def split: option.splits)
  obtain pc where pc: "pc_Release os (map_ptcp T) (tc_ptcp_conn c) w2 = (pc, w')"
    and c': "c' = c\<lparr>tc_remote_name := CHR 0x00 # tl (tc_remote_name c), tc_sendq := None, tc_recvq := None, tc_ptcp_conn := pc\<rparr>"
    using run by (auto simp: tc_Release_def Let_def simp flip: w1_def w2_def split: prod.split_asm)
  show "tc_remote_name c' = CHR 0x00 # tl (tc_remote_name c)" by (simp add: c')
  show "tc_fd c' = INVALID_TCP_SOCKET" and "F w' = (if tc_fd c = INVALID_TCP_SOCKET then F w else F w - {#tc_fd c#})"
    using pc T(1) w2 fd_kernelD(2) [OF k]
    by (auto simp: c' pc_Release_def pc_TryCloseFd_def pc_Close_def tc_fd_def tcp_close_def my_munmap_def map_keeps_def
        split: if_split_asm option.split_asm)
qed

text \<open>The operations an application calls keep the owner's view, so that a callback that only uses them does.\<close>

lemma user_ops_owner:
  shows "tc_Alloc cf sz c = Some (c', p) \<Longrightarrow> same_owner c c'"
    and "tc_PushMore cf c = Some c' \<Longrightarrow> same_owner c c'"
    and "tc_Pop cf c = Some c' \<Longrightarrow> same_owner c c'"
    and "same_owner c (tc_Close c)"
  by (auto simp: tc_Alloc_def tc_PushMore_def tc_Pop_def tc_Close_def pc_Alloc_def pc_PushMore_def pc_Pop_def pc_RequestClose_def
      pc_Close_def same_owner_def tc_fd_def split: Option.bind_split_asm option.split_asm)

lemma tc_Push_owner: "tc_Push os cf c w = Some (c', w') \<Longrightarrow> same_owner c c'"
  by (auto simp: tc_Push_def pc_Push_def pc_PushMore_def same_owner_def tc_fd_def
      split: Option.bind_split_asm option.split_asm
      dest!: pc_SendPending_sends [where F = "\<lambda>_. ()", rotated]) (auto simp: send_keeps_def sends_def steady_def)

end
