(* ===== verification/Server_Inv.thy ===== *)
theory Server_Inv
  imports Tcpshm_Server Conn_Frame
begin

text \<open>
  The invariant of the server. In every group the live connections come first and are exactly those
  that hold a descriptor; the connections that ever had a client come before the unused ones and have
  different client names; and every descriptor the server has opened or accepted is held in exactly
  one place (the listening socket, a new connection, a connection of the pool) until it is closed.

  The callbacks and the kernel are parameters; \<open>env_ok\<close> says what is required of them: callbacks use
  a connection only through its public operations, and the calls that open and close descriptors do
  what they are documented to do.
\<close>

section \<open>Slots of a group\<close>

definition named :: "tcpshm_conn \<Rightarrow> bool" where
  "named c \<longleftrightarrow> tc_remote_name c ! 0 \<noteq> CHR 0x00"

definition slots_ok :: "nat \<Rightarrow> nat \<Rightarrow> tcpshm_conn list \<Rightarrow> bool" where
  "slots_ok n live cs \<longleftrightarrow>
     live \<le> length cs \<and>
     (\<forall>i < length cs. length (tc_remote_name (cs ! i)) = n) \<and>
     (\<forall>i < length cs. tc_fd (cs ! i) \<noteq> INVALID_TCP_SOCKET \<longleftrightarrow> i < live) \<and>
     (\<forall>i < live. named (cs ! i)) \<and>
     (\<forall>i j. i < j \<and> j < length cs \<and> named (cs ! j) \<longrightarrow> named (cs ! i)) \<and>
     (\<forall>i j. i < j \<and> j < length cs \<and> named (cs ! i) \<and> named (cs ! j) \<longrightarrow>
        cstr (tc_remote_name (cs ! i)) \<noteq> cstr (tc_remote_name (cs ! j)))"

lemma slots_okD:
  assumes "slots_ok n live cs"
  shows "live \<le> length cs" and "i < length cs \<Longrightarrow> length (tc_remote_name (cs ! i)) = n"
    and "i < length cs \<Longrightarrow> tc_fd (cs ! i) \<noteq> INVALID_TCP_SOCKET \<longleftrightarrow> i < live"
    and "i < live \<Longrightarrow> named (cs ! i)" and "i < j \<Longrightarrow> j < length cs \<Longrightarrow> named (cs ! j) \<Longrightarrow> named (cs ! i)"
    and "i < j \<Longrightarrow> j < length cs \<Longrightarrow> named (cs ! i) \<Longrightarrow> named (cs ! j) \<Longrightarrow>
        cstr (tc_remote_name (cs ! i)) \<noteq> cstr (tc_remote_name (cs ! j))"
  using assms by (auto simp: slots_ok_def)

lemma same_owner_named: "same_owner c c' \<Longrightarrow> named c' = named c"
  by (simp add: same_owner_def named_def)

lemma slots_ok_update:
  assumes "slots_ok n live cs" and "i < length cs" and "same_owner (cs ! i) c"
  shows "slots_ok n live (cs[i := c])"
proof -
  have "tc_remote_name (cs[i := c] ! j) = tc_remote_name (cs ! j) \<and> tc_fd (cs[i := c] ! j) = tc_fd (cs ! j)" for j
    using assms(2,3) by (cases "j = i") (auto simp: same_owner_def)
  then show ?thesis using assms(1) by (simp add: slots_ok_def named_def)
qed

text \<open>Exchanging two slots: \<open>\<pi>\<close> is the slot whose contents end up in \<open>j\<close>.\<close>

definition swap_list :: "nat \<Rightarrow> nat \<Rightarrow> 'a list \<Rightarrow> 'a list" where
  "swap_list i j xs = xs[i := xs ! j, j := xs ! i]"

lemma nth_swap_list:
  "i < length xs \<Longrightarrow> j < length xs \<Longrightarrow> k < length xs \<Longrightarrow>
   swap_list i j xs ! k = (if k = j then xs ! i else if k = i then xs ! j else xs ! k)"
  by (auto simp: swap_list_def nth_list_update)

lemma length_swap_list [simp]: "length (swap_list i j xs) = length xs"
  by (simp add: swap_list_def)

lemma mset_swap_list: "i < length xs \<Longrightarrow> j < length xs \<Longrightarrow> mset (swap_list i j xs) = mset xs"
  by (simp add: swap_list_def mset_swap)

lemma map_swap_list: "i < length xs \<Longrightarrow> j < length xs \<Longrightarrow> map f (swap_list i j xs) = swap_list i j (map f xs)"
  by (simp add: swap_list_def map_update)

lemma slots_ok_distinct:
  assumes "slots_ok n live cs" and "a \<noteq> b" and "a < length cs" "b < length cs" and "named (cs ! a)" "named (cs ! b)"
  shows "cstr (tc_remote_name (cs ! a)) \<noteq> cstr (tc_remote_name (cs ! b))"
  using slots_okD(6) [OF assms(1), of a b] slots_okD(6) [OF assms(1), of b a] assms(2-) by (cases "a < b") auto

lemma slots_ok_swap:
  assumes S: "slots_ok n live cs" and ij: "i < length cs" "j < length cs" "named (cs ! i)" "named (cs ! j)"
    and c: "tc_remote_name c = tc_remote_name (cs ! i)" and cs': "cs' = swap_list i j (cs[i := c])"
    and live': "live' \<le> length cs" "\<And>k. k < live' \<Longrightarrow> named (cs ! k)"
    and fd: "\<And>k. k < length cs \<Longrightarrow> tc_fd (cs' ! k) \<noteq> INVALID_TCP_SOCKET \<longleftrightarrow> k < live'"
  shows "slots_ok n live' cs'"
proof -
  define p where "p k = (if k = j then i else if k = i then j else k)" for k
  have p: "p k < length cs" "named (cs ! p k) = named (cs ! k)" if "k < length cs" for k
    using that ij by (auto simp: p_def)
  have inj: "p a \<noteq> p b" if "a \<noteq> b" for a b using that by (auto simp: p_def)
  have len: "length cs' = length cs" by (simp add: cs')
  have name: "tc_remote_name (cs' ! k) = tc_remote_name (cs ! p k)" if "k < length cs" for k
    using that ij c by (auto simp: cs' p_def nth_swap_list nth_list_update)
  have named: "named (cs' ! k) = named (cs ! k)" if "k < length cs" for k
    using name [OF that] p(2) [OF that] by (simp add: named_def)
  show ?thesis unfolding slots_ok_def len
  proof (intro conjI allI impI)
    show "live' \<le> length cs" by (rule live')
    show "length (tc_remote_name (cs' ! k)) = n" if "k < length cs" for k
      using slots_okD(2) [OF S p(1) [OF that]] by (simp add: name [OF that])
    show "tc_fd (cs' ! k) \<noteq> INVALID_TCP_SOCKET \<longleftrightarrow> k < live'" if "k < length cs" for k by (rule fd [OF that])
    show "named (cs' ! k)" if "k < live'" for k using live' that by (simp add: named)
    show "named (cs' ! a)" if "a < b \<and> b < length cs \<and> named (cs' ! b)" for a b
      using that slots_okD(5) [OF S, of a b] named [of a] named [of b] by auto
    show "cstr (tc_remote_name (cs' ! a)) \<noteq> cstr (tc_remote_name (cs' ! b))"
      if "a < b \<and> b < length cs \<and> named (cs' ! a) \<and> named (cs' ! b)" for a b
      using slots_ok_distinct [OF S, of "p a" "p b"] that inj [of a b] p [of a] p [of b] named [of a] named [of b]
        name [of a] name [of b] by auto
  qed
qed

text \<open>A live connection is closed and swapped behind the live ones.\<close>

lemma slots_ok_close:
  assumes S: "slots_ok n live cs" and i: "i < live"
    and c: "tc_remote_name c = tc_remote_name (cs ! i)" "tc_fd c = INVALID_TCP_SOCKET"
  shows "slots_ok n (live - 1) (swap_list i (live - 1) (cs[i := c]))"
proof (rule slots_ok_swap [OF S _ _ _ _ c(1) refl])
  define j where "j = live - 1"
  have l: "live \<le> length cs" "i < length cs" "j < length cs" using slots_okD(1) [OF S] i by (auto simp: j_def)
  show "tc_fd (swap_list i (live - 1) (cs[i := c]) ! k) \<noteq> INVALID_TCP_SOCKET \<longleftrightarrow> k < live - 1" if "k < length cs" for k
  proof -
    have "j < live" using i by (simp add: j_def)
    then have "tc_fd (swap_list i j (cs[i := c]) ! k) \<noteq> INVALID_TCP_SOCKET \<longleftrightarrow> k < live \<and> k \<noteq> j"
      using that l i c(2) slots_okD(3) [OF S, of k] slots_okD(3) [OF S, of j] by (auto simp: nth_swap_list nth_list_update)
    then show ?thesis by (auto simp: j_def)
  qed
qed (use slots_okD(1) [OF S] slots_okD(4) [OF S] i in auto)

text \<open>A connection that is not live gets a descriptor and is swapped to the end of the live ones.\<close>

lemma slots_ok_logon:
  assumes S: "slots_ok n live cs" and i: "live \<le> i" "i < length cs" "named (cs ! i)"
    and c: "tc_remote_name c = tc_remote_name (cs ! i)" "tc_fd c \<noteq> INVALID_TCP_SOCKET"
  shows "slots_ok n (Suc live) (swap_list i live (cs[i := c]))"
proof (rule slots_ok_swap [OF S _ _ _ _ c(1) refl])
  show "named (cs ! live)" using slots_okD(5) [OF S, of live i] i by (cases "live = i") auto
  then show "named (cs ! k)" if "k < Suc live" for k using that slots_okD(4) [OF S, of k] by (cases "k = live") auto
  show "tc_fd (swap_list i live (cs[i := c]) ! k) \<noteq> INVALID_TCP_SOCKET \<longleftrightarrow> k < Suc live" if "k < length cs" for k
    using that i c(2) slots_okD(3) [OF S, of k] slots_okD(3) [OF S, of live]
    by (auto simp: nth_swap_list nth_list_update less_Suc_eq)
qed (use i in auto)

text \<open>The first unused slot gets a name that no other slot has.\<close>

lemma slots_ok_name:
  assumes S: "slots_ok n live cs" and i: "i < length cs" "\<not> named (cs ! i)" "\<And>k. k < i \<Longrightarrow> named (cs ! k)"
    and new: "\<And>k. k < i \<Longrightarrow> cstr (tc_remote_name (cs ! k)) \<noteq> cstr nm" and nm: "length nm = n" "nm ! 0 \<noteq> CHR 0x00"
  shows "slots_ok n live (cs[i := (cs ! i)\<lparr>tc_remote_name := nm\<rparr>])"
proof -
  let ?c = "(cs ! i)\<lparr>tc_remote_name := nm\<rparr>"
  have un: "\<not> named (cs ! k)" if "i \<le> k" "k < length cs" for k
    using that i slots_okD(5) [OF S, of i k] by (cases "i = k") auto
  have live: "live \<le> i" using slots_okD(4) [OF S, of i] i by (meson not_le)
  have "named ?c" and fd: "tc_fd ?c = tc_fd (cs ! i)" using nm by (simp_all add: named_def tc_fd_def)
  then have N: "named (cs[i := ?c] ! k) \<longleftrightarrow> k \<le> i" if "k < length cs" for k
    using that un [of k] i by (cases "k < i") (auto simp: nth_list_update)
  show ?thesis unfolding slots_ok_def length_list_update
  proof (intro conjI allI impI)
    show "live \<le> length cs" by (rule slots_okD(1) [OF S])
    show "length (tc_remote_name (cs[i := ?c] ! k)) = n" if "k < length cs" for k
      using that nm slots_okD(2) [OF S that] by (cases "k = i") auto
    show "tc_fd (cs[i := ?c] ! k) \<noteq> INVALID_TCP_SOCKET \<longleftrightarrow> k < live" if "k < length cs" for k
      using slots_okD(3) [OF S that] that fd by (cases "k = i") auto
    show "named (cs[i := ?c] ! k)" if "k < live" for k using N [of k] that live i by simp
    show "named (cs[i := ?c] ! a)" if "a < b \<and> b < length cs \<and> named (cs[i := ?c] ! b)" for a b
      using that N [of a] N [of b] by auto
    show "cstr (tc_remote_name (cs[i := ?c] ! a)) \<noteq> cstr (tc_remote_name (cs[i := ?c] ! b))"
      if "a < b \<and> b < length cs \<and> named (cs[i := ?c] ! a) \<and> named (cs[i := ?c] ! b)" for a b
      using that N [of b] new [of a] i slots_ok_distinct [OF S, of a b] by (cases "b = i") auto
  qed
qed

section \<open>The pool\<close>

definition group_view :: "tcpshm_conn list \<Rightarrow> conn_group \<Rightarrow> tcpshm_conn list" where
  "group_view pool g = map ((!) pool) (cg_conns g)"

definition fds :: "int list \<Rightarrow> int multiset" where
  "fds xs = mset (filter (\<lambda>x. x \<noteq> INVALID_TCP_SOCKET) xs)"

lemma fds_simps [simp]:
  "fds [] = {#}" "fds (x # xs) = (if x = INVALID_TCP_SOCKET then fds xs else add_mset x (fds xs))" "fds (xs @ ys) = fds xs + fds ys"
  by (simp_all add: fds_def)

lemma fds_update: "i < length xs \<Longrightarrow> fds (xs[i := x]) + fds [xs ! i] = fds xs + fds [x]"
proof (induction xs arbitrary: i)
  case (Cons y ys)
  show ?case
  proof (cases i)
    case (Suc j)
    then have "fds (ys[j := x]) + fds [ys ! j] = fds ys + fds [x]" using Cons by auto
    then show ?thesis using Suc by (simp del: fds_simps(2) add: fds_simps(2) [of y])
  qed simp
qed simp

definition pool_inv :: "nat \<Rightarrow> tcpshm_conn list \<Rightarrow> conn_group list \<Rightarrow> bool" where
  "pool_inv n pool gs \<longleftrightarrow>
     distinct (concat (map cg_conns gs)) \<and> set (concat (map cg_conns gs)) = {..<length pool} \<and>
     (\<forall>g \<in> set gs. slots_ok n (cg_live_cnt g) (group_view pool g))"

lemma mset_concat_update:
  "k < length gs \<Longrightarrow> mset (f g) = mset (f (gs ! k)) \<Longrightarrow> mset (concat (map f (gs[k := g]))) = mset (concat (map f gs))"
proof (induction gs arbitrary: k)
  case (Cons x xs)
  then show ?case by (cases k) auto
qed simp

lemma distinct_concat_nth:
  "distinct (concat xss) \<Longrightarrow> a < length xss \<Longrightarrow> b < length xss \<Longrightarrow> a \<noteq> b \<Longrightarrow> set (xss ! a) \<inter> set (xss ! b) = {}"
proof (induction xss arbitrary: a b)
  case (Cons x xs)
  have x: "set x \<inter> set (xs ! k) = {}" if "k < length xs" for k using Cons.prems(1) nth_mem [OF that] by auto
  have IH: "set (xs ! i) \<inter> set (xs ! j) = {}" if "i < length xs" "j < length xs" "i \<noteq> j" for i j
    using Cons.IH [of i j] Cons.prems(1) that by simp
  show ?case using Cons.prems(2-) x [of "a - 1"] x [of "b - 1"] IH [of "a - 1" "b - 1"]
    by (cases a; cases b) (simp_all add: Int_commute)
qed simp

text \<open>Changing one group and one of its connections.\<close>

lemma pool_inv_update:
  assumes P: "pool_inv n pool gs" and k: "k < length gs" and p: "p \<in> set (cg_conns (gs ! k))"
    and perm: "mset (cg_conns g) = mset (cg_conns (gs ! k))"
    and S: "slots_ok n (cg_live_cnt g) (group_view (pool[p := c]) g)"
  shows "pool_inv n (pool[p := c]) (gs[k := g])"
proof -
  have m: "mset (concat (map cg_conns (gs[k := g]))) = mset (concat (map cg_conns gs))"
    by (rule mset_concat_update [OF k perm])
  have D: "distinct (concat (map cg_conns gs))" using P by (simp add: pool_inv_def)
  have "slots_ok n (cg_live_cnt h) (group_view (pool[p := c]) h)" if h: "h \<in> set (gs[k := g])" for h
  proof -
    obtain a where a: "a < length gs" "h = gs[k := g] ! a" using h by (auto simp: in_set_conv_nth)
    show ?thesis
    proof (cases "a = k")
      case True
      then show ?thesis using a S by simp
    next
      case False
      then have h': "h = gs ! a" using a by simp
      have "p \<notin> set (cg_conns h)" using distinct_concat_nth [OF D, of a k] a k False p h' by auto
      then have "group_view (pool[p := c]) h = group_view pool h"
        unfolding group_view_def by (intro map_cong refl nth_list_update_neq) auto
      moreover have "h \<in> set gs" using a h' nth_mem by metis
      ultimately show ?thesis using P by (simp add: pool_inv_def)
    qed
  qed
  moreover have "distinct (concat (map cg_conns (gs[k := g]))) \<and> set (concat (map cg_conns (gs[k := g]))) = {..<length pool}"
    using P mset_eq_imp_distinct_iff [OF m] mset_eq_setD [OF m] by (simp add: pool_inv_def)
  ultimately show ?thesis by (simp add: pool_inv_def)
qed

lemma pool_inv_slot:
  assumes P: "pool_inv n pool gs" and k: "k < length gs" and i: "i < length (cg_conns (gs ! k))"
  shows "slots_ok n (cg_live_cnt (gs ! k)) (group_view pool (gs ! k))" and "cg_conns (gs ! k) ! i < length pool"
    and "distinct (cg_conns (gs ! k))"
    and "group_view (pool[cg_conns (gs ! k) ! i := c]) (gs ! k) = (group_view pool (gs ! k))[i := c]"
proof -
  show "slots_ok n (cg_live_cnt (gs ! k)) (group_view pool (gs ! k))" using P k by (simp add: pool_inv_def)
  have "cg_conns (gs ! k) ! i \<in> set (concat (map cg_conns gs))" using k i by (auto intro!: bexI [of _ "gs ! k"])
  then show "cg_conns (gs ! k) ! i < length pool" using P unfolding pool_inv_def by blast
  moreover show D: "distinct (cg_conns (gs ! k))" using P k by (auto simp: pool_inv_def distinct_concat_iff)
  ultimately show "group_view (pool[cg_conns (gs ! k) ! i := c]) (gs ! k) = (group_view pool (gs ! k))[i := c]"
    using i by (auto simp: group_view_def list_eq_iff_nth_eq nth_list_update nth_eq_iff_index_eq)
qed


section \<open>Descriptors of the pool\<close>

definition pool_ok :: "nat \<Rightarrow> ('w \<Rightarrow> int multiset) \<Rightarrow> int multiset \<Rightarrow> tcpshm_conn list \<Rightarrow> conn_group list \<Rightarrow> 'w \<Rightarrow> bool" where
  "pool_ok n F R pool gs w \<longleftrightarrow> pool_inv n pool gs \<and> F w = R + fds (map tc_fd pool)"

lemma pool_fds_update:
  assumes "p < length pool"
  shows "fds (map tc_fd (pool[p := c])) + fds [tc_fd (pool ! p)] = fds (map tc_fd pool) + fds [tc_fd c]"
  using fds_update [of p "map tc_fd pool" "tc_fd c"] assms by (simp add: map_update)

lemma pool_ok_same:
  assumes P: "pool_ok n F R pool gs w" and k: "k < length gs" "i < length (cg_conns (gs ! k))"
    and p: "p = cg_conns (gs ! k) ! i" and c: "same_owner (pool ! p) c" and w': "F w' = F w"
  shows "pool_ok n F R (pool[p := c]) gs w'"
proof -
  have inv: "pool_inv n pool gs" using P by (simp add: pool_ok_def)
  note slot = pool_inv_slot [OF inv k]
  have nth: "group_view pool (gs ! k) ! i = pool ! p" using k(2) p by (simp add: group_view_def)
  have "slots_ok n (cg_live_cnt (gs ! k)) (group_view (pool[p := c]) (gs ! k))"
    unfolding p slot(4) by (rule slots_ok_update [OF slot(1)]) (use k c nth p in \<open>simp_all add: group_view_def\<close>)
  then have "pool_inv n (pool[p := c]) (gs[k := gs ! k])"
    by (intro pool_inv_update [OF inv k(1)]) (use k p in simp_all)
  moreover have "fds (map tc_fd (pool[p := c])) = fds (map tc_fd pool)"
    using pool_fds_update [of p pool c] slot(2) c by (simp add: same_owner_def p split: if_splits)
  ultimately show ?thesis using P w' by (simp add: pool_ok_def)
qed

lemma group_view_swap:
  "i < length (cg_conns g) \<Longrightarrow> j < length (cg_conns g) \<Longrightarrow>
   group_view pool \<lparr>cg_live_cnt = l, cg_conns = swap_conns i j (cg_conns g)\<rparr> = swap_list i j (group_view pool g)"
  by (simp add: group_view_def swap_conns_def swap_list_def map_update)

lemma pool_ok_close:
  assumes P: "pool_ok n F R pool gs w" and k: "k < length gs" "i < cg_live_cnt (gs ! k)"
    and p: "p = cg_conns (gs ! k) ! i" and c: "tc_remote_name c = tc_remote_name (pool ! p)" "tc_fd c = INVALID_TCP_SOCKET"
    and w': "F w' = F w - {#tc_fd (pool ! p)#}" and live: "live = cg_live_cnt (gs ! k) - 1"
  shows "pool_ok n F R (pool[p := c]) (gs[k := \<lparr>cg_live_cnt = live, cg_conns = swap_conns i live (cg_conns (gs ! k))\<rparr>]) w'"
proof -
  have inv: "pool_inv n pool gs" using P by (simp add: pool_ok_def)
  have S: "slots_ok n (cg_live_cnt (gs ! k)) (group_view pool (gs ! k))" using inv k by (simp add: pool_inv_def)
  have len: "i < length (cg_conns (gs ! k))" "live < length (cg_conns (gs ! k))"
    using slots_okD(1) [OF S] k live by (auto simp: group_view_def)
  note slot = pool_inv_slot [OF inv k(1) len(1)]
  have nth: "group_view pool (gs ! k) ! i = pool ! p" using len(1) p by (simp add: group_view_def)
  let ?g = "\<lparr>cg_live_cnt = live, cg_conns = swap_conns i live (cg_conns (gs ! k))\<rparr>"
  have "slots_ok n live (group_view (pool[p := c]) ?g)"
    unfolding group_view_swap [OF len] p slot(4) unfolding live
    by (rule slots_ok_close [OF S k(2)]) (use c nth p in simp_all)
  then have "pool_inv n (pool[p := c]) (gs[k := ?g])"
    by (intro pool_inv_update [OF inv k(1)])
      (use p len in \<open>simp_all add: swap_conns_def mset_swap\<close>)
  moreover have "tc_fd (pool ! p) \<noteq> INVALID_TCP_SOCKET" using slots_okD(3) [OF S, of i] k len nth by (simp add: group_view_def)
  then have "fds (map tc_fd pool) = add_mset (tc_fd (pool ! p)) (fds (map tc_fd (pool[p := c])))"
    using pool_fds_update [of p pool c] slot(2) c(2) by (simp add: p)
  ultimately show ?thesis using P w' by (simp add: pool_ok_def)
qed

lemma pool_ok_logon:
  assumes P: "pool_ok n F (add_mset fd R) pool gs w" and k: "k < length gs" "i < length (cg_conns (gs ! k))"
    and i: "cg_live_cnt (gs ! k) \<le> i" and p: "p = cg_conns (gs ! k) ! i" "named (pool ! p)"
    and c: "tc_remote_name c = tc_remote_name (pool ! p)" "tc_fd c = fd" "fd \<noteq> INVALID_TCP_SOCKET" and w': "F w' = F w"
  shows "pool_ok n F R (pool[p := c]) (gs[k := \<lparr>cg_live_cnt = Suc (cg_live_cnt (gs ! k)),
           cg_conns = swap_conns i (cg_live_cnt (gs ! k)) (cg_conns (gs ! k))\<rparr>]) w'"
proof -
  have inv: "pool_inv n pool gs" using P by (simp add: pool_ok_def)
  note slot = pool_inv_slot [OF inv k]
  have len: "cg_live_cnt (gs ! k) < length (cg_conns (gs ! k))" using i k by simp
  have nth: "group_view pool (gs ! k) ! i = pool ! p" using k(2) p by (simp add: group_view_def)
  let ?g = "\<lparr>cg_live_cnt = Suc (cg_live_cnt (gs ! k)), cg_conns = swap_conns i (cg_live_cnt (gs ! k)) (cg_conns (gs ! k))\<rparr>"
  have "slots_ok n (Suc (cg_live_cnt (gs ! k))) (group_view (pool[p := c]) ?g)"
    unfolding group_view_swap [OF k(2) len] p(1) slot(4)
    by (rule slots_ok_logon [OF slot(1) i]) (use c p nth k in \<open>simp_all add: group_view_def\<close>)
  then have "pool_inv n (pool[p := c]) (gs[k := ?g])"
    by (intro pool_inv_update [OF inv k(1)]) (use p k len in \<open>simp_all add: swap_conns_def mset_swap\<close>)
  moreover have "tc_fd (pool ! p) = INVALID_TCP_SOCKET" using slots_okD(3) [OF slot(1), of i] k i nth by (simp add: group_view_def)
  then have "fds (map tc_fd (pool[p := c])) = add_mset fd (fds (map tc_fd pool))"
    using pool_fds_update [of p pool c] slot(2) c(2,3) by (simp add: p)
  ultimately show ?thesis using P w' by (simp add: pool_ok_def)
qed

section \<open>What the server relies on\<close>

definition keeps :: "('w \<Rightarrow> 'b) \<Rightarrow> tcpshm_conn \<Rightarrow> 'w \<Rightarrow> tcpshm_conn \<times> 'w \<Rightarrow> bool" where
  "keeps F c w = (\<lambda>(c', w'). same_owner c c' \<and> F w' = F w)"

definition cb_ok :: "'w srv_cb \<Rightarrow> ('w \<Rightarrow> 'b) \<Rightarrow> bool" where
  "cb_ok cb F \<longleftrightarrow>
     (\<forall>m e w. F (srv_OnSystemError cb m e w) = F w) \<and>
     (\<forall>a l r w. F (snd (snd (srv_OnNewConnection cb a l r w))) = F w) \<and>
     (\<forall>m e c w. keeps F c w (srv_OnClientFileError cb m e c w)) \<and>
     (\<forall>ns c w. keeps F c w (srv_OnSeqNumberMismatch cb ns c w)) \<and>
     (\<forall>a c w. keeps F c w (srv_OnClientLogon cb a c w)) \<and>
     (\<forall>m e c w. keeps F c w (srv_OnClientDisconnected cb m e c w)) \<and>
     (\<forall>m c w r. srv_OnClientMsg cb m c w = Some r \<longrightarrow> keeps F c w r)"

definition env_ok :: "'w srv_env \<Rightarrow> ('w \<Rightarrow> int multiset) \<Rightarrow> bool" where
  "env_ok E F \<longleftrightarrow>
     fd_kernel (se_os E) F \<and> map_keeps (map_ptcp (se_maps E)) F \<and> map_keeps (map_shm (se_maps E)) F \<and>
     map_keeps (pm_map (se_probe E)) F \<and> (\<forall>p x w. F (pm_set_token (se_probe E) p x w) = F w) \<and>
     (\<forall>p x w. F (pm_set_ack (se_probe E) p x w) = F w) \<and> (\<forall>w. F (snd (se_clock E w)) = F w) \<and> cb_ok (se_cb E) F"

lemma cb_okD:
  assumes "cb_ok cb F"
  shows "F (srv_OnSystemError cb m e w) = F w" and "srv_OnNewConnection cb a l r w = (g, r', w') \<Longrightarrow> F w' = F w"
    and "srv_OnClientFileError cb m e c w = (c', w') \<Longrightarrow> same_owner c c' \<and> F w' = F w"
    and "srv_OnSeqNumberMismatch cb ns c w = (c', w') \<Longrightarrow> same_owner c c' \<and> F w' = F w"
    and "srv_OnClientLogon cb a c w = (c', w') \<Longrightarrow> same_owner c c' \<and> F w' = F w"
    and "srv_OnClientDisconnected cb m e c w = (c', w') \<Longrightarrow> same_owner c c' \<and> F w' = F w"
    and "srv_OnClientMsg cb ptr c w = Some (c', w') \<Longrightarrow> same_owner c c' \<and> F w' = F w"
proof -
  show "F (srv_OnSystemError cb m e w) = F w" using assms by (simp add: cb_ok_def)
  have "F (snd (snd (srv_OnNewConnection cb a l r w))) = F w" using assms by (simp add: cb_ok_def del: split_paired_All)
  then show "srv_OnNewConnection cb a l r w = (g, r', w') \<Longrightarrow> F w' = F w" by simp
  have K: "keeps F c w (srv_OnClientFileError cb m e c w)" "keeps F c w (srv_OnSeqNumberMismatch cb ns c w)"
    "keeps F c w (srv_OnClientLogon cb a c w)" "keeps F c w (srv_OnClientDisconnected cb m e c w)"
    "srv_OnClientMsg cb ptr c w = Some (c', w') \<Longrightarrow> keeps F c w (c', w')"
    using assms by (simp_all add: cb_ok_def del: split_paired_All)
  show "srv_OnClientFileError cb m e c w = (c', w') \<Longrightarrow> same_owner c c' \<and> F w' = F w"
    "srv_OnSeqNumberMismatch cb ns c w = (c', w') \<Longrightarrow> same_owner c c' \<and> F w' = F w"
    "srv_OnClientLogon cb a c w = (c', w') \<Longrightarrow> same_owner c c' \<and> F w' = F w"
    "srv_OnClientDisconnected cb m e c w = (c', w') \<Longrightarrow> same_owner c c' \<and> F w' = F w"
    "srv_OnClientMsg cb ptr c w = Some (c', w') \<Longrightarrow> same_owner c c' \<and> F w' = F w"
    using K by (simp_all add: keeps_def)
qed

lemma same_owner_trans: "same_owner a b \<Longrightarrow> same_owner b c \<Longrightarrow> same_owner a c"
  by (simp add: same_owner_def)

lemma same_owner_refl [simp]: "same_owner a a"
  by (simp add: same_owner_def)

section \<open>The scan of a group\<close>

text \<open>The heartbeat poll of a live connection.\<close>

lemma ctl_poll_owner:
  assumes E: "env_ok E F"
    and run: "(if hb then do { (_, c, w') \<leftarrow> tc_TcpFront (se_os E) cf now c0 w; Some (c, w') } else Some (c0, w)) = Some (c1, w1)"
  shows "same_owner c0 c1 \<and> F w1 = F w"
proof -
  have io: "io_keeps (se_os E) F" using E by (simp add: env_ok_def fd_kernel_def)
  show ?thesis using run by (auto split: if_split_asm Option.bind_split_asm dest: tc_TcpFront_owner [OF io])
qed

lemma ctl_scan_ok:
  assumes E: "env_ok E F"
  shows "ctl_scan E cf hb now i g pool w = Some (g', pool', w') \<Longrightarrow> pool_ok n F R pool gs w \<Longrightarrow> k < length gs \<Longrightarrow>
    gs ! k = g \<Longrightarrow> pool_ok n F R pool' (gs[k := g']) w'"
proof (induction "cg_live_cnt g - i" arbitrary: i g pool w gs rule: less_induct)
  case less
  note run = less.prems(1) and P = less.prems(2) and k = less.prems(3) and g = less.prems(4)
  show ?case
  proof (cases "i < cg_live_cnt g")
    case False
    then show ?thesis using run P k g by (auto simp: ctl_scan.simps [of _ _ _ _ i])
  next
    case live: True
    define p where "p = cg_conns (gs ! k) ! i"
    have p': "cg_conns g ! i = p" using g by (simp add: p_def)
    have S: "slots_ok n (cg_live_cnt g) (group_view pool g)" using P k g by (auto simp: pool_ok_def pool_inv_def)
    have len: "i < length (cg_conns (gs ! k))" using slots_okD(1) [OF S] live g by (simp add: group_view_def)
    obtain c1 w1 where poll: "(if hb then do { (_, c, w') \<leftarrow> tc_TcpFront (se_os E) cf now (pool ! p) w; Some (c, w') }
        else Some (pool ! p, w)) = Some (c1, w1)"
      using run live by (auto simp: ctl_scan.simps [of _ _ _ _ i] p' Let_def split: if_split_asm Option.bind_split_asm)
    note own1 = ctl_poll_owner [OF E poll]
    obtain closed c2 w2 where tc: "tc_TryCloseFd (se_os E) c1 w1 = (closed, c2, w2)" by (metis surj_pair)
    note own2 = tc_TryCloseFd_owner [OF _ tc, of F]
    have K: "fd_kernel (se_os E) F" "cb_ok (se_cb E) F" using E by (simp_all add: env_ok_def)
    show ?thesis
    proof (cases closed)
      case False
      have rest: "ctl_scan E cf hb now (Suc i) g (pool[p := c2]) w2 = Some (g', pool', w')"
        using run live False by (simp add: ctl_scan.simps [of _ _ _ _ i] p' poll tc)
      have c2: "same_owner (pool ! p) c2" "F w2 = F w"
        using own1 own2 [OF K(1)] False by (auto simp: same_owner_def)
      show ?thesis
        by (rule less.hyps [OF _ rest pool_ok_same [OF P k len p_def c2] k g]) (use live in simp)
    next
      case True
      obtain reason err where reason: "tc_GetCloseReason c2 = (reason, err)" by fastforce
      obtain c3 w3 where disc: "srv_OnClientDisconnected (se_cb E) reason err c2 w2 = (c3, w3)" by fastforce
      note own3 = cb_okD(6) [OF K(2) disc]
      define l where "l = cg_live_cnt (gs ! k) - 1"
      let ?g = "\<lparr>cg_live_cnt = l, cg_conns = swap_conns i l (cg_conns (gs ! k))\<rparr>"
      have rest: "ctl_scan E cf hb now i ?g (pool[p := c3]) w3 = Some (g', pool', w')"
        using run live True by (simp add: ctl_scan.simps [of _ _ _ _ i g] p' poll tc reason disc g Let_def l_def)
      have c3: "tc_remote_name c3 = tc_remote_name (pool ! p)" "tc_fd c3 = INVALID_TCP_SOCKET" "F w3 = F w - {#tc_fd (pool ! p)#}"
        using own1 own2 [OF K(1)] own3 True by (auto simp: same_owner_def)
      have P': "pool_ok n F R (pool[p := c3]) (gs[k := ?g]) w3"
        by (rule pool_ok_close [OF P k _ p_def c3 l_def]) (use live g in simp)
      have "pool_ok n F R pool' (gs[k := ?g, k := g']) w'"
        by (rule less.hyps [OF _ rest P']) (use live g k in \<open>auto simp: l_def\<close>)
      then show ?thesis by simp
    qed
  qed
qed

lemma ctl_grps_ok:
  assumes E: "env_ok E F"
  shows "ctl_grps E cf hb now gs pool w = Some (gs', pool', w') \<Longrightarrow> pool_ok n F R pool (pre @ gs @ post) w \<Longrightarrow>
    pool_ok n F R pool' (pre @ gs' @ post) w'"
proof (induction gs arbitrary: pre pool w gs')
  case (Cons g gs)
  obtain g1 pool1 w1 gs1 where s: "ctl_scan E cf hb now 0 g pool w = Some (g1, pool1, w1)"
    and r: "ctl_grps E cf hb now gs pool1 w1 = Some (gs1, pool', w')" and gs': "gs' = g1 # gs1"
    using Cons.prems(1) by (auto split: Option.bind_split_asm)
  have "pool_ok n F R pool1 ((pre @ (g # gs) @ post)[length pre := g1]) w1"
    by (rule ctl_scan_ok [OF E s Cons.prems(2)]) simp_all
  then have "pool_ok n F R pool1 ((pre @ [g1]) @ gs @ post) w1" by (simp add: list_update_append)
  from Cons.IH [OF r this] show ?case by (simp add: gs')
qed simp

lemma ctl_grps_shape:
  "ctl_grps E cf hb now gs pool w = Some (gs', pool', w') \<Longrightarrow> length gs' = length gs"
  by (induction gs arbitrary: gs' pool w) (auto split: Option.bind_split_asm)

lemma poll_conns_ok:
  assumes front: "\<And>c w p c' w'. front c w = Some (p, c', w') \<Longrightarrow> same_owner c c' \<and> F w' = F w"
    and msg: "\<And>m c w c' w'. on_msg m c w = Some (c', w') \<Longrightarrow> same_owner c c' \<and> F w' = F w"
    and k: "k < length gs"
  shows "poll_conns front on_msg ps pool w = Some (pool', w') \<Longrightarrow> set ps \<subseteq> set (cg_conns (gs ! k)) \<Longrightarrow>
    pool_ok n F R pool gs w \<Longrightarrow> pool_ok n F R pool' gs w'"
proof (induction ps arbitrary: pool w)
  case (Cons p ps)
  obtain head c1 w1 c2 w2 where f: "front (pool ! p) w = Some (head, c1, w1)"
    and m: "(case head of None \<Rightarrow> Some (c1, w1) | Some m \<Rightarrow> on_msg m c1 w1) = Some (c2, w2)"
    and rest: "poll_conns front on_msg ps (pool[p := c2]) w2 = Some (pool', w')"
    using Cons.prems(1) by (auto split: Option.bind_split_asm)
  have c2: "same_owner (pool ! p) c2 \<and> F w2 = F w"
    using front [OF f] m by (auto simp: same_owner_def split: option.split_asm dest!: msg)
  obtain i where i: "i < length (cg_conns (gs ! k))" "p = cg_conns (gs ! k) ! i"
    using Cons.prems(2) by (auto simp: in_set_conv_nth)
  have "pool_ok n F R (pool[p := c2]) gs w2" by (rule pool_ok_same [OF Cons.prems(3) k i]) (use c2 in simp_all)
  from Cons.IH [OF rest _ this] Cons.prems(2) show ?case by simp
qed simp

section \<open>The search for a connection\<close>

text \<open>A client name as \<open>HandleLogin\<close> passes it on: an array of \<open>n\<close> characters, not empty, terminated.\<close>

definition client_name_ok :: "nat \<Rightarrow> string \<Rightarrow> bool" where
  "client_name_ok n nm \<longleftrightarrow> length nm = n \<and> 0 < n \<and> nm ! 0 \<noteq> CHR 0x00"

lemma strneq_full: "length a = n \<Longrightarrow> length b = n \<Longrightarrow> strneq a b n \<longleftrightarrow> cstr a = cstr b"
  by (simp add: strneq_def)

lemma length_cstr_le: "length (cstr s) \<le> length s"
  by (simp add: cstr_def length_takeWhile_le)

lemma strncpy_name:
  assumes "client_name_ok n nm" and "length old = n"
  shows "length (strncpy old nm n) = n" and "cstr (strncpy old nm n) = cstr nm" and "strncpy old nm n ! 0 \<noteq> CHR 0x00"
proof -
  show len: "length (strncpy old nm n) = n" using assms(2) by simp
  show c: "cstr (strncpy old nm n) = cstr nm"
    using assms length_cstr_le [of nm] by (simp add: cstr_strncpy client_name_ok_def)
  have "cstr nm \<noteq> []" using assms(1) cstr_empty_iff [of nm] by (auto simp: client_name_ok_def)
  then show "strncpy old nm n ! 0 \<noteq> CHR 0x00"
    using cstr_empty_iff [of "strncpy old nm n"] len c assms(1) by (auto simp: client_name_ok_def)
qed

definition passed_over :: "string \<Rightarrow> tcpshm_conn \<Rightarrow> bool" where
  "passed_over nm c \<longleftrightarrow> named c \<and> cstr (tc_remote_name c) \<noteq> cstr nm"

lemma find_conn_cases:
  assumes nm: "client_name_ok n nm"
  shows "(\<forall>p \<in> set ps. length (tc_remote_name (pool ! p)) = n) \<Longrightarrow>
    (find_conn n nm ps i pool = (None, pool) \<and> (\<forall>p \<in> set ps. passed_over nm (pool ! p))) \<or>
    (\<exists>j < length ps. (\<forall>l < j. passed_over nm (pool ! (ps ! l))) \<and>
       (if named (pool ! (ps ! j)) then cstr (tc_remote_name (pool ! (ps ! j))) = cstr nm \<and> find_conn n nm ps i pool = (Some (i + j), pool)
        else find_conn n nm ps i pool = (Some (i + j), pool[ps ! j := (pool ! (ps ! j))\<lparr>tc_remote_name :=
               strncpy (tc_remote_name (pool ! (ps ! j))) nm n\<rparr>])))"
proof (induction ps arbitrary: i)
  case (Cons p ps)
  let ?c = "pool ! p"
  have len: "length (tc_remote_name ?c) = n" and nm': "length nm = n" using Cons.prems nm by (auto simp: client_name_ok_def)
  consider "passed_over nm ?c" | "named ?c" "cstr (tc_remote_name ?c) = cstr nm" | "\<not> named ?c" by (auto simp: passed_over_def)
  then show ?case
  proof cases
    case 1
    then have step: "find_conn n nm (p # ps) i pool = find_conn n nm ps (Suc i) pool"
      using len nm' by (simp add: passed_over_def named_def Let_def strneq_full)
    from Cons.IH [of "Suc i"] Cons.prems consider "find_conn n nm ps (Suc i) pool = (None, pool) \<and> (\<forall>p \<in> set ps. passed_over nm (pool ! p))"
      | j where "j < length ps" "\<forall>l < j. passed_over nm (pool ! (ps ! l))"
        "if named (pool ! (ps ! j)) then cstr (tc_remote_name (pool ! (ps ! j))) = cstr nm \<and> find_conn n nm ps (Suc i) pool = (Some (Suc i + j), pool)
        else find_conn n nm ps (Suc i) pool = (Some (Suc i + j), pool[ps ! j := (pool ! (ps ! j))\<lparr>tc_remote_name :=
               strncpy (tc_remote_name (pool ! (ps ! j))) nm n\<rparr>])" by auto
    then show ?thesis
    proof cases
      case 1
      then show ?thesis using step \<open>passed_over nm ?c\<close> by simp
    next
      case (2 j)
      have "\<forall>l < Suc j. passed_over nm (pool ! ((p # ps) ! l))" using 2(2) \<open>passed_over nm ?c\<close> by (auto simp: less_Suc_eq_0_disj)
      then show ?thesis using 2(1,3) by (intro disjI2 exI [of _ "Suc j"]) (simp only: step, simp)
    qed
  next
    case 2
    then show ?thesis using len nm' by (intro disjI2 exI [of _ 0]) (simp add: named_def Let_def strneq_full)
  next
    case 3
    then show ?thesis using len nm' strncpy_name [OF nm len] by (intro disjI2 exI [of _ 0]) (simp add: named_def Let_def strneq_full)
  qed
qed simp

lemma pool_fds_same:
  assumes "p < length pool" and "tc_fd c = tc_fd (pool ! p)"
  shows "fds (map tc_fd (pool[p := c])) = fds (map tc_fd pool)"
  using list_update_id [of "map tc_fd pool" p] assms by (simp add: map_update)

lemma find_conn_ok:
  assumes nm: "client_name_ok n nm" and P: "pool_ok n F R pool gs w" and k: "k < length gs"
    and run: "find_conn n nm (cg_conns (gs ! k)) 0 pool = (found, pool')"
  shows "pool_ok n F R pool' gs w" and "length pool' = length pool"
    and "found = Some i \<Longrightarrow> i < length (cg_conns (gs ! k)) \<and> named (pool' ! (cg_conns (gs ! k) ! i)) \<and>
           cstr (tc_remote_name (pool' ! (cg_conns (gs ! k) ! i))) = cstr nm"
proof -
  let ?ps = "cg_conns (gs ! k)" and ?view = "group_view pool (gs ! k)"
  have inv: "pool_inv n pool gs" using P by (simp add: pool_ok_def)
  have S: "slots_ok n (cg_live_cnt (gs ! k)) ?view" using inv k by (simp add: pool_inv_def)
  have nth: "?view ! j = pool ! (?ps ! j)" if "j < length ?ps" for j using that by (simp add: group_view_def)
  have "\<forall>p \<in> set ?ps. length (tc_remote_name (pool ! p)) = n"
    using slots_okD(2) [OF S] by (auto simp: in_set_conv_nth group_view_def)
  from find_conn_cases [OF nm this, of 0] run consider "found = None" "pool' = pool"
    | j where "j < length ?ps" "found = Some j" "named (pool ! (?ps ! j))" "cstr (tc_remote_name (pool ! (?ps ! j))) = cstr nm" "pool' = pool"
    | j where "j < length ?ps" "\<forall>l < j. passed_over nm (pool ! (?ps ! l))" "found = Some j" "\<not> named (pool ! (?ps ! j))"
        "pool' = pool[?ps ! j := (pool ! (?ps ! j))\<lparr>tc_remote_name := strncpy (tc_remote_name (pool ! (?ps ! j))) nm n\<rparr>]"
    by (auto split: if_split_asm)
  then have "pool_ok n F R pool' gs w \<and> length pool' = length pool \<and> (\<forall>i. found = Some i \<longrightarrow>
      i < length ?ps \<and> named (pool' ! (?ps ! i)) \<and> cstr (tc_remote_name (pool' ! (?ps ! i))) = cstr nm)"
  proof cases
    case (3 j)
    note slot = pool_inv_slot [OF inv k 3(1)]
    let ?nm = "strncpy (tc_remote_name (pool ! (?ps ! j))) nm n"
    have "length (tc_remote_name (pool ! (?ps ! j))) = n" using slots_okD(2) [OF S, of j] 3(1) by (simp add: group_view_def)
    note new = strncpy_name [OF nm this]
    have "slots_ok n (cg_live_cnt (gs ! k)) (?view[j := (?view ! j)\<lparr>tc_remote_name := ?nm\<rparr>])"
      by (rule slots_ok_name [OF S]) (use 3 nth new in \<open>auto simp: group_view_def passed_over_def\<close>)
    then have "slots_ok n (cg_live_cnt (gs ! k)) (group_view pool' (gs ! k))"
      unfolding 3(5) slot(4) by (simp add: nth [OF 3(1)])
    then have "pool_inv n pool' (gs[k := gs ! k])" unfolding 3(5)
      by (intro pool_inv_update [OF inv k]) (use 3(1) in auto)
    moreover have "fds (map tc_fd pool') = fds (map tc_fd pool)"
      unfolding 3(5) by (rule pool_fds_same [OF slot(2)]) (simp add: tc_fd_def)
    ultimately have "pool_ok n F R pool' gs w" using P by (simp add: pool_ok_def)
    then show ?thesis using 3 slot(2) new by (simp add: named_def)
  qed (use P in auto)
  then show "pool_ok n F R pool' gs w" and "length pool' = length pool"
    and "found = Some i \<Longrightarrow> i < length ?ps \<and> named (pool' ! (?ps ! i)) \<and> cstr (tc_remote_name (pool' ! (?ps ! i))) = cstr nm"
    by blast+
qed


section \<open>Calls that leave descriptors alone\<close>

lemma tcp_send_all_keeps_on:
  assumes "send_keeps os s F" and "tcp_send_all os s buf w = (ok, err, w')"
  shows "F w' = F w"
proof -
  have "send_keeps os s F \<Longrightarrow> F (snd (snd (tcp_send_loop os s buf n w))) = F w" for n
    by (induction os s buf n w rule: tcp_send_loop.induct)
      (subst tcp_send_loop.simps, auto simp: tcp_send_def split: prod.split dest: send_keepsD)
  from this [OF assms(1), of 0] show ?thesis using assms(2) by (simp add: tcp_send_all_def)
qed

lemma tcp_send_all_keeps: "io_keeps os F \<Longrightarrow> tcp_send_all os s buf w = (ok, err, w') \<Longrightarrow> F w' = F w"
  using tcp_send_all_keeps_on by (metis io_keeps_def)

lemma tcp_recv_all_keeps_on:
  assumes "recv_keeps os s F" and "tcp_recv_all os s len buf w = Some (ok, err, buf', w')"
  shows "F w' = F w"
proof -
  have "recv_keeps os s F \<Longrightarrow> tcp_recv_loop os s len n buf w = Some (ok, err, buf', w') \<Longrightarrow> F w' = F w" for n
  proof (induction os s len n buf w rule: tcp_recv_loop.induct)
    case (1 os s len n buf w)
    show ?case
    proof (cases "n < len")
      case False
      then show ?thesis using "1.prems"(2) by (subst (asm) tcp_recv_loop.simps) simp
    next
      case True
      then obtain ret b w1 where one: "tcp_recv os s n (len - n) buf w = Some (ret, b, w1)"
        and rest: "ret \<le> 0 \<and> w' = w1 \<or> \<not> ret \<le> 0 \<and> tcp_recv_loop os s len (n + nat ret) b w1 = Some (ok, err, buf', w')"
        using "1.prems"(2) by (subst (asm) tcp_recv_loop.simps) (auto split: option.split_asm if_split_asm)
      have "F w1 = F w" using one "1.prems"(1) by (auto simp: tcp_recv_def split: prod.split_asm if_split_asm dest: recv_keepsD)
      then show ?thesis using rest "1.IH" [OF True one refl refl _ "1.prems"(1)] by auto
    qed
  qed
  from this [OF assms(1), of 0] show ?thesis using assms(2) by (simp add: tcp_recv_all_def)
qed

lemma tcp_recv_all_keeps: "io_keeps os F \<Longrightarrow> tcp_recv_all os s len buf w = Some (ok, err, buf', w') \<Longrightarrow> F w' = F w"
  using tcp_recv_all_keeps_on by (metis io_keeps_def)

lemma tcp_recv_keeps: "io_keeps os F \<Longrightarrow> tcp_recv os s off len buf w = Some (ret, buf', w') \<Longrightarrow> F w' = F w"
  by (auto simp: tcp_recv_def split: prod.split_asm if_split_asm dest: io_keepsD)

lemma SendLoginRsp_keeps: "io_keeps os F \<Longrightarrow> F (snd (SendLoginRsp os cf fd h r w)) = F w"
  by (auto simp: SendLoginRsp_def Let_def split: prod.split dest: tcp_send_all_keeps)

lemma set_blocking_keeps: "fd_kernel os F \<Longrightarrow> F (snd (tcp_set_blocking os fd w)) = F w"
  by (auto simp: tcp_set_blocking_def split: prod.split) (metis fd_kernel_quiet(8,9) snd_conv)+

lemma set_timeout_keeps: "fd_kernel os F \<Longrightarrow> F (snd (tcp_set_timeout os fd opt ms w)) = F w"
  by (simp add: tcp_set_timeout_def fd_kernel_quiet)

lemma VerifyShmProbe_keeps:
  assumes E: "env_ok E F" and run: "VerifyShmProbe E cf sname fd cname w = Some (ok, w')"
  shows "F w' = F w"
proof -
  let ?os = "se_os E" and ?P = "se_probe E"
  have k: "fd_kernel ?os F" and io: "io_keeps ?os F" and T: "map_keeps (pm_map ?P) F"
    and set: "F (pm_set_token ?P p x v) = F v" "F (pm_set_ack ?P p x v) = F v" and clock: "F (snd (se_clock E v)) = F v" for p x v
    using E by (auto simp: env_ok_def fd_kernel_def)
  define w3 where "w3 = snd (tcp_set_timeout ?os fd SO_SNDTIMEO 3000
    (snd (tcp_set_timeout ?os fd SO_RCVTIMEO 3000 (snd (tcp_set_blocking ?os fd w)))))"
  have w3: "F w3 = F w" by (simp add: w3_def set_timeout_keeps [OF k] set_blocking_keeps [OF k])
  obtain token w4 where tok: "MakeShmProbeToken E cname w3 = (token, w4)" by fastforce
  have w4: "F w4 = F w" using tok clock [of w3] w3 by (auto simp: MakeShmProbeToken_def Let_def split: prod.split_asm)
  define name where "name = probe_name sname cname token"
  obtain r w5 where map: "my_mmap ?os (pm_map ?P) name True w4 = (r, w5)" by fastforce
  have w5: "F w5 = F w" using my_mmap_fds [OF k T map] w4 by simp
  show ?thesis
  proof (cases r)
    case (Inr e)
    then show ?thesis using run tok map w5 by (simp add: VerifyShmProbe_def Let_def w3_def name_def)
  next
    case (Inl probe)
    define w6 where "w6 = pm_set_ack ?P probe 0 (pm_set_token ?P probe token w5)"
    obtain sent w7 where send: "SendShmProbeReq ?os cf fd name token w6 = (sent, w7)" by fastforce
    have w7: "F w7 = F w" using send w5 set by (auto simp: SendShmProbeReq_def w6_def split: prod.split_asm dest!: tcp_send_all_keeps [OF io])
    obtain ok8 w8 where rcv: "(if sent then RecvAndCheckShmProbeRsp ?os ?P cf fd token probe w7 else Some (False, w7)) = Some (ok8, w8)"
      and w': "w' = snd (my_shm_unlink ?os name (my_munmap (pm_map ?P) probe w8))"
      using run tok map Inl send by (auto simp: VerifyShmProbe_def Let_def w3_def name_def w6_def split: Option.bind_split_asm)
    have "F w8 = F w7" using rcv
      by (auto simp: RecvAndCheckShmProbeRsp_def Let_def split: if_split_asm Option.bind_split_asm dest!: tcp_recv_all_keeps [OF io])
    then show ?thesis using w7 T fd_kernel_quiet(2) [OF k] by (simp add: w' my_shm_unlink_def my_munmap_def map_keeps_def)
  qed
qed


section \<open>Login\<close>

definition all_grps :: "server \<Rightarrow> conn_group list" where
  "all_grps sv = sv_shm_grps sv @ sv_tcp_grps sv"

definition grp_index :: "bool \<Rightarrow> nat \<Rightarrow> server \<Rightarrow> nat" where
  "grp_index shm g sv = (if shm then g else length (sv_shm_grps sv) + g)"

lemma all_grps_index:
  assumes "g < length (sv_grps shm sv)"
  shows "grp_index shm g sv < length (all_grps sv)" and "all_grps sv ! grp_index shm g sv = sv_grps shm sv ! g"
    and "all_grps (sv_set_grps shm ((sv_grps shm sv)[g := x]) sv) = (all_grps sv)[grp_index shm g sv := x]"
  using assms by (auto simp: all_grps_def grp_index_def sv_grps_def sv_set_grps_def nth_append list_update_append)

lemma all_grps_pool [simp]:
  "all_grps (sv\<lparr>sv_conn_pool := pool\<rparr>) = all_grps sv" "sv_grps shm (sv\<lparr>sv_conn_pool := pool\<rparr>) = sv_grps shm sv"
  "all_grps (sv_set_conn p c sv) = all_grps sv" "sv_conn_pool (sv_set_grps shm gs sv) = sv_conn_pool sv"
  "sv_conn_pool (sv_set_conn p c sv) = (sv_conn_pool sv)[p := c]"
  by (simp_all add: all_grps_def sv_grps_def sv_set_conn_def sv_set_grps_def)

text \<open>What a login leaves alone besides connections and groups.\<close>

definition srv_frame :: "server \<Rightarrow> server \<Rightarrow> bool" where
  "srv_frame sv sv' \<longleftrightarrow> sv_server_name sv' = sv_server_name sv \<and> sv_listenfd sv' = sv_listenfd sv \<and>
     sv_new_conns sv' = sv_new_conns sv \<and> sv_avail_idx sv' = sv_avail_idx sv \<and>
     length (sv_shm_grps sv') = length (sv_shm_grps sv) \<and> length (sv_tcp_grps sv') = length (sv_tcp_grps sv)"

lemma srv_frame_simps [simp]:
  "srv_frame sv sv" "srv_frame sv (sv\<lparr>sv_conn_pool := pool\<rparr>)" "srv_frame sv (sv_set_conn p c sv)"
  "srv_frame sv (sv_set_conn p c (sv_set_grps shm ((sv_grps shm sv)[g := x]) sv))"
  by (simp_all add: srv_frame_def sv_set_conn_def sv_set_grps_def sv_grps_def)

text \<open>
  The outcome of handling a login on a new connection \<open>conn\<close>: its descriptor is still there or has
  moved to a connection of the pool.
\<close>

definition login_post :: "nat \<Rightarrow> ('w \<Rightarrow> int multiset) \<Rightarrow> int multiset \<Rightarrow> new_conn \<Rightarrow> server \<Rightarrow> new_conn \<times> server \<times> 'w \<Rightarrow> bool" where
  "login_post n F R conn sv = (\<lambda>(conn', sv', w').
     pool_ok n F (R + fds [nc_fd conn']) (sv_conn_pool sv') (all_grps sv') w' \<and>
     (nc_fd conn' = nc_fd conn \<or> nc_fd conn' = INVALID_TCP_SOCKET) \<and>
     length (nc_recvbuf conn') = length (nc_recvbuf conn) \<and> srv_frame sv sv')"

lemma length_login_bytes_le: "length (login_bytes hl (login_of_bytes cf hl' bs)) \<le> sizeof_LoginMsg cf"
  by (simp add: login_bytes_def login_of_bytes_def Let_def sizeof_LoginMsg_def bytes_chars_def blocks_def)

lemma length_login_bytes_update:
  "length (login_bytes hl (m\<lparr>lm_client_name := (lm_client_name m)[i := ch]\<rparr>)) = length (login_bytes hl m)"
  "length (login_bytes hl (lm_ConvertByteOrder wl hl m)) = length (login_bytes wl m)"
  by (simp_all add: login_bytes_convert) (simp add: login_bytes_def)

lemma length_store_login:
  "8 + length (login_bytes hl m) \<le> length buf \<Longrightarrow> length (store_login hl h m buf) = length buf"
  by (simp add: store_login_def Let_def)

lemma login_seqs_owner:
  "login_seqs cf sname h login c = Some (ok, c', l, r) \<Longrightarrow> same_owner c c'"
  by (auto simp: login_seqs_def split: if_split_asm Option.bind_split_asm dest: tc_Reset_owner)

lemma login_conn_ok:
  assumes E: "env_ok E F" and P: "pool_ok n F (add_mset (nc_fd conn) R) (sv_conn_pool sv) (all_grps sv) w"
    and fd: "nc_fd conn \<noteq> INVALID_TCP_SOCKET" and g: "grpid < length (sv_grps shm sv)"
    and i: "i < length (cg_conns (sv_grps shm sv ! grpid))" "cg_live_cnt (sv_grps shm sv ! grpid) \<le> i"
    and named: "named (sv_conn_pool sv ! (cg_conns (sv_grps shm sv ! grpid) ! i))"
    and run: "login_conn E cf now shm grpid i h login rsp conn sv w = Some r"
  shows "login_post n F R conn sv r"
proof -
  let ?os = "se_os E" and ?cb = "se_cb E"
  define k where "k = grp_index shm grpid sv"
  define grp where "grp = sv_grps shm sv ! grpid"
  define p where "p = cg_conns grp ! i"
  define c0 where "c0 = sv_conn_pool sv ! p"
  have K: "fd_kernel ?os F" "io_keeps ?os F" "map_keeps (map_ptcp (se_maps E)) F" "map_keeps (map_shm (se_maps E)) F" "cb_ok ?cb F"
    using E by (simp_all add: env_ok_def fd_kernel_def)
  note G = all_grps_index [OF g, folded k_def]
  have len: "i < length (cg_conns (all_grps sv ! k))" and p: "p = cg_conns (all_grps sv ! k) ! i"
    using i G(2) by (simp_all add: grp_def p_def)
  have undo: "login_post n F R conn sv (conn, sv_set_conn p c sv, w')" if "same_owner c0 c" "F w' = F w" for c w'
    using pool_ok_same [OF P G(1) len p, of c w'] that fd by (simp add: login_post_def sv_set_conn_def all_grps_def c0_def)
  have snd_F: "F (snd (SendLoginRsp ?os cf (nc_fd conn) hd r v)) = F v" for hd r v by (rule SendLoginRsp_keeps [OF K(2)])
  have respond: "login_post n F R conn sv (conn, sv_set_conn p c sv, snd (SendLoginRsp ?os cf (nc_fd conn) hd r v))"
    if "same_owner c0 c1" "same_owner c1 c" "F v = F w" for c c1 hd r v
    by (rule undo) (use that snd_F same_owner_trans in auto)
  obtain res c1 w1 where o: "tc_OpenFile ?os (se_maps E) (lm_use_shm login \<noteq> 0) c0 w = (res, c1, w1)" by (metis surj_pair)
  have own1: "same_owner c0 c1" "F w1 = F w" using tc_OpenFile_owner [OF K(1,3,4) o] by simp_all
  note run' = run [unfolded login_conn_def Let_def, folded grp_def, folded p_def, folded c0_def, unfolded o prod.case]
  show ?thesis
  proof (cases res)
    case (Inr e)
    obtain c2 w2 where cb: "srv_OnClientFileError ?cb e (tcp_get_last_error ?os w1) c1 w1 = (c2, w2)" by fastforce
    then show ?thesis using run' Inr cb_okD(3) [OF K(5) cb] own1 by (auto intro!: respond [of c1])
  next
    case (Inl u)
    obtain ok c2 la ls le ra rs re where sq: "login_seqs cf (sv_server_name sv) h login c1 = Some (ok, c2, (la, ls, le), (ra, rs, re))"
      using run' Inl by (auto split: Option.bind_split_asm)
    have own2: "same_owner c0 c2" using login_seqs_owner [OF sq] own1 by (auto intro: same_owner_trans)
    let ?hdr = "(login_hdr cf)\<lparr>hdr_ack_seq := la\<rparr>" and ?rsp = "rsp\<lparr>lr_server_seq_start := ls, lr_server_seq_end := le\<rparr>"
    consider "\<not> ok" | "ok" "\<not> CheckAckInQueue ra ls le \<or> \<not> CheckAckInQueue la rs re"
      | "ok" "CheckAckInQueue ra ls le" "CheckAckInQueue la rs re" by blast
    then show ?thesis
    proof cases
      case 1
      obtain c3 w3 where cb: "srv_OnClientFileError ?cb ''Ptcp file corrupt'' 0 c2 w1 = (c3, w3)" by fastforce
      then show ?thesis using run' Inl sq 1 cb_okD(3) [OF K(5) cb] own1 own2 by (auto intro!: respond [of c2])
    next
      case 2
      obtain c3 w3 where cb: "srv_OnSeqNumberMismatch ?cb [la, ls, le, ra, rs, re] c2 w1 = (c3, w3)" by fastforce
      then show ?thesis using run' Inl sq 2 cb_okD(4) [OF K(5) cb] own1 own2 by (auto intro!: respond [of c2])
    next
      case 3
      obtain sent w2 where s: "SendLoginRsp ?os cf (nc_fd conn) ?hdr (?rsp\<lparr>lr_status := 0\<rparr>) w1 = (sent, w2)" by fastforce
      have w2: "F w2 = F w" using snd_F [of ?hdr "?rsp\<lparr>lr_status := 0\<rparr>" w1] s own1 by simp
      show ?thesis
      proof (cases sent)
        case False
        then show ?thesis using run' Inl sq 3 s undo [of c2 w2] own2 w2 by simp
      next
        case True
        obtain c3 w3 where o3: "tc_Open ?os cf (nc_fd conn) ra now c2 (snd (tcp_set_nonblocking ?os (nc_fd conn) w2)) = Some (c3, w3)"
          using run' Inl sq 3 s True by (auto split: Option.bind_split_asm)
        obtain c4 w4 where cb: "srv_OnClientLogon ?cb (nc_addr conn) c3 w3 = (c4, w4)" by fastforce
        let ?grp = "\<lparr>cg_live_cnt = Suc (cg_live_cnt grp), cg_conns = swap_conns i (cg_live_cnt grp) (cg_conns grp)\<rparr>"
        have r: "r = (conn\<lparr>nc_fd := INVALID_TCP_SOCKET\<rparr>, sv_set_conn p c4 (sv_set_grps shm ((sv_grps shm sv)[grpid := ?grp]) sv), w4)"
          using run' Inl sq 3 s True o3 cb by (simp add: grp_def)
        have own4: "tc_remote_name c4 = tc_remote_name c0" "tc_fd c4 = nc_fd conn" "F w4 = F w"
          using tc_Open_owner [OF K(2) o3] cb_okD(5) [OF K(5) cb] own2 w2 fd_kernel_quiet(9) [OF K(1)]
          by (simp_all add: same_owner_def tcp_set_nonblocking_def)
        have "pool_ok n F R ((sv_conn_pool sv)[p := c4]) ((all_grps sv)[k := ?grp]) w4"
          using pool_ok_logon [OF P G(1) len _ p _ _ own4(2) fd own4(3)] i named own4(1) G(2) by (simp add: grp_def p_def c0_def)
        then show ?thesis using G(3) [of ?grp] by (simp add: r login_post_def)
      qed
    qed
  qed
qed


lemma HandleLogin_ok:
  assumes E: "env_ok E F" and n: "1 < NameSize cf"
    and P: "pool_ok (NameSize cf) F (add_mset (nc_fd conn) R) (sv_conn_pool sv) (all_grps sv) w"
    and fd: "nc_fd conn \<noteq> INVALID_TCP_SOCKET" and buf: "8 + sizeof_LoginMsg cf \<le> length (nc_recvbuf conn)"
    and run: "HandleLogin E cf now shm conn sv w = Some r"
  shows "login_post (NameSize cf) F R conn sv r"
proof -
  let ?os = "se_os E" and ?n = "NameSize cf"
  have K: "io_keeps ?os F" "cb_ok (se_cb E) F" using E by (simp_all add: env_ok_def fd_kernel_def)
  define h where "h = hdr_of_bytes (HostLittle cf) (take 8 (nc_recvbuf conn))"
  define login0 where "login0 = login_of_bytes cf (HostLittle cf) (drop 8 (nc_recvbuf conn))"
  define login where "login = login0\<lparr>lm_client_name := (lm_client_name login0)[?n - 1 := CHR 0x00]\<rparr>"
  define conn1 where "conn1 = conn\<lparr>nc_recvbuf := store_login (HostLittle cf) h login (nc_recvbuf conn)\<rparr>"
  let ?rsp = "login_rsp_init cf (sv_server_name sv)"
  have fd1 [simp]: "nc_fd conn1 = nc_fd conn" by (simp add: conn1_def)
  have buf1: "length (nc_recvbuf conn1) = length (nc_recvbuf conn)"
    using buf length_login_bytes_le [of "HostLittle cf" cf "HostLittle cf" "drop 8 (nc_recvbuf conn)"]
    by (simp add: conn1_def length_store_login login_def length_login_bytes_update login0_def)
  have respond: "login_post ?n F R conn sv (c, s, snd (SendLoginRsp ?os cf s' hd r v))"
    if "nc_fd c = nc_fd conn" "length (nc_recvbuf c) = length (nc_recvbuf conn)" "pool_ok ?n F (add_mset (nc_fd conn) R) (sv_conn_pool s) (all_grps s) v" "srv_frame sv s" for c s s' hd r v
    using that fd SendLoginRsp_keeps [OF K(1)] by (simp add: login_post_def pool_ok_def)
  note run' = run [unfolded HandleLogin_def Let_def, folded h_def login0_def, folded login_def, folded conn1_def]
  show ?thesis
  proof (cases "lm_client_name login0 ! 0 = CHR 0x00")
    case True
    then show ?thesis using run' P by (auto intro!: respond)
  next
    case name: False
    obtain probe_ok w1 where pr: "(if lm_use_shm login \<noteq> 0 then VerifyShmProbe E cf (sv_server_name sv) (nc_fd conn1) (lm_client_name login) w
        else Some (True, w)) = Some (probe_ok, w1)"
      using run' name by (auto split: Option.bind_split_asm)
    have w1: "F w1 = F w" using pr by (auto split: if_split_asm dest: VerifyShmProbe_keeps [OF E])
    have P1: "pool_ok ?n F (add_mset (nc_fd conn) R) (sv_conn_pool sv) (all_grps sv) w1" using P w1 by (simp add: pool_ok_def)
    note run1 = run' [unfolded if_not_P [OF name] pr Option.bind.bind_lunit prod.case]
    obtain grpid rsp1 w2 where nw: "srv_OnNewConnection (se_cb E) (nc_addr conn1) login ?rsp w1 = (grpid, rsp1, w2)" by (metis surj_pair)
    have P2: "pool_ok ?n F (add_mset (nc_fd conn) R) (sv_conn_pool sv) (all_grps sv) w2"
      using P1 cb_okD(2) [OF K(2) nw] by (simp add: pool_ok_def)
    consider "\<not> probe_ok" | "probe_ok" "grpid < 0" | "probe_ok" "0 \<le> grpid" by linarith
    then show ?thesis
    proof cases
      case 1
      then show ?thesis using run1 P1 buf1 by (auto intro!: respond)
    next
      case 2
      then show ?thesis using run1 P2 nw buf1 by (auto intro!: respond)
    next
      case 3
      obtain found pool where f: "find_conn ?n (lm_client_name login) (cg_conns (sv_grps shm sv ! nat grpid)) 0 (sv_conn_pool sv) = (found, pool)"
        by fastforce
      have g: "nat grpid < length (sv_grps shm sv)" using run1 3 nw by (auto simp: array_get_def split: if_split_asm)
      note G = all_grps_index [OF g]
      have "length (lm_client_name login0) = ?n"
        using buf n by (simp add: login0_def login_of_bytes_def Let_def sizeof_LoginMsg_def bytes_chars_def blocks_def)
      then have nm: "client_name_ok ?n (lm_client_name login)" using name n by (simp add: client_name_ok_def login_def nth_list_update)
      note F = find_conn_ok [OF nm P2 G(1), unfolded G(2), OF f]
      let ?sv = "sv\<lparr>sv_conn_pool := pool\<rparr>"
      have P3: "pool_ok ?n F (add_mset (nc_fd conn) R) (sv_conn_pool ?sv) (all_grps ?sv) w2" using F(1) by simp
      show ?thesis
      proof (cases found)
        case None
        then show ?thesis using run1 3 nw g f P3 buf1 by (auto intro!: respond)
      next
        case (Some i)
        show ?thesis
        proof (cases "i < cg_live_cnt (sv_grps shm sv ! nat grpid)")
          case True
          then show ?thesis using run1 3 nw g f Some P3 buf1 by (auto intro!: respond)
        next
          case False
          then have lg: "login_conn E cf now shm (nat grpid) i h login rsp1 conn1 ?sv w2 = Some r"
            using run1 3 nw g f Some by simp
          have "login_post ?n F R conn1 ?sv r"
            by (rule login_conn_ok [OF E _ _ _ _ _ _ lg]) (use P3 fd g F(3) [OF Some] False in simp_all)
          then show ?thesis using buf1 by (auto simp: login_post_def srv_frame_def)
        qed
      qed
    qed
  qed
qed


section \<open>The invariant of the server\<close>

definition sizeof_recvbuf :: "conf \<Rightarrow> nat" where
  "sizeof_recvbuf cf = 8 + body_buf_size (sizeof_LoginMsg cf)"

definition new_conns_ok :: "conf \<Rightarrow> srv_conf \<Rightarrow> server \<Rightarrow> bool" where
  "new_conns_ok cf sc sv \<longleftrightarrow>
     length (sv_new_conns sv) = MaxNewConnections sc \<and> (\<forall>c \<in> set (sv_new_conns sv). length (nc_recvbuf c) = sizeof_recvbuf cf) \<and>
     (sv_avail_idx sv = MaxNewConnections sc \<or>
      sv_avail_idx sv < MaxNewConnections sc \<and> nc_fd (sv_new_conns sv ! sv_avail_idx sv) = INVALID_TCP_SOCKET)"

definition srv_ok :: "conf \<Rightarrow> srv_conf \<Rightarrow> ('w \<Rightarrow> int multiset) \<Rightarrow> int multiset \<Rightarrow> server \<Rightarrow> 'w \<Rightarrow> bool" where
  "srv_ok cf sc F R sv w \<longleftrightarrow> 1 < NameSize cf \<and> new_conns_ok cf sc sv \<and>
     pool_ok (NameSize cf) F (R + fds (sv_listenfd sv # map nc_fd (sv_new_conns sv))) (sv_conn_pool sv) (all_grps sv) w"

lemma sizeof_recvbuf_ge: "8 + sizeof_LoginMsg cf \<le> sizeof_recvbuf cf"
  by (simp add: sizeof_recvbuf_def body_buf_size_def blocks_def)

lemma recv_login_ok:
  assumes E: "env_ok E F" and n: "1 < NameSize cf"
    and P: "pool_ok (NameSize cf) F (add_mset (nc_fd conn) R) (sv_conn_pool sv) (all_grps sv) w"
    and fd: "nc_fd conn \<noteq> INVALID_TCP_SOCKET" and buf: "8 + sizeof_LoginMsg cf \<le> length (nc_recvbuf conn)"
    and run: "recv_login E cf now conn sv w = Some r"
  shows "login_post (NameSize cf) F R conn sv r"
proof -
  let ?hl = "HostLittle cf"
  define h where "h = load_hdr cf (nc_recvbuf conn)"
  define login where "login = load_login cf (nc_recvbuf conn)"
  have len: "length (store_login ?hl h login (nc_recvbuf conn)) = length (nc_recvbuf conn)"
    using buf length_login_bytes_le [of "ToLittleEndian cf" cf ?hl "drop 8 (nc_recvbuf conn)"]
    by (simp add: length_store_login login_def load_login_def length_login_bytes_update)
  show ?thesis
  proof (cases "unat (hdr_size h) = 8 + sizeof_LoginMsg cf \<and> hdr_msg_type h = LoginMsg_msg_type")
    case True
    let ?conn = "conn\<lparr>nc_recvbuf := store_login ?hl h login (nc_recvbuf conn)\<rparr>"
    have H: "HandleLogin E cf now (lm_use_shm login \<noteq> 0) ?conn sv w = Some r"
      using run True by (simp add: recv_login_def Let_def h_def login_def)
    have "login_post (NameSize cf) F R ?conn sv r"
      by (rule HandleLogin_ok [OF E n _ _ _ H]) (use P fd buf len in simp_all)
    then show ?thesis using len by (auto simp: login_post_def)
  next
    case False
    then have "r = (conn\<lparr>nc_recvbuf := hdr_bytes ?hl h @ drop 8 (nc_recvbuf conn)\<rparr>, sv, w)"
      using run by (auto simp: recv_login_def Let_def h_def)
    then show ?thesis using P fd buf by (simp add: login_post_def)
  qed
qed

text \<open>The descriptors of the new connections without those of slot \<open>i\<close>.\<close>

lemma new_fds_split:
  assumes "i < length ncs"
  obtains M where "fds (map nc_fd ncs) = M + fds [nc_fd (ncs ! i)]" and "\<And>c. fds (map nc_fd (ncs[i := c])) = M + fds [nc_fd c]"
proof -
  let ?M = "fds (map nc_fd (ncs[i := (ncs ! i)\<lparr>nc_fd := INVALID_TCP_SOCKET\<rparr>]))"
  have u: "fds (map nc_fd (ncs[i := c])) + fds [nc_fd (ncs ! i)] = fds (map nc_fd ncs) + fds [nc_fd c]" for c
    using fds_update [of i "map nc_fd ncs" "nc_fd c"] assms by (simp add: map_update)
  have a: "fds (map nc_fd ncs) = ?M + fds [nc_fd (ncs ! i)]" using u [of "(ncs ! i)\<lparr>nc_fd := INVALID_TCP_SOCKET\<rparr>"] by simp
  moreover have "fds (map nc_fd (ncs[i := c])) = ?M + fds [nc_fd c]" for c
  proof -
    have "fds (map nc_fd (ncs[i := c])) + fds [nc_fd (ncs ! i)] = (?M + fds [nc_fd c]) + fds [nc_fd (ncs ! i)]"
      using u [of c] a by (metis add.assoc add.commute)
    then show ?thesis by (simp only: add_right_cancel)
  qed
  ultimately show ?thesis by (rule that)
qed

lemma new_conns_ok_update:
  assumes "new_conns_ok cf sc sv" and "length (nc_recvbuf c) = sizeof_recvbuf cf" and "i < MaxNewConnections sc"
    and "sv_new_conns sv' = (sv_new_conns sv)[i := c]"
    and "sv_avail_idx sv' = i \<and> nc_fd c = INVALID_TCP_SOCKET \<or> sv_avail_idx sv' = MaxNewConnections sc \<or>
         sv_avail_idx sv' = sv_avail_idx sv \<and> nc_fd c = nc_fd (sv_new_conns sv ! i)"
  shows "new_conns_ok cf sc sv'"
  using assms unfolding new_conns_ok_def
  by (auto simp: nth_list_update dest!: set_update_subset_insert [THEN subsetD])


lemma visit_new_ok:
  assumes E: "env_ok E F" and S: "srv_ok cf sc F R sv w" and i: "i < MaxNewConnections sc"
    and run: "visit_new E cf sc now i sv w = Some (sv', w')"
  shows "srv_ok cf sc F R sv' w'"
proof -
  let ?os = "se_os E"
  define conn where "conn = sv_new_conns sv ! i"
  have K: "fd_kernel ?os F" "io_keeps ?os F" using E by (simp_all add: env_ok_def fd_kernel_def)
  have n: "1 < NameSize cf" and N: "new_conns_ok cf sc sv"
    and P: "pool_ok (NameSize cf) F (R + fds (sv_listenfd sv # map nc_fd (sv_new_conns sv))) (sv_conn_pool sv) (all_grps sv) w"
    using S by (simp_all add: srv_ok_def)
  have len: "i < length (sv_new_conns sv)" and buf: "length (nc_recvbuf conn) = sizeof_recvbuf cf"
    using N i by (simp_all add: new_conns_ok_def conn_def)
  obtain M where M: "fds (map nc_fd (sv_new_conns sv)) = M + fds [nc_fd conn]"
    "\<And>c. fds (map nc_fd ((sv_new_conns sv)[i := c])) = M + fds [nc_fd c]"
    by (rule new_fds_split [OF len]) (auto simp: conn_def)
  define R' where "R' = R + fds [sv_listenfd sv] + M"
  have rest: "R + fds (sv_listenfd sv # map nc_fd (sv_new_conns sv)) = R' + fds [nc_fd conn]"
    "R + fds (sv_listenfd sv # map nc_fd ((sv_new_conns sv)[i := c])) = R' + fds [nc_fd c]" for c
    using M by (simp_all add: R'_def split del: if_split split: if_splits)
  show ?thesis
  proof (cases "nc_fd conn = INVALID_TCP_SOCKET")
    case True
    then have [simp]: "sv' = sv\<lparr>sv_avail_idx := i\<rparr>" "w' = w" using run by (simp_all add: visit_new_def Let_def conn_def)
    have "new_conns_ok cf sc sv'" using N i True by (simp add: new_conns_ok_def conn_def)
    then show ?thesis using n P by (simp add: srv_ok_def all_grps_def)
  next
    case fd: False
    obtain ret buf1 w1 where rcv: "tcp_recv ?os (nc_fd conn) 0 (sizeof_recvbuf cf) (nc_recvbuf conn) w = Some (ret, buf1, w1)"
      using run fd by (auto simp: visit_new_def Let_def conn_def sizeof_recvbuf_def split: Option.bind_split_asm)
    note run' = run [unfolded visit_new_def Let_def, folded conn_def, folded sizeof_recvbuf_def, unfolded if_not_P [OF fd] rcv
        Option.bind.bind_lunit prod.case]
    have len1: "length buf1 = sizeof_recvbuf cf"
      using rcv buf by (auto simp: tcp_recv_def split: prod.split_asm if_split_asm dest: length_memcpy)
    have w1: "F w1 = F w" by (rule tcp_recv_keeps [OF K(2) rcv])
    let ?conn1 = "conn\<lparr>nc_recvbuf := buf1\<rparr>"
    have P1: "pool_ok (NameSize cf) F (R' + fds [nc_fd conn]) (sv_conn_pool sv) (all_grps sv) w1"
      using P w1 unfolding rest(1) by (simp add: pool_ok_def)
    show ?thesis
    proof (cases "ret < 0 \<and> tcp_get_last_error ?os w1 = TCP_ERR_AGAIN \<and> now - nc_time conn \<le> NewConnectionTimeout sc")
      case True
      then have [simp]: "sv' = sv\<lparr>sv_new_conns := (sv_new_conns sv)[i := ?conn1]\<rparr>" "w' = w1" using run' by auto
      have "new_conns_ok cf sc sv'" by (rule new_conns_ok_update [OF N, of ?conn1 i]) (use len1 i in \<open>simp_all add: conn_def\<close>)
      then show ?thesis using n P1 rest(2) [of ?conn1] by (simp add: srv_ok_def all_grps_def)
    next
      case False
      obtain conn2 sv2 w2 where lg: "(if ret = int (sizeof_recvbuf cf) then recv_login E cf now ?conn1 sv w1 else Some (?conn1, sv, w1))
          = Some (conn2, sv2, w2)"
        using run' unfolding if_not_P [OF False] by (auto split: Option.bind_split_asm)
      have "login_post (NameSize cf) F R' ?conn1 sv (conn2, sv2, w2)"
      proof (cases "ret = int (sizeof_recvbuf cf)")
        case True
        then have "recv_login E cf now ?conn1 sv w1 = Some (conn2, sv2, w2)" using lg by simp
        then show ?thesis
          by (rule recv_login_ok [OF E n, rotated 3]) (use P1 fd len1 sizeof_recvbuf_ge in simp_all)
      qed (use lg P1 fd in \<open>auto simp: login_post_def\<close>)
      then have P2: "pool_ok (NameSize cf) F (R' + fds [nc_fd conn2]) (sv_conn_pool sv2) (all_grps sv2) w2"
        and fd2: "nc_fd conn2 = nc_fd conn \<or> nc_fd conn2 = INVALID_TCP_SOCKET" and len2: "length (nc_recvbuf conn2) = sizeof_recvbuf cf"
        and fr: "srv_frame sv sv2" using len1 by (simp_all add: login_post_def)
      define conn3 where "conn3 = conn2\<lparr>nc_fd := INVALID_TCP_SOCKET\<rparr>"
      have sv': "sv' = sv2\<lparr>sv_new_conns := (sv_new_conns sv2)[i := conn3], sv_avail_idx := i\<rparr>"
        and w': "w' = (if nc_fd conn2 \<noteq> INVALID_TCP_SOCKET then snd (tcp_close ?os (nc_fd conn2) w2) else w2)"
        using run' lg unfolding if_not_P [OF False] by (cases conn2; auto simp: conn3_def split: if_split_asm)+
      have "F w' = F w2 - fds [nc_fd conn2]" using fd_kernelD(2) [OF K(1)] by (simp add: w' tcp_close_def)
      then have "pool_ok (NameSize cf) F R' (sv_conn_pool sv2) (all_grps sv2) w'" using P2 by (simp add: pool_ok_def)
      moreover have "new_conns_ok cf sc sv'"
        by (rule new_conns_ok_update [OF N, of conn3 i]) (use len2 i fr in \<open>simp_all add: sv' conn3_def srv_frame_def\<close>)
      ultimately show ?thesis using n rest(2) [of conn3] fr
        by (simp add: srv_ok_def sv' all_grps_def srv_frame_def conn3_def)
    qed
  qed
qed

lemma visit_all_ok:
  assumes E: "env_ok E F"
  shows "visit_all E cf sc now is sv w = Some (sv', w') \<Longrightarrow> srv_ok cf sc F R sv w \<Longrightarrow> (\<forall>i \<in> set is. i < MaxNewConnections sc) \<Longrightarrow>
    srv_ok cf sc F R sv' w'"
  by (induction "is" arbitrary: sv w) (auto split: Option.bind_split_asm dest: visit_new_ok [OF E])

lemma accept_one_ok:
  assumes E: "env_ok E F" and S: "srv_ok cf sc F R sv w" and run: "accept_one E sc now sv w = (sv', w')"
  shows "srv_ok cf sc F R sv' w'"
proof (cases "sv_avail_idx sv = MaxNewConnections sc")
  case True
  then show ?thesis using run S by (simp add: accept_one_def)
next
  case False
  let ?i = "sv_avail_idx sv"
  have n: "1 < NameSize cf" and N: "new_conns_ok cf sc sv"
    and P: "pool_ok (NameSize cf) F (R + fds (sv_listenfd sv # map nc_fd (sv_new_conns sv))) (sv_conn_pool sv) (all_grps sv) w"
    using S by (simp_all add: srv_ok_def)
  have K: "fd_kernel (se_os E) F" using E by (simp add: env_ok_def)
  have i: "?i < MaxNewConnections sc" "?i < length (sv_new_conns sv)" and inv: "nc_fd (sv_new_conns sv ! ?i) = INVALID_TCP_SOCKET"
    and buf: "length (nc_recvbuf (sv_new_conns sv ! ?i)) = sizeof_recvbuf cf"
    using N False by (auto simp: new_conns_ok_def)
  obtain M where M: "fds (map nc_fd (sv_new_conns sv)) = M + fds [INVALID_TCP_SOCKET]"
    "\<And>c. fds (map nc_fd ((sv_new_conns sv)[?i := c])) = M + fds [nc_fd c]"
    by (rule new_fds_split [OF i(2)]) (auto simp: inv)
  obtain fd addr w1 where acc: "sys_accept (se_os E) (sv_listenfd sv) w = ((fd, addr), w1)" by (metis surj_pair)
  have w1: "F w1 = F w + fds [fd]" using fd_kernelD(6) [OF K acc] by (simp add: INVALID_TCP_SOCKET_def)
  define conn where "conn = (sv_new_conns sv ! ?i)\<lparr>nc_fd := fd, nc_addr := addr\<rparr>"
  have sv': "sv' = (if fd \<noteq> INVALID_TCP_SOCKET
      then sv\<lparr>sv_new_conns := (sv_new_conns sv)[?i := conn\<lparr>nc_time := now\<rparr>], sv_avail_idx := MaxNewConnections sc\<rparr>
      else sv\<lparr>sv_new_conns := (sv_new_conns sv)[?i := conn]\<rparr>)"
    and w': "F w' = F w1"
    using run False acc fd_kernel_quiet(9) [OF K]
    by (auto simp: accept_one_def tcp_accept_def tcp_set_nonblocking_def Let_def conn_def split: if_split_asm)
  have "new_conns_ok cf sc sv'"
    by (rule new_conns_ok_update [OF N, of "if fd \<noteq> INVALID_TCP_SOCKET then conn\<lparr>nc_time := now\<rparr> else conn" ?i])
      (use i inv buf in \<open>auto simp: sv' conn_def\<close>)
  moreover have "fds (map nc_fd (sv_new_conns sv')) = fds (map nc_fd (sv_new_conns sv)) + fds [fd]"
    using M by (simp add: sv' conn_def)
  moreover have "sv_listenfd sv' = sv_listenfd sv" "sv_conn_pool sv' = sv_conn_pool sv" "all_grps sv' = all_grps sv"
    by (simp_all add: sv' all_grps_def)
  ultimately show ?thesis using n P w' w1 by (simp add: srv_ok_def pool_ok_def)
qed

lemma PollCtl_ok:
  assumes E: "env_ok E F" and S: "srv_ok cf sc F R sv w" and run: "PollCtl E cf sc now sv w = Some (sv', w')"
  shows "srv_ok cf sc F R sv' w'"
proof -
  obtain sv1 w1 where a: "accept_one E sc now sv w = (sv1, w1)" by fastforce
  obtain sv2 w2 shm pool3 w3 tcp pool4 where v: "visit_all E cf sc now [0..<MaxNewConnections sc] sv1 w1 = Some (sv2, w2)"
    and s: "ctl_grps E cf True now (sv_shm_grps sv2) (sv_conn_pool sv2) w2 = Some (shm, pool3, w3)"
    and t: "ctl_grps E cf False now (sv_tcp_grps sv2) pool3 w3 = Some (tcp, pool4, w')"
    and sv': "sv' = sv2\<lparr>sv_shm_grps := shm, sv_tcp_grps := tcp, sv_conn_pool := pool4\<rparr>"
    using run a by (auto simp: PollCtl_def split: Option.bind_split_asm)
  have "srv_ok cf sc F R sv2 w2" by (rule visit_all_ok [OF E v accept_one_ok [OF E S a]]) simp
  then have n: "1 < NameSize cf" "new_conns_ok cf sc sv2"
    and P: "pool_ok (NameSize cf) F (R + fds (sv_listenfd sv2 # map nc_fd (sv_new_conns sv2))) (sv_conn_pool sv2) (sv_shm_grps sv2 @ sv_tcp_grps sv2) w2"
    by (simp_all add: srv_ok_def all_grps_def)
  have "pool_ok (NameSize cf) F (R + fds (sv_listenfd sv2 # map nc_fd (sv_new_conns sv2))) pool3 (shm @ sv_tcp_grps sv2) w3"
    using ctl_grps_ok [OF E s, of _ _ "[]" "sv_tcp_grps sv2"] P by simp
  then have "pool_ok (NameSize cf) F (R + fds (sv_listenfd sv2 # map nc_fd (sv_new_conns sv2))) pool4 (shm @ tcp) w'"
    using ctl_grps_ok [OF E t, of _ _ shm "[]"] by simp
  moreover have "new_conns_ok cf sc sv'" using n by (simp add: new_conns_ok_def sv')
  ultimately show ?thesis using n by (simp add: srv_ok_def all_grps_def sv')
qed


lemma PollTcp_ok:
  assumes E: "env_ok E F" and S: "srv_ok cf sc F R sv w" and run: "PollTcp E cf now grpid sv w = Some (sv', w')"
  shows "srv_ok cf sc F R sv' w'"
proof -
  have K: "io_keeps (se_os E) F" "cb_ok (se_cb E) F" using E by (simp_all add: env_ok_def fd_kernel_def)
  obtain grp pool where g: "grpid < length (sv_tcp_grps sv)" "grp = sv_tcp_grps sv ! grpid" and sv': "sv' = sv\<lparr>sv_conn_pool := pool\<rparr>"
    and r: "poll_conns (tc_TcpFront (se_os E) cf now) (srv_OnClientMsg (se_cb E)) (take (cg_live_cnt grp) (cg_conns grp)) (sv_conn_pool sv) w = Some (pool, w')"
    using run by (auto simp: PollTcp_def array_get_def split: Option.bind_split_asm if_split_asm)
  note G = all_grps_index [of grpid False sv, unfolded sv_grps_def, simplified, OF g(1)]
  have "pool_ok (NameSize cf) F (R + fds (sv_listenfd sv # map nc_fd (sv_new_conns sv))) pool (all_grps sv) w'"
    by (rule poll_conns_ok [OF tc_TcpFront_owner [OF K(1)] cb_okD(7) [OF K(2)] G(1) r])
      (use S G(2) g(2) in \<open>auto simp: srv_ok_def dest: in_set_takeD\<close>)
  then show ?thesis using S by (simp add: srv_ok_def sv' new_conns_ok_def all_grps_def)
qed

lemma PollShm_ok:
  assumes E: "env_ok E F" and S: "srv_ok cf sc F R sv w" and run: "PollShm E cf grpid sv w = Some (sv', w')"
  shows "srv_ok cf sc F R sv' w'"
proof -
  have K: "cb_ok (se_cb E) F" using E by (simp add: env_ok_def)
  let ?front = "\<lambda>c w. do { (head, c') \<leftarrow> tc_ShmFront cf c; Some (head, c', w) }"
  obtain grp pool where g: "grpid < length (sv_shm_grps sv)" "grp = sv_shm_grps sv ! grpid" and sv': "sv' = sv\<lparr>sv_conn_pool := pool\<rparr>"
    and r: "poll_conns ?front (srv_OnClientMsg (se_cb E)) (take (cg_live_cnt grp) (cg_conns grp)) (sv_conn_pool sv) w = Some (pool, w')"
    using run by (auto simp: PollShm_def array_get_def split: Option.bind_split_asm if_split_asm)
  note G = all_grps_index [of grpid True sv, unfolded sv_grps_def, simplified, OF g(1)]
  have front: "same_owner c c' \<and> F w' = F w" if "?front c w = Some (p, c', w')" for c w p c' w'
    using that by (auto split: Option.bind_split_asm dest: tc_ShmFront_owner)
  have "pool_ok (NameSize cf) F (R + fds (sv_listenfd sv # map nc_fd (sv_new_conns sv))) pool (all_grps sv) w'"
    by (rule poll_conns_ok [OF front cb_okD(7) [OF K] G(1) r])
      (use S G(2) g(2) in \<open>auto simp: srv_ok_def dest: in_set_takeD\<close>)
  then show ?thesis using S by (simp add: srv_ok_def sv' new_conns_ok_def all_grps_def)
qed

lemma Start_ok:
  assumes E: "env_ok E F" and S: "srv_ok cf sc F R sv w" and run: "Start E cf ip port sv w = (ok, sv', w')"
  shows "srv_ok cf sc F R sv' w'"
proof (cases "sv_listenfd sv = INVALID_TCP_SOCKET")
  case False
  have K: "cb_ok (se_cb E) F" using E by (simp add: env_ok_def)
  show ?thesis using run False S cb_okD(1) [OF K] by (auto simp: Start_def OnSystemError_def srv_ok_def pool_ok_def)
next
  case True
  let ?os = "se_os E"
  have K: "fd_kernel ?os F" "cb_ok (se_cb E) F" using E by (simp_all add: env_ok_def)
  note Q = fd_kernel_quiet [OF K(1)] and O = cb_okD(1) [OF K(2)]
  obtain fd w1 where so: "sys_socket ?os w = (fd, w1)" by fastforce
  have w1: "F w1 = F w + fds [fd]" using fd_kernelD(5) [OF K(1) so] by (simp add: INVALID_TCP_SOCKET_def)
  have bind: "F v' = F v" if "tcp_bind ?os fd a v = (r, v')" for a v r v' using Q(4) [of fd a v] that by (simp add: tcp_bind_def)
  have listen: "F v' = F v" if "tcp_listen ?os fd a v = (r, v')" for a v r v' using Q(5) [of fd a v] that by (simp add: tcp_listen_def)
  have opt: "F v' = F v" if "tcp_setsockopt ?os fd a v = (r, v')" for a v r v' using Q(7) [of fd a v] that by (simp add: tcp_setsockopt_def)
  have fl: "F v' = F v" if "tcp_set_nonblocking ?os fd v = (r, v')" for v r v' using Q(9) [of fd O_NONBLOCK v] that by (simp add: tcp_set_nonblocking_def)
  have sv': "sv' = sv\<lparr>sv_listenfd := fd\<rparr>" and w': "F w' = F w1"
    using run True so O
    by (auto simp: Start_def OnSystemError_def tcp_socket_def Let_def split: if_split_asm prod.split_asm dest!: bind listen opt fl)
  then show ?thesis using S True w1 by (auto simp: srv_ok_def pool_ok_def new_conns_ok_def all_grps_def)
qed


subsection \<open>Stop\<close>

lemma stop_new_conns_ok:
  assumes K: "fd_kernel os F"
  shows "stop_new_conns os cs w = (cs', w') \<Longrightarrow> F w = R + fds (map nc_fd cs) \<Longrightarrow>
    F w' = R \<and> length cs' = length cs \<and> (\<forall>c \<in> set cs'. nc_fd c = INVALID_TCP_SOCKET) \<and> map nc_recvbuf cs' = map nc_recvbuf cs"
proof (induction cs arbitrary: cs' w)
  case (Cons c cs)
  define w1 where "w1 = (if nc_fd c \<noteq> INVALID_TCP_SOCKET then snd (tcp_close os (nc_fd c) w) else w)"
  define c' where "c' = (if nc_fd c \<noteq> INVALID_TCP_SOCKET then c\<lparr>nc_fd := INVALID_TCP_SOCKET\<rparr> else c)"
  obtain cs1 where r: "stop_new_conns os cs w1 = (cs1, w')" and cs': "cs' = c' # cs1"
    using Cons.prems(1) by (auto simp: w1_def c'_def Let_def split: if_split_asm prod.split_asm)
  have "F w1 = R + fds (map nc_fd cs)" using Cons.prems(2) fd_kernelD(2) [OF K] by (auto simp: w1_def tcp_close_def)
  from Cons.IH [OF r this] show ?case by (auto simp: cs' c'_def)
qed simp

lemma release_conns_ok:
  assumes K: "fd_kernel (se_os E) F" and T: "map_keeps (map_ptcp (se_maps E)) F" "map_keeps (map_shm (se_maps E)) F" and n: "0 < n"
  shows "release_conns (se_os E) (se_maps E) ps pool w = (pool', w') \<Longrightarrow> F w = R + fds (map tc_fd pool) \<Longrightarrow>
    (\<forall>p \<in> set ps. p < length pool) \<Longrightarrow> (\<forall>c \<in> set pool. length (tc_remote_name c) = n) \<Longrightarrow>
    F w' = R + fds (map tc_fd pool') \<and> length pool' = length pool \<and> (\<forall>c \<in> set pool'. length (tc_remote_name c) = n) \<and>
    (\<forall>q < length pool. (q \<in> set ps \<longrightarrow> tc_fd (pool' ! q) = INVALID_TCP_SOCKET \<and> \<not> named (pool' ! q)) \<and>
                       (q \<notin> set ps \<longrightarrow> pool' ! q = pool ! q))"
proof (induction ps arbitrary: pool w)
  case (Cons p ps)
  obtain c w1 where rel: "tc_Release (se_os E) (se_maps E) (pool ! p) w = (c, w1)" by fastforce
  have p: "p < length pool" using Cons.prems(3) by simp
  note R1 = tc_Release_owner [OF K T rel]
  have len: "length (tc_remote_name c) = n" using R1(1) Cons.prems(4) p n by simp
  have "F w1 = R + fds (map tc_fd (pool[p := c]))"
  proof (cases "tc_fd (pool ! p) = INVALID_TCP_SOCKET")
    case False
    then have "fds (map tc_fd pool) = add_mset (tc_fd (pool ! p)) (fds (map tc_fd (pool[p := c])))"
      using pool_fds_update [OF p, of c] R1(2) by simp
    then show ?thesis using R1(3) Cons.prems(2) False by simp
  qed (use R1(2,3) Cons.prems(2) pool_fds_update [OF p, of c] in simp)
  moreover have "\<forall>c' \<in> set (pool[p := c]). length (tc_remote_name c') = n"
    using len Cons.prems(4) by (auto dest!: set_update_subset_insert [THEN subsetD])
  ultimately have IH: "F w' = R + fds (map tc_fd pool') \<and> length pool' = length (pool[p := c]) \<and> (\<forall>c \<in> set pool'. length (tc_remote_name c) = n) \<and>
    (\<forall>q < length (pool[p := c]). (q \<in> set ps \<longrightarrow> tc_fd (pool' ! q) = INVALID_TCP_SOCKET \<and> \<not> named (pool' ! q)) \<and>
                       (q \<notin> set ps \<longrightarrow> pool' ! q = pool[p := c] ! q))"
    by (intro Cons.IH) (use Cons.prems rel in simp_all)
  have c: "tc_fd c = INVALID_TCP_SOCKET" "\<not> named c" using R1(1,2) by (simp_all add: named_def)
  have "(q \<in> set (p # ps) \<longrightarrow> tc_fd (pool' ! q) = INVALID_TCP_SOCKET \<and> \<not> named (pool' ! q)) \<and>
        (q \<notin> set (p # ps) \<longrightarrow> pool' ! q = pool ! q)" if "q < length pool" for q
    using IH that c by (cases "q = p") auto
  then show ?case using IH by simp
qed simp

lemma release_conns_append:
  "release_conns os T (ps @ qs) pool w = (case release_conns os T ps pool w of (pool1, w1) \<Rightarrow> release_conns os T qs pool1 w1)"
  by (induction ps arbitrary: pool w) (auto split: prod.split)

lemma slots_ok_unused:
  assumes "\<And>c. c \<in> set cs \<Longrightarrow> tc_fd c = INVALID_TCP_SOCKET \<and> \<not> named c \<and> length (tc_remote_name c) = n"
  shows "slots_ok n 0 cs"
  using assms nth_mem [of _ cs] by (auto simp: slots_ok_def)

lemma Stop_spec:
  assumes E: "env_ok E F" and S: "srv_ok cf sc F R sv w" and open_fd: "sv_listenfd sv \<noteq> INVALID_TCP_SOCKET"
    and run: "Stop E sv w = (sv', w')"
  shows "srv_ok cf sc F R sv' w' \<and> F w' = R \<and> sv_listenfd sv' = INVALID_TCP_SOCKET"
proof -
  let ?os = "se_os E" and ?n = "NameSize cf"
  have K: "fd_kernel ?os F" "map_keeps (map_ptcp (se_maps E)) F" "map_keeps (map_shm (se_maps E)) F" using E by (simp_all add: env_ok_def)
  have n: "1 < ?n" and N: "new_conns_ok cf sc sv"
    and P: "pool_ok ?n F (R + fds (sv_listenfd sv # map nc_fd (sv_new_conns sv))) (sv_conn_pool sv) (all_grps sv) w"
    using S by (simp_all add: srv_ok_def)
  have inv: "pool_inv ?n (sv_conn_pool sv) (all_grps sv)" using P by (simp add: pool_ok_def)
  define w1 where "w1 = snd (tcp_close ?os (sv_listenfd sv) w)"
  obtain ncs w2 where nc: "stop_new_conns ?os (sv_new_conns sv) w1 = (ncs, w2)" by fastforce
  let ?ps = "concat (map cg_conns (all_grps sv))"
  obtain pool2 w4 where rel: "release_conns ?os (se_maps E) ?ps (sv_conn_pool sv) w2 = (pool2, w4)" by fastforce
  have sv': "sv' = sv\<lparr>sv_listenfd := INVALID_TCP_SOCKET, sv_new_conns := ncs, sv_avail_idx := 0, sv_conn_pool := pool2,
                  sv_shm_grps := map (\<lambda>g. g\<lparr>cg_live_cnt := 0\<rparr>) (sv_shm_grps sv),
                  sv_tcp_grps := map (\<lambda>g. g\<lparr>cg_live_cnt := 0\<rparr>) (sv_tcp_grps sv)\<rparr>" and w': "w' = w4"
    using run open_fd nc rel by (auto simp: Stop_def Let_def w1_def all_grps_def release_conns_append split: prod.split_asm)
  have "F w1 = (R + fds (map tc_fd (sv_conn_pool sv))) + fds (map nc_fd (sv_new_conns sv))"
    using P open_fd fd_kernelD(2) [OF K(1)] by (simp add: w1_def tcp_close_def pool_ok_def)
  note N1 = stop_new_conns_ok [OF K(1) nc this]
  have sets: "set ?ps = {..<length (sv_conn_pool sv)}" using inv by (simp add: pool_inv_def)
  have names: "\<forall>c \<in> set (sv_conn_pool sv). length (tc_remote_name c) = ?n"
  proof
    fix c assume "c \<in> set (sv_conn_pool sv)"
    then obtain q where q: "q < length (sv_conn_pool sv)" "c = sv_conn_pool sv ! q" by (auto simp: in_set_conv_nth)
    then have "q \<in> set ?ps" using sets by simp
    then obtain g where g: "g \<in> set (all_grps sv)" "q \<in> set (cg_conns g)" by auto
    then have "slots_ok ?n (cg_live_cnt g) (group_view (sv_conn_pool sv) g)" using inv by (simp add: pool_inv_def)
    from slots_okD(2) [OF this] g(2) show "length (tc_remote_name c) = ?n" by (auto simp: q(2) in_set_conv_nth group_view_def)
  qed
  have "F w2 = R + fds (map tc_fd (sv_conn_pool sv))" using N1 by simp
  note R1 = release_conns_ok [OF K _ rel this _ names]
  have "0 < ?n" and "\<forall>p \<in> set ?ps. p < length (sv_conn_pool sv)" using n unfolding sets by simp_all
  note R3 = R1 [OF this]
  have R2: "F w4 = R + fds (map tc_fd pool2)" "length pool2 = length (sv_conn_pool sv)" "\<forall>c \<in> set pool2. length (tc_remote_name c) = ?n"
    using R3 by blast+
  have unused: "tc_fd (pool2 ! q) = INVALID_TCP_SOCKET \<and> \<not> named (pool2 ! q)" if "q < length (sv_conn_pool sv)" for q
    using R3 that unfolding sets by simp
  have "fds (map tc_fd pool2) = {#}" using unused R2(2) by (auto simp: fds_def filter_empty_conv in_set_conv_nth)
  moreover have "slots_ok ?n 0 (group_view pool2 g)" if "g \<in> set (all_grps sv)" for g
  proof (rule slots_ok_unused)
    fix c assume "c \<in> set (group_view pool2 g)"
    then obtain q where q: "q \<in> set (cg_conns g)" "c = pool2 ! q" by (auto simp: group_view_def)
    then have "q < length (sv_conn_pool sv)" using sets that by auto
    then show "tc_fd c = INVALID_TCP_SOCKET \<and> \<not> named c \<and> length (tc_remote_name c) = ?n" using unused R2 q(2) by simp
  qed
  moreover have "all_grps sv' = map (\<lambda>g. g\<lparr>cg_live_cnt := 0\<rparr>) (all_grps sv)" by (simp add: sv' all_grps_def)
  moreover have "group_view pool2 (g\<lparr>cg_live_cnt := 0\<rparr>) = group_view pool2 g" for g by (simp add: group_view_def)
  ultimately have inv': "pool_inv ?n pool2 (all_grps sv')"
    using inv R2(2) by (simp add: pool_inv_def comp_def)
  have bufs: "\<forall>c \<in> set ncs. length (nc_recvbuf c) = sizeof_recvbuf cf"
  proof -
    have "nc_recvbuf ` set ncs = nc_recvbuf ` set (sv_new_conns sv)" using N1 by (metis set_map)
    then show ?thesis using N unfolding new_conns_ok_def by (metis (no_types, lifting) imageE image_eqI)
  qed
  have "new_conns_ok cf sc sv'"
    using N N1 bufs by (cases "MaxNewConnections sc") (auto simp: new_conns_ok_def sv')
  moreover have "fds (map nc_fd ncs) = {#}" using N1 by (auto simp: fds_def filter_empty_conv)
  ultimately show ?thesis using n inv' R2(1) \<open>fds (map tc_fd pool2) = {#}\<close> by (simp add: srv_ok_def pool_ok_def sv' w')
qed


subsection \<open>Construction\<close>

lemma concat_groups:
  "concat (map (\<lambda>g. cg_conns (group_of first n g)) [0..<m]) = [first..<first + m * n]"
proof (induction m)
  case (Suc m)
  have "[first..<first + m * n] @ [first + m * n..<first + m * n + n] = [first..<first + (m * n + n)]"
    using upt_add_eq_append [of first "first + m * n" n] by (simp add: add.assoc)
  with Suc show ?case by (simp add: group_of_def add.commute)
qed simp

lemma TcpShmServer_ok:
  assumes K: "fd_kernel os F" and n: "1 < NameSize cf" "length junk = NameSize cf - 1" "length (nc_recvbuf mem) = sizeof_recvbuf cf"
    and run: "TcpShmServer os cf sc name dir junk mem w = (sv, w')"
  shows "srv_ok cf sc F (F w) sv w'"
proof -
  let ?S = "MaxShmConnsPerGrp sc * MaxShmGrps sc" and ?T = "MaxTcpConnsPerGrp sc * MaxTcpGrps sc"
  let ?name = "strncpy (replicate (NameSize cf) (CHR 0x00)) name (NameSize cf - 1)"
  let ?c = "tc_init dir ?name (TcpShmConnection cf junk)"
  have sv: "sv = \<lparr>sv_server_name = ?name, sv_ptcp_dir = dir, sv_listenfd = INVALID_TCP_SOCKET,
           sv_new_conns = replicate (MaxNewConnections sc) (mem\<lparr>nc_fd := INVALID_TCP_SOCKET\<rparr>), sv_avail_idx = 0,
           sv_conn_pool = replicate (?S + ?T) ?c,
           sv_shm_grps = map (group_of 0 (MaxShmConnsPerGrp sc)) [0..<MaxShmGrps sc],
           sv_tcp_grps = map (group_of ?S (MaxTcpConnsPerGrp sc)) [0..<MaxTcpGrps sc]\<rparr>" and w': "F w' = F w"
    using run fd_kernel_quiet(3) [OF K] by (auto simp: TcpShmServer_def Let_def tcp_mkdir_def)
  have c: "tc_fd ?c = INVALID_TCP_SOCKET \<and> \<not> named ?c \<and> length (tc_remote_name ?c) = NameSize cf"
    using n by (simp add: tc_init_def TcpShmConnection_def PTCPConnection_def tc_fd_def named_def)
  have "concat (map cg_conns (all_grps sv)) = [0..<?S] @ [?S..<?S + ?T]"
    by (simp add: all_grps_def sv comp_def concat_groups mult.commute)
  also have "\<dots> = [0..<?S + ?T]" using upt_add_eq_append [of 0 ?S ?T] by simp
  finally have cs: "concat (map cg_conns (all_grps sv)) = [0..<?S + ?T]" .
  have "slots_ok (NameSize cf) (cg_live_cnt g) (group_view (sv_conn_pool sv) g)" if g: "g \<in> set (all_grps sv)" for g
  proof -
    have "cg_live_cnt g = 0" using g by (auto simp: all_grps_def sv group_of_def)
    moreover have "q < ?S + ?T" if "q \<in> set (cg_conns g)" for q
    proof -
      have "q \<in> set (concat (map cg_conns (all_grps sv)))" using g that by auto
      then show ?thesis by (simp add: cs)
    qed
    then have "d = ?c" if "d \<in> set (group_view (sv_conn_pool sv) g)" for d
      using that by (auto simp: group_view_def sv)
    ultimately show ?thesis using c by (metis slots_ok_unused)
  qed
  then have "pool_inv (NameSize cf) (sv_conn_pool sv) (all_grps sv)"
    unfolding pool_inv_def cs by (auto simp: sv)
  moreover have "fds (map tc_fd (sv_conn_pool sv)) = {#}" "fds (map nc_fd (sv_new_conns sv)) = {#}"
    using c by (simp_all add: sv fds_def)
  moreover have "new_conns_ok cf sc sv" using n(3) by (auto simp: new_conns_ok_def sv)
  ultimately show ?thesis using n(1) w' by (simp add: srv_ok_def pool_ok_def sv)
qed

section \<open>Reachable states\<close>

text \<open>
  The calls an application makes on its server object, in any order and interleaved with what it does
  to connections through their public operations, what the peers do, and what happens in the rest of
  the process (\<open>others\<close>).
\<close>

inductive srv_step :: "'w srv_env \<Rightarrow> conf \<Rightarrow> srv_conf \<Rightarrow> ('w \<Rightarrow> int multiset) \<Rightarrow> server \<times> 'w \<Rightarrow> server \<times> 'w \<Rightarrow> bool"
  for E cf sc F where
  start: "srv_step E cf sc F (sv, w) (sv', w')" if "Start E cf ip port sv w = (ok, sv', w')"
| poll_ctl: "srv_step E cf sc F (sv, w) (sv', w')" if "PollCtl E cf sc now sv w = Some (sv', w')"
| poll_tcp: "srv_step E cf sc F (sv, w) (sv', w')" if "PollTcp E cf now grpid sv w = Some (sv', w')"
| poll_shm: "srv_step E cf sc F (sv, w) (sv', w')" if "PollShm E cf grpid sv w = Some (sv', w')"
| stop: "srv_step E cf sc F (sv, w) (sv', w')" if "Stop E sv w = (sv', w')"
| others: "srv_step E cf sc F (sv, w) (sv\<lparr>sv_conn_pool := pool\<rparr>, w')"
    if "list_all2 same_owner (sv_conn_pool sv) pool" and "F w' = F w"

inductive_cases srv_stepE: "srv_step E cf sc F (sv, w) (sv', w')"

lemma slots_ok_all2:
  assumes "slots_ok n live cs" and "list_all2 same_owner cs cs'"
  shows "slots_ok n live cs'"
proof -
  have len: "length cs' = length cs" using assms(2) by (simp add: list_all2_lengthD)
  have own: "tc_remote_name (cs' ! i) = tc_remote_name (cs ! i)" "tc_fd (cs' ! i) = tc_fd (cs ! i)" if "i < length cs" for i
    using assms(2) that by (simp_all add: list_all2_conv_all_nth same_owner_def)
  have nm: "named (cs' ! i) = named (cs ! i)" if "i < length cs" for i using own(1) [OF that] by (simp add: named_def)
  note S = slots_okD [OF assms(1)]
  show ?thesis unfolding slots_ok_def len
  proof (intro conjI allI impI)
    show "live \<le> length cs" by (rule S(1))
    show "named (cs' ! i)" if "i < live" for i using S(1) S(4) [OF that] nm [of i] that by simp
    show "named (cs' ! i)" if "i < j \<and> j < length cs \<and> named (cs' ! j)" for i j using that S(5) [of i j] nm [of i] nm [of j] by simp
    show "cstr (tc_remote_name (cs' ! i)) \<noteq> cstr (tc_remote_name (cs' ! j))"
      if "i < j \<and> j < length cs \<and> named (cs' ! i) \<and> named (cs' ! j)" for i j
      using that S(6) [of i j] nm [of i] nm [of j] own(1) [of i] own(1) [of j] by simp
  qed (use S(2,3) own in simp_all)
qed

lemma others_ok:
  assumes S: "srv_ok cf sc F R sv w" and same: "list_all2 same_owner (sv_conn_pool sv) pool" and w': "F w' = F w"
  shows "srv_ok cf sc F R (sv\<lparr>sv_conn_pool := pool\<rparr>) w'"
proof -
  have P: "pool_ok (NameSize cf) F (R + fds (sv_listenfd sv # map nc_fd (sv_new_conns sv))) (sv_conn_pool sv) (all_grps sv) w"
    using S by (simp add: srv_ok_def)
  have len: "length pool = length (sv_conn_pool sv)" using same by (simp add: list_all2_lengthD)
  have "list_all2 same_owner (group_view (sv_conn_pool sv) g) (group_view pool g)" if "g \<in> set (all_grps sv)" for g
  proof -
    have "q < length pool" if "q \<in> set (cg_conns g)" for q
    proof -
      have "q \<in> set (concat (map cg_conns (all_grps sv)))" using \<open>g \<in> set (all_grps sv)\<close> that by auto
      moreover have "set (concat (map cg_conns (all_grps sv))) = {..<length pool}" using P len by (simp add: pool_ok_def pool_inv_def)
      ultimately show ?thesis by blast
    qed
    then show ?thesis using list_all2_nthD2 [OF same] by (simp add: group_view_def list.rel_map list_all2_same)
  qed
  then have "pool_inv (NameSize cf) pool (all_grps sv)"
    using P len by (auto simp: pool_ok_def pool_inv_def intro: slots_ok_all2)
  moreover have "map tc_fd pool = map tc_fd (sv_conn_pool sv)"
    using same by (auto simp: list_all2_conv_all_nth same_owner_def intro!: nth_equalityI)
  ultimately show ?thesis using S P w' by (simp add: srv_ok_def pool_ok_def new_conns_ok_def)
qed

lemma srv_step_ok:
  assumes E: "env_ok E F" and S: "srv_ok cf sc F R sv w" and step: "srv_step E cf sc F (sv, w) (sv', w')"
  shows "srv_ok cf sc F R sv' w'"
  using step
proof cases
  case stop
  then show ?thesis using S Stop_spec [OF E S _ stop]
    by (cases "sv_listenfd sv = INVALID_TCP_SOCKET") (auto simp: Stop_def)
qed (use Start_ok [OF E S] PollCtl_ok [OF E S] PollTcp_ok [OF E S] PollShm_ok [OF E S] others_ok [OF S] in auto)

lemma srv_reach_ok:
  assumes E: "env_ok E F" and S: "srv_ok cf sc F R sv0 w0" and reach: "(srv_step E cf sc F)\<^sup>*\<^sup>* (sv0, w0) (sv, w)"
  shows "srv_ok cf sc F R sv w"
  using reach
proof (induction "(sv, w)" arbitrary: sv w rule: rtranclp_induct)
  case base
  then show ?case using S by simp
next
  case (step y)
  then show ?case using srv_step_ok [OF E] by (cases y) blast
qed


end
