(* ===== verification/Server_Props.thy ===== *)
theory Server_Props
  imports Server_Inv
begin

text \<open>
  Properties of the server: the invariant of its reachable states and the descriptors \<open>Stop\<close> gives
  back, the test of sequence numbers, \<open>Start\<close> after a failure, and what a login over TCP and the
  shared-memory probe establish. The sample environment at the beginning shows that the hypotheses can
  hold.
\<close>

section \<open>A concrete environment\<close>

text \<open>A kernel whose world is the list of open descriptors: every socket call succeeds, nothing arrives.\<close>

definition table_os :: "int list os" where
  "table_os =
     \<lparr>sys_send = (\<lambda>s buf w. (int (length buf), w)), sys_recv = (\<lambda>s n w. ((- 1, []), w)), sys_readv = (\<lambda>s ns w. ((- 1, []), w)),
      sys_errno = (\<lambda>w. TCP_ERR_AGAIN), sys_close = (\<lambda>s w. (0, remove1 s w)), sys_new = (\<lambda>n w. (replicate n 0, w)),
      sys_open = (\<lambda>f b w. (8, 8 # w)), sys_shm_open = (\<lambda>f b w. (9, 9 # w)), sys_ftruncate = (\<lambda>fd n w. (0, w)),
      sys_shm_unlink = (\<lambda>f w. (0, w)), sys_mkdir = (\<lambda>f w. (0, w)), sys_socket = (\<lambda>w. (5, 5 # w)),
      sys_accept = (\<lambda>s w. ((6, (0, 0)), 6 # w)), sys_bind = (\<lambda>s a w. (0, w)), sys_listen = (\<lambda>s n w. (0, w)),
      sys_connect = (\<lambda>s a w. (0, w)), sys_setsockopt = (\<lambda>s opt w. (0, w)), sys_getfl = (\<lambda>s w. (0, w)),
      sys_setfl = (\<lambda>s n w. (0, w)), sys_inet_pton = (\<lambda>s. Some 1)\<rparr>"

text \<open>Callbacks that accept every client into group 0 and do nothing else.\<close>

definition idle_cb :: "'w srv_cb" where
  "idle_cb =
     \<lparr>srv_OnSystemError = (\<lambda>m e w. w), srv_OnNewConnection = (\<lambda>a l r w. (0, r, w)),
      srv_OnClientFileError = (\<lambda>m e c w. (c, w)), srv_OnSeqNumberMismatch = (\<lambda>ns c w. (c, w)),
      srv_OnClientLogon = (\<lambda>a c w. (c, w)), srv_OnClientDisconnected = (\<lambda>m e c w. (c, w)),
      srv_OnClientMsg = (\<lambda>m c w. Some (c, w))\<rparr>"

definition table_env :: "int list srv_env" where
  "table_env =
     \<lparr>se_os = table_os,
      se_maps = \<lparr>map_ptcp = \<lparr>map_sizeof = 84, map_fd = (\<lambda>fd w. (Some (ptcp_zeroed 64), w)), unmap = (\<lambda>q w. w)\<rparr>,
                 map_shm = \<lparr>map_sizeof = 512, map_fd = (\<lambda>fd w. (Some (spsc_zeroed 256), w)), unmap = (\<lambda>q w. w)\<rparr>\<rparr>,
      se_probe = \<lparr>pm_map = \<lparr>map_sizeof = 16, map_fd = (\<lambda>fd w. (Some 0, w)), unmap = (\<lambda>q w. w)\<rparr>,
                  pm_token = (\<lambda>p w. 0), pm_ack = (\<lambda>p w. 0), pm_set_token = (\<lambda>p x w. w), pm_set_ack = (\<lambda>p x w. w)\<rparr>,
      se_cb = idle_cb, se_clock = (\<lambda>w. (0, w)), se_this = 4096\<rparr>"

lemma table_env_ok: "env_ok table_env mset"
  by (simp add: env_ok_def table_env_def cb_ok_def idle_cb_def keeps_def map_keeps_def fd_kernel_def io_keeps_def send_keeps_def recv_keeps_def opens_def table_os_def)

definition sample_srv_conf :: srv_conf where
  "sample_srv_conf = \<lparr>MaxNewConnections = 2, MaxShmConnsPerGrp = 2, MaxShmGrps = 1, MaxTcpConnsPerGrp = 2, MaxTcpGrps = 1,
     NewConnectionTimeout = 3\<rparr>"

definition sample_new_conn :: new_conn where
  "sample_new_conn = \<lparr>nc_time = 0, nc_fd = 77, nc_addr = (0, 0), nc_recvbuf = replicate 56 0\<rparr>"

definition sample_server :: server where
  "sample_server = fst (TcpShmServer table_os sample_conf sample_srv_conf ''server'' ''dir'' (replicate 15 (CHR 0x00)) sample_new_conn [1])"

lemma sample_server_new:
  "TcpShmServer (se_os table_env) sample_conf sample_srv_conf ''server'' ''dir'' (replicate 15 (CHR 0x00)) sample_new_conn [1]
     = (sample_server, [1])"
  by (simp add: sample_server_def TcpShmServer_def Let_def tcp_mkdir_def table_os_def table_env_def)

section \<open>Properties\<close>

text \<open>C21: The invariant of the server. Whatever sequence of \<open>Start\<close>, \<open>PollCtl\<close>, \<open>PollTcp\<close>, \<open>PollShm\<close> and \<open>Stop\<close>
  calls an application makes, and whatever clients and callbacks do meanwhile: every descriptor the
  server got from the kernel is open and held in exactly one place (as the listening socket, by a new
  connection, or by a connection of the pool), and in every group the live connections come first,
  are exactly those that hold a descriptor and have a client name, the named ones come before the
  unused ones, and no two have the same client name.\<close>

theorem server_invariant:
  assumes "env_ok E F" and "1 < NameSize cf" and "length junk = NameSize cf - 1" and "length (nc_recvbuf mem) = sizeof_recvbuf cf"
    and "TcpShmServer (se_os E) cf sc name dir junk mem w0 = (sv0, w1)" and "(srv_step E cf sc F)\<^sup>*\<^sup>* (sv0, w1) (sv, w)"
  shows "F w = F w0 + fds (sv_listenfd sv # map nc_fd (sv_new_conns sv)) + fds (map tc_fd (sv_conn_pool sv)) \<and>
         (\<forall>g \<in> set (all_grps sv). slots_ok (NameSize cf) (cg_live_cnt g) (group_view (sv_conn_pool sv) g))"
proof -
  have "fd_kernel (se_os E) F" using assms(1) by (simp add: env_ok_def)
  from TcpShmServer_ok [OF this assms(2-5)] have "srv_ok cf sc F (F w0) sv w" by (rule srv_reach_ok [OF assms(1) _ assms(6)])
  then show ?thesis unfolding srv_ok_def pool_ok_def pool_inv_def by blast
qed

text \<open>The sample server after \<open>Start\<close>, and after a \<open>PollCtl\<close> that accepted a connection.\<close>

definition sample_started :: server where
  "sample_started = fst (snd (Start table_env sample_conf ''127.0.0.1'' 12345 sample_server [1]))"

definition sample_polled :: server where
  "sample_polled = fst (the (PollCtl table_env sample_conf sample_srv_conf 7 sample_started [5, 1]))"

lemma sample_polled_fds: "sv_listenfd sample_polled = 5" "map nc_fd (sv_new_conns sample_polled) = [6, - 1]"
  by code_simp+

lemma sample_reach: "(srv_step table_env sample_conf sample_srv_conf mset)\<^sup>*\<^sup>* (sample_server, [1]) (sample_polled, [6, 5, 1])"
proof -
  have "fst (Start table_env sample_conf ''127.0.0.1'' 12345 sample_server [1])"
    "snd (snd (Start table_env sample_conf ''127.0.0.1'' 12345 sample_server [1])) = [5, 1]" by code_simp+
  then have "Start table_env sample_conf ''127.0.0.1'' 12345 sample_server [1] = (True, sample_started, [5, 1])"
    by (simp add: sample_started_def prod_eq_iff)
  moreover have "map_option snd (PollCtl table_env sample_conf sample_srv_conf 7 sample_started [5, 1]) = Some [6, 5, 1]" by code_simp
  then have "PollCtl table_env sample_conf sample_srv_conf 7 sample_started [5, 1] = Some (sample_polled, [6, 5, 1])"
    by (auto simp: sample_polled_def)
  ultimately show ?thesis
    using srv_step.start srv_step.poll_ctl by (meson rtranclp.rtrancl_into_rtrancl rtranclp.rtrancl_refl)
qed

lemma sample_junk: "1 < NameSize sample_conf" "length (replicate 15 (CHR 0x00)) = NameSize sample_conf - 1"
  "length (nc_recvbuf sample_new_conn) = sizeof_recvbuf sample_conf"
  by code_simp+

theorem server_invariant_witness:
  "mset [6, 5, 1] = mset [1] + fds [5, 6, - 1] + fds (map tc_fd (sv_conn_pool sample_polled)) \<and>
   slots_ok (NameSize sample_conf) 0 (group_view (sv_conn_pool sample_polled) (hd (all_grps sample_polled)))"
proof -
  have g: "hd (all_grps sample_polled) \<in> set (all_grps sample_polled)" "cg_live_cnt (hd (all_grps sample_polled)) = 0" by code_simp+
  from server_invariant [OF table_env_ok sample_junk sample_server_new sample_reach] g show ?thesis
    unfolding sample_polled_fds by (metis (no_types, lifting) sample_polled_fds list.simps(9))
qed

text \<open>C22: Stopping the server gives every descriptor back: after \<open>Stop\<close> of a started server in any
  reachable state, the process has exactly the descriptors open that it had before the server was
  constructed, and every group is empty again, with the invariant intact.\<close>

theorem Stop_closes_everything:
  assumes "env_ok E F" and "1 < NameSize cf" and "length junk = NameSize cf - 1" and "length (nc_recvbuf mem) = sizeof_recvbuf cf"
    and "TcpShmServer (se_os E) cf sc name dir junk mem w0 = (sv0, w1)" and "(srv_step E cf sc F)\<^sup>*\<^sup>* (sv0, w1) (sv, w)"
    and "sv_listenfd sv \<noteq> INVALID_TCP_SOCKET" and "Stop E sv w = (sv', w')"
  shows "F w' = F w0 \<and> sv_listenfd sv' = INVALID_TCP_SOCKET \<and>
         (\<forall>g \<in> set (all_grps sv'). cg_live_cnt g = 0 \<and> slots_ok (NameSize cf) 0 (group_view (sv_conn_pool sv') g))"
proof -
  have "fd_kernel (se_os E) F" using assms(1) by (simp add: env_ok_def)
  from TcpShmServer_ok [OF this assms(2-5)] have "srv_ok cf sc F (F w0) sv w" by (rule srv_reach_ok [OF assms(1) _ assms(6)])
  note S = Stop_spec [OF assms(1) this assms(7,8)]
  have live: "cg_live_cnt g = 0" if "g \<in> set (all_grps sv')" for g
    using that assms(7,8) by (auto simp: Stop_def Let_def all_grps_def split: prod.split_asm)
  from S have "\<forall>g \<in> set (all_grps sv'). slots_ok (NameSize cf) (cg_live_cnt g) (group_view (sv_conn_pool sv') g)"
    by (simp add: srv_ok_def pool_ok_def pool_inv_def)
  then show ?thesis using S live by auto
qed

theorem Stop_closes_everything_witness:
  "mset (snd (Stop table_env sample_polled [6, 5, 1])) = mset [1] \<and>
   sv_listenfd (fst (Stop table_env sample_polled [6, 5, 1])) = INVALID_TCP_SOCKET"
  using Stop_closes_everything [OF table_env_ok sample_junk sample_server_new sample_reach, of
      "fst (Stop table_env sample_polled [6, 5, 1])" "snd (Stop table_env sample_polled [6, 5, 1])"] sample_polled_fds
  by (simp add: INVALID_TCP_SOCKET_def)

lemma CheckAckInQueue_iff:
  assumes "unat (seq_end - seq_start) < 2 ^ 31"
  shows "CheckAckInQueue ack_seq seq_start seq_end \<longleftrightarrow> unat (ack_seq - seq_start) \<le> unat (seq_end - seq_start)"
proof -
  let ?a = "ack_seq - seq_start" and ?e = "seq_end - seq_start"
  have "seq_end - ack_seq = ?e - ?a" by simp
  then have "unat (seq_end - ack_seq) = (if unat ?a \<le> unat ?e then unat ?e - unat ?a else unat ?e + 2 ^ 32 - unat ?a)"
    by (simp only: unat_sub_if' [of ?e ?a]) simp
  then show ?thesis
    using assms sdiff_nonneg_unat [of ack_seq seq_start] sdiff_nonneg_unat [of seq_end ack_seq]
    by (auto simp: CheckAckInQueue_def sdiff_def split: if_splits)
qed

text \<open>C27: \<open>CheckAckInQueue\<close> is the test \<open>seq_start \<le> ack_seq \<le> seq_end\<close> on the circle of 32-bit sequence numbers:
  for a range of less than \<open>2\<^sup>3\<^sup>1\<close> numbers, wherever it lies and also when it wraps, it accepts exactly
  the numbers of the range including its end.\<close>

theorem CheckAckInQueue_exact:
  assumes "unat (seq_end - seq_start) < 2 ^ 31"
  shows "CheckAckInQueue ack_seq seq_start seq_end \<longleftrightarrow> (\<exists>k \<le> unat (seq_end - seq_start). ack_seq = seq_start + word_of_nat k)"
  unfolding CheckAckInQueue_iff [OF assms]
proof
  let ?a = "ack_seq - seq_start" and ?e = "seq_end - seq_start"
  show "\<exists>k \<le> unat ?e. ack_seq = seq_start + word_of_nat k" if "unat ?a \<le> unat ?e"
    using that by (intro exI [of _ "unat ?a"]) simp
  assume "\<exists>k \<le> unat ?e. ack_seq = seq_start + word_of_nat k"
  then obtain k where "k \<le> unat ?e" "?a = word_of_nat k" by auto
  then show "unat ?a \<le> unat ?e" using unat_of_nat_exact [of k, where ?'a = 32] unat_u32_less [of ?e] by simp
qed

theorem CheckAckInQueue_exact_witness:
  "CheckAckInQueue 1 (- 2) 3 \<longleftrightarrow> (\<exists>k \<le> unat (3 - (- 2) :: u32). (1 :: u32) = - 2 + word_of_nat k)"
  by (rule CheckAckInQueue_exact) simp

text \<open>C40: A \<open>Start\<close> that fails after the socket was made keeps the socket as the listening one: from then
  on \<open>Start\<close> reports \<open>already started\<close> and fails, whatever address it is given, until \<open>Stop\<close> is called.\<close>

theorem Start_failure_blocks_restart:
  assumes "Start E cf ip port sv w = (False, sv', w')" and "sv_listenfd sv = INVALID_TCP_SOCKET"
    and "fst (sys_socket (se_os E) w) \<noteq> INVALID_TCP_SOCKET"
  shows "Start E cf ip' port' sv' v = (False, sv', srv_OnSystemError (se_cb E) ''already started'' 0 v)"
proof -
  have "sv_listenfd sv' = fst (sys_socket (se_os E) w)"
    using assms(1,2) by (auto simp: Start_def tcp_socket_def Let_def split: prod.split_asm if_split_asm)
  then show ?thesis using assms(3) by (simp add: Start_def OnSystemError_def)
qed

definition busy_env :: "int list srv_env" where
  "busy_env = table_env\<lparr>se_os := table_os\<lparr>sys_bind := \<lambda>s a w. (- 1, w)\<rparr>\<rparr>"

theorem Start_failure_blocks_restart_witness:
  "\<exists>sv' w'. Start busy_env sample_conf ''127.0.0.1'' 80 sample_server [] = (False, sv', w') \<and>
     Start busy_env sample_conf ''127.0.0.1'' 8080 sv' w' = (False, sv', w')"
proof -
  obtain sv' w' where s: "Start busy_env sample_conf ''127.0.0.1'' 80 sample_server [] = (False, sv', w')"
  proof -
    have "\<not> fst (Start busy_env sample_conf ''127.0.0.1'' 80 sample_server [])" by code_simp
    then show ?thesis using that by (metis prod.exhaust_sel)
  qed
  have "sv_listenfd sample_server = INVALID_TCP_SOCKET" "fst (sys_socket (se_os busy_env) []) \<noteq> INVALID_TCP_SOCKET" by code_simp+
  from Start_failure_blocks_restart [OF s this, of "''127.0.0.1''" 8080 w'] s show ?thesis
    by (auto simp: busy_env_def table_env_def idle_cb_def)
qed


section \<open>A login over TCP\<close>

lemma ptcp_rel_count:
  assumes "ptcp_rel Bytes wl hl q ms"
  shows "length ms < 2 ^ 29"
proof -
  have ne: "\<forall>m \<in> set ms. m \<noteq> []" using assms by (auto simp: ptcp_rel_def list_all_iff dest: wf_msg_nonempty)
  then have "length ms \<le> length (concat ms)"
  proof (induction ms)
    case (Cons m ms)
    then show ?case by (cases m) auto
  qed simp
  also have "\<dots> \<le> unat (PTCP_BLK_CNT Bytes)" using ptcp_rel_length [OF assms] ptcp_relD [OF assms] by linarith
  finally show ?thesis using PTCP_BLK_CNT_bound [of Bytes] by simp
qed

lemma pc_Open_resumes:
  assumes os: "send_os os" and q: "pc_q c = Some q" "ptcp_rel (TcpQueueSize cf) (ToLittleEndian cf) (HostLittle cf) q ms"
    and k: "k = unat (ack - pq_read_seq_num q)" "k \<le> length ms"
  obtains c' w' q' where "pc_Open os cf fd ack now c w = Some (c', w')" and "pc_q c' = Some q'"
    and "ptcp_rel (TcpQueueSize cf) (ToLittleEndian cf) (HostLittle cf) q' (drop k ms)"
    and "pq_read_seq_num q' = ack" and "pq_ack_seq_num q' = pq_ack_seq_num q"
proof -
  have "k < 2 ^ 31" using k(2) ptcp_rel_count [OF q(2)] by simp
  from ptcp_LoginAck_rel [OF q(2) k(1) this k(2)] obtain q1 where
    q1: "ptcp_LoginAck (ToLittleEndian cf) (HostLittle cf) ack q = Some q1"
      "ptcp_rel (TcpQueueSize cf) (ToLittleEndian cf) (HostLittle cf) q1 (drop k ms)" "pq_read_seq_num q1 = ack" "pq_ack_seq_num q1 = pq_ack_seq_num q"
    by blast
  let ?c = "c\<lparr>pc_sockfd := fd, pc_fd_to_close := fd, pc_writeidx := 0, pc_readidx := 0,
                pc_nextmsg_idx := 0, pc_recv_time := now, pc_send_time := now, pc_now := now\<rparr>"
  have "pc_q (?c\<lparr>pc_q := Some q1\<rparr>) = Some q1" by simp
  from pc_SendPending_keeps [OF os this q1(2), of w] obtain ok c2 w2 q2 where
    s: "pc_SendPending os cf (?c\<lparr>pc_q := Some q1\<rparr>) w = Some (ok, c2, w2)" "pc_q c2 = Some q2"
      "ptcp_rel (TcpQueueSize cf) (ToLittleEndian cf) (HostLittle cf) q2 (drop k ms)"
      "pq_read_seq_num q2 = ack" "pq_ack_seq_num q2 = pq_ack_seq_num q"
    using q1(3,4) by metis
  obtain buf w3 where nw: "sys_new os (unat (TcpRecvBufInitSize cf)) w2 = (buf, w3)" by fastforce
  show ?thesis
  proof (cases "pc_recvbuf_size c2 = 0")
    case True
    then show ?thesis using that [of "c2\<lparr>pc_recvbuf_size := TcpRecvBufInitSize cf, pc_recvbuf := buf\<rparr>" w3 q2] s q q1(1) nw
      by (simp add: pc_Open_def Let_def)
  next
    case False
    then show ?thesis using that [of c2 w2 q2] s q q1(1) by (simp add: pc_Open_def Let_def)
  qed
qed

text \<open>The sequence numbers a connection with a well-formed TCP queue presents.\<close>

lemma login_seqs_tcp:
  assumes "strneq (lm_last_server_name login) sname (NameSize cf)" and "tc_sendq c = None" and "pc_q (tc_ptcp_conn c) = Some q"
    and "ptcp_rel (TcpQueueSize cf) (ToLittleEndian cf) (HostLittle cf) q ms" and "acks_ok (ToLittleEndian cf) (HostLittle cf) q ms"
  shows "login_seqs cf sname h login c =
    Some (True, c, (pq_ack_seq_num q, pq_read_seq_num q, pq_read_seq_num q + word_of_nat (length ms)),
          (hdr_ack_seq h, lm_client_seq_start login, lm_client_seq_end login))"
  using assms ptcp_sanity_live [of "TcpQueueSize cf" "ToLittleEndian cf" "HostLittle cf" q ms]
  by (simp add: login_seqs_def tc_GetSeq_def pc_GetSeq_def ptcp_MyAck_def ptcp_rel_live)

lemma login_range:
  assumes "ptcp_rel (TcpQueueSize cf) wl hl q ms"
  shows "CheckAckInQueue ack (pq_read_seq_num q) (pq_read_seq_num q + word_of_nat (length ms)) \<longleftrightarrow>
    unat (ack - pq_read_seq_num q) \<le> length ms"
proof -
  have "unat (word_of_nat (length ms) :: u32) = length ms" using ptcp_rel_count [OF assms] by (simp add: unat_of_nat_exact)
  then show ?thesis using CheckAckInQueue_iff [of "pq_read_seq_num q + word_of_nat (length ms)" "pq_read_seq_num q" ack] ptcp_rel_count [OF assms]
    by simp
qed

text \<open>\<open>HandleLogin\<close> on such a connection, with the two outcomes of the test of the sequence numbers.\<close>

definition login_refused :: "'w srv_env \<Rightarrow> conf \<Rightarrow> msg_header \<Rightarrow> login_rsp \<Rightarrow> new_conn \<Rightarrow> nat \<Rightarrow> u32 list \<Rightarrow> server \<Rightarrow> 'w \<Rightarrow>
    (new_conn \<times> server \<times> 'w) option" where
  "login_refused E cf hdr rsp conn p seqs sv w =
     (case srv_OnSeqNumberMismatch (se_cb E) seqs (sv_conn_pool sv ! p) w of (c, w1) \<Rightarrow>
        Some (conn, sv_set_conn p c sv, snd (SendLoginRsp (se_os E) cf (nc_fd conn) hdr (rsp\<lparr>lr_status := 1\<rparr>) w1)))"

definition login_accepted :: "'w srv_env \<Rightarrow> conf \<Rightarrow> int \<Rightarrow> bool \<Rightarrow> nat \<Rightarrow> nat \<Rightarrow> new_conn \<Rightarrow> nat \<Rightarrow> u32 \<Rightarrow> server \<Rightarrow> 'w \<Rightarrow>
    (new_conn \<times> server \<times> 'w) option" where
  "login_accepted E cf now shm grpid i conn p ack sv w = do {
     (c, w1) \<leftarrow> tc_Open (se_os E) cf (nc_fd conn) ack now (sv_conn_pool sv ! p) (snd (tcp_set_nonblocking (se_os E) (nc_fd conn) w));
     let grp = sv_grps shm sv ! grpid;
     let (c2, w2) = srv_OnClientLogon (se_cb E) (nc_addr conn) c w1;
     Some (conn\<lparr>nc_fd := INVALID_TCP_SOCKET\<rparr>,
       sv_set_conn p c2 (sv_set_grps shm ((sv_grps shm sv)[grpid :=
         \<lparr>cg_live_cnt = Suc (cg_live_cnt grp), cg_conns = swap_conns i (cg_live_cnt grp) (cg_conns grp)\<rparr>]) sv), w2)
   }"

lemma login_conn_tcp:
  assumes "lm_use_shm login = 0" and name: "strneq (lm_last_server_name login) (sv_server_name sv) (NameSize cf)"
    and p: "p = cg_conns (sv_grps shm sv ! grpid) ! i"
    and q: "tc_sendq (sv_conn_pool sv ! p) = None" "pc_q (tc_ptcp_conn (sv_conn_pool sv ! p)) = Some q"
      "ptcp_rel (TcpQueueSize cf) (ToLittleEndian cf) (HostLittle cf) q ms" "acks_ok (ToLittleEndian cf) (HostLittle cf) q ms"
    and e: "e = pq_read_seq_num q + word_of_nat (length ms)" and hdr: "hdr = (login_hdr cf)\<lparr>hdr_ack_seq := pq_ack_seq_num q\<rparr>"
    and rsp': "rsp' = rsp\<lparr>lr_server_seq_start := pq_read_seq_num q, lr_server_seq_end := e\<rparr>"
  shows "login_conn E cf now shm grpid i h login rsp conn sv w =
    (if CheckAckInQueue (hdr_ack_seq h) (pq_read_seq_num q) e \<and>
        CheckAckInQueue (pq_ack_seq_num q) (lm_client_seq_start login) (lm_client_seq_end login)
     then case SendLoginRsp (se_os E) cf (nc_fd conn) hdr (rsp'\<lparr>lr_status := 0\<rparr>) w of (sent, w1) \<Rightarrow>
            if sent then login_accepted E cf now shm grpid i conn p (hdr_ack_seq h) sv w1
            else Some (conn, sv_set_conn p (sv_conn_pool sv ! p) sv, w1)
     else login_refused E cf hdr rsp' conn p [pq_ack_seq_num q, pq_read_seq_num q, e,
            hdr_ack_seq h, lm_client_seq_start login, lm_client_seq_end login] sv w)"
proof -
  have "tc_OpenFile (se_os E) (se_maps E) (lm_use_shm login \<noteq> 0) (sv_conn_pool sv ! p) w = (Inl (), sv_conn_pool sv ! p, w)"
    using assms(1) q by (simp add: tc_OpenFile_def pc_OpenFile_def)
  then show ?thesis
    by (auto simp: login_conn_def Let_def login_seqs_tcp [OF name q, of h] e hdr rsp' login_refused_def login_accepted_def
        split: prod.split simp flip: p)
qed

lemma login_accepted_resumes:
  assumes os: "send_os (se_os E)" and p: "p < length (sv_conn_pool sv)"
    and q: "pc_q (tc_ptcp_conn (sv_conn_pool sv ! p)) = Some q" "ptcp_rel (TcpQueueSize cf) (ToLittleEndian cf) (HostLittle cf) q ms"
    and k: "k = unat (ack - pq_read_seq_num q)" "k \<le> length ms"
  obtains sv' w' c q' v where
    "login_accepted E cf now shm grpid i conn p ack sv w = Some (conn\<lparr>nc_fd := INVALID_TCP_SOCKET\<rparr>, sv', w')"
    and "pc_q (tc_ptcp_conn c) = Some q'" and "pq_read_seq_num q' = ack" and "pq_ack_seq_num q' = pq_ack_seq_num q"
    and "ptcp_rel (TcpQueueSize cf) (ToLittleEndian cf) (HostLittle cf) q' (drop k ms)"
    and "sv_conn_pool sv' ! p = fst (srv_OnClientLogon (se_cb E) (nc_addr conn) c v)"
proof -
  let ?c = "sv_conn_pool sv ! p" and ?w = "snd (tcp_set_nonblocking (se_os E) (nc_fd conn) w)"
  obtain pc w3 q' where o: "pc_Open (se_os E) cf (nc_fd conn) ack now (tc_ptcp_conn ?c) ?w = Some (pc, w3)" "pc_q pc = Some q'"
    "ptcp_rel (TcpQueueSize cf) (ToLittleEndian cf) (HostLittle cf) q' (drop k ms)" "pq_read_seq_num q' = ack"
    "pq_ack_seq_num q' = pq_ack_seq_num q"
    by (rule pc_Open_resumes [OF os q k])
  obtain c4 w4 where cb: "srv_OnClientLogon (se_cb E) (nc_addr conn) (?c\<lparr>tc_ptcp_conn := pc\<rparr>) w3 = (c4, w4)" by fastforce
  obtain sv' where run: "login_accepted E cf now shm grpid i conn p ack sv w = Some (conn\<lparr>nc_fd := INVALID_TCP_SOCKET\<rparr>, sv', w4)"
    and sv': "sv_conn_pool sv' = (sv_conn_pool sv)[p := c4]"
    by (simp add: login_accepted_def tc_Open_def o(1) cb Let_def)
  show ?thesis by (rule that [OF run, of "?c\<lparr>tc_ptcp_conn := pc\<rparr>" q' w3]) (use o cb p sv' in simp_all)
qed

text \<open>
  What the two sides have agreed on when connection \<open>c\<close> starts, given the queue \<open>q\<close> with messages \<open>ms\<close>
  before the login: the client has received \<open>k\<close> of the messages and the server \<open>j\<close> of the client's, both
  within what the other side still has, and \<open>c\<close> holds the remaining messages.
\<close>

definition session_agreed :: "conf \<Rightarrow> msg_header \<Rightarrow> login_msg \<Rightarrow> ptcp_queue \<Rightarrow> msg_header list list \<Rightarrow> tcpshm_conn \<Rightarrow> bool" where
  "session_agreed cf h login q ms c \<longleftrightarrow>
     (\<exists>k j q'. k \<le> length ms \<and> hdr_ack_seq h = pq_read_seq_num q + word_of_nat k \<and>
        j \<le> unat (lm_client_seq_end login - lm_client_seq_start login) \<and> pq_ack_seq_num q = lm_client_seq_start login + word_of_nat j \<and>
        pc_q (tc_ptcp_conn c) = Some q' \<and> pq_read_seq_num q' = hdr_ack_seq h \<and> pq_ack_seq_num q' = pq_ack_seq_num q \<and>
        ptcp_rel (TcpQueueSize cf) (ToLittleEndian cf) (HostLittle cf) q' (drop k ms))"

text \<open>Both numbers are in range and the response was sent.\<close>

lemma login_accepted_agrees:
  assumes os: "send_os (se_os E)" and p: "p < length (sv_conn_pool sv)"
    and q: "pc_q (tc_ptcp_conn (sv_conn_pool sv ! p)) = Some q"
      "ptcp_rel (TcpQueueSize cf) (ToLittleEndian cf) (HostLittle cf) q ms"
    and range: "unat (lm_client_seq_end login - lm_client_seq_start login) < 2 ^ 31"
    and acks: "CheckAckInQueue (hdr_ack_seq h) (pq_read_seq_num q) (pq_read_seq_num q + word_of_nat (length ms))"
      "CheckAckInQueue (pq_ack_seq_num q) (lm_client_seq_start login) (lm_client_seq_end login)"
  obtains sv' w' c v where
    "login_accepted E cf now shm grpid i conn p (hdr_ack_seq h) sv w = Some (conn\<lparr>nc_fd := INVALID_TCP_SOCKET\<rparr>, sv', w')"
    and "session_agreed cf h login q ms c" and "sv_conn_pool sv' ! p = fst (srv_OnClientLogon (se_cb E) (nc_addr conn) c v)"
proof -
  define k where "k = unat (hdr_ack_seq h - pq_read_seq_num q)"
  have k: "k \<le> length ms" using acks(1) login_range [OF q(2)] by (simp add: k_def)
  obtain sv' w' c q' v where A: "login_accepted E cf now shm grpid i conn p (hdr_ack_seq h) sv w = Some (conn\<lparr>nc_fd := INVALID_TCP_SOCKET\<rparr>, sv', w')"
    and c: "pc_q (tc_ptcp_conn c) = Some q'" "pq_read_seq_num q' = hdr_ack_seq h" "pq_ack_seq_num q' = pq_ack_seq_num q"
    "ptcp_rel (TcpQueueSize cf) (ToLittleEndian cf) (HostLittle cf) q' (drop k ms)"
    and pool: "sv_conn_pool sv' ! p = fst (srv_OnClientLogon (se_cb E) (nc_addr conn) c v)"
    by (rule login_accepted_resumes [OF os p q(1,2) k_def k])
  have "session_agreed cf h login q ms c" unfolding session_agreed_def
    by (rule exI [of _ k], rule exI [of _ "unat (pq_ack_seq_num q - lm_client_seq_start login)"], rule exI [of _ q'])
      (use acks(2) CheckAckInQueue_iff [OF range] c k in \<open>simp add: k_def\<close>)
  with A show ?thesis using pool by (rule that)
qed

text \<open>C24: What a login over TCP agrees on. For a client that was here before and a connection whose queue file
  holds the messages \<open>ms\<close>, \<open>HandleLogin\<close> ends; if it takes the connection over, then the number of
  messages the client says it has received lies in the queue's range, the number the server has
  received lies in the client's range, and the connection starts with exactly those messages that the
  client has not received, in order, as its unacknowledged ones. Otherwise the queue file is as it was
  and the descriptor is still the new connection's.\<close>

theorem login_resumes_session:
  assumes os: "send_os (se_os E)" and tcp: "lm_use_shm login = 0"
    and name: "strneq (lm_last_server_name login) (sv_server_name sv) (NameSize cf)"
    and p: "p = cg_conns (sv_grps shm sv ! grpid) ! i" "p < length (sv_conn_pool sv)"
    and q: "tc_sendq (sv_conn_pool sv ! p) = None" "pc_q (tc_ptcp_conn (sv_conn_pool sv ! p)) = Some q"
      "ptcp_rel (TcpQueueSize cf) (ToLittleEndian cf) (HostLittle cf) q ms" "acks_ok (ToLittleEndian cf) (HostLittle cf) q ms"
    and range: "unat (lm_client_seq_end login - lm_client_seq_start login) < 2 ^ 31"
    and fd: "nc_fd conn \<noteq> INVALID_TCP_SOCKET"
  shows "\<exists>conn' sv' w' c v. login_conn E cf now shm grpid i h login rsp conn sv w = Some (conn', sv', w') \<and>
    (if nc_fd conn' = INVALID_TCP_SOCKET
     then session_agreed cf h login q ms c \<and> sv_conn_pool sv' ! p = fst (srv_OnClientLogon (se_cb E) (nc_addr conn) c v)
     else conn' = conn \<and> pc_q (tc_ptcp_conn c) = Some q \<and>
          (sv_conn_pool sv' ! p = c \<or> sv_conn_pool sv' ! p = fst (srv_OnSeqNumberMismatch (se_cb E)
             [pq_ack_seq_num q, pq_read_seq_num q, pq_read_seq_num q + word_of_nat (length ms),
              hdr_ack_seq h, lm_client_seq_start login, lm_client_seq_end login] c v)))"
proof -
  let ?c = "sv_conn_pool sv ! p" and ?e = "pq_read_seq_num q + word_of_nat (length ms)"
  let ?hdr = "(login_hdr cf)\<lparr>hdr_ack_seq := pq_ack_seq_num q\<rparr>"
  let ?rsp = "rsp\<lparr>lr_server_seq_start := pq_read_seq_num q, lr_server_seq_end := ?e\<rparr>"
  note run = login_conn_tcp [OF tcp name p(1) q refl refl refl]
  obtain sent w1 where s: "SendLoginRsp (se_os E) cf (nc_fd conn) ?hdr (?rsp\<lparr>lr_status := 0\<rparr>) w = (sent, w1)" by fastforce
  consider "\<not> (CheckAckInQueue (hdr_ack_seq h) (pq_read_seq_num q) ?e \<and>
      CheckAckInQueue (pq_ack_seq_num q) (lm_client_seq_start login) (lm_client_seq_end login))"
    | "CheckAckInQueue (hdr_ack_seq h) (pq_read_seq_num q) ?e"
      "CheckAckInQueue (pq_ack_seq_num q) (lm_client_seq_start login) (lm_client_seq_end login)" by blast
  then show ?thesis
  proof cases
    case 1
    obtain c3 w3 where cb: "srv_OnSeqNumberMismatch (se_cb E) [pq_ack_seq_num q, pq_read_seq_num q, ?e, hdr_ack_seq h,
        lm_client_seq_start login, lm_client_seq_end login] ?c w = (c3, w3)" by fastforce
    obtain w' where "login_conn E cf now shm grpid i h login rsp conn sv w = Some (conn, sv_set_conn p c3 sv, w')"
      using 1 by (simp add: run login_refused_def cb)
    then show ?thesis using fd q(2) p(2) cb
      by (intro exI [of _ conn] exI [of _ "sv_set_conn p c3 sv"] exI [of _ w'] exI [of _ ?c] exI [of _ w]) simp
  next
    case 2
    show ?thesis
    proof (cases sent)
      case False
      have "login_conn E cf now shm grpid i h login rsp conn sv w = Some (conn, sv_set_conn p ?c sv, w1)"
        using 2 s False by (simp add: run)
      then show ?thesis using p(2) fd q(2)
        by (intro exI [of _ conn] exI [of _ "sv_set_conn p ?c sv"] exI [of _ w1] exI [of _ ?c] exI [of _ w]) simp
    next
      case True
      obtain sv' w' c v where A: "login_accepted E cf now shm grpid i conn p (hdr_ack_seq h) sv w1 = Some (conn\<lparr>nc_fd := INVALID_TCP_SOCKET\<rparr>, sv', w')"
        and agreed: "session_agreed cf h login q ms c" and pool: "sv_conn_pool sv' ! p = fst (srv_OnClientLogon (se_cb E) (nc_addr conn) c v)"
        by (rule login_accepted_agrees [OF os p(2) q(2,3) range 2])
      have "login_conn E cf now shm grpid i h login rsp conn sv w = Some (conn\<lparr>nc_fd := INVALID_TCP_SOCKET\<rparr>, sv', w')"
        using 2 s True A by (simp add: run)
      with agreed show ?thesis using pool
        by (intro exI [of _ "conn\<lparr>nc_fd := INVALID_TCP_SOCKET\<rparr>"] exI [of _ sv'] exI [of _ w'] exI [of _ c] exI [of _ v]) simp
    qed
  qed
qed

text \<open>A server whose first TCP connection has one message in its queue, and the login of a client that has received it.\<close>

definition script_env :: "script_world srv_env" where
  "script_env =
     \<lparr>se_os = script_os, se_maps = sample_maps,
      se_probe = \<lparr>pm_map = \<lparr>map_sizeof = 16, map_fd = (\<lambda>fd w. (Some 0, w)), unmap = (\<lambda>q w. w)\<rparr>,
                  pm_token = (\<lambda>p w. 0), pm_ack = (\<lambda>p w. 0), pm_set_token = (\<lambda>p x w. w), pm_set_ack = (\<lambda>p x w. w)\<rparr>,
      se_cb = idle_cb, se_clock = (\<lambda>w. (0, w)), se_this = 4096\<rparr>"

definition resumed_conf :: conf where
  "resumed_conf = same_endian_conf\<lparr>TcpQueueSize := 32\<rparr>"

definition resumed_server :: server where
  "resumed_server = sample_server\<lparr>sv_conn_pool := (sv_conn_pool sample_server)[2 :=
     (sv_conn_pool sample_server ! 2)\<lparr>tc_ptcp_conn := (PTCPConnection resumed_conf)\<lparr>pc_q := Some sample_queue\<rparr>\<rparr>]\<rparr>"

definition resumed_login :: login_msg where
  "resumed_login = sample_login\<lparr>lm_client_seq_start := 0, lm_client_seq_end := 0, lm_last_server_name := sv_server_name sample_server\<rparr>"

theorem login_resumes_session_witness:
  "\<exists>conn' sv' w'. login_conn script_env resumed_conf 9 False 0 0 zero_header resumed_login sample_rsp sample_new_conn resumed_server
       \<lparr>sw_out = [], sw_inp = [], sw_limits = [100], sw_closed = []\<rparr> = Some (conn', sv', w') \<and>
     session_agreed resumed_conf zero_header resumed_login sample_queue [sample_msg] (sv_conn_pool sv' ! 2)"
proof -
  let ?w = "\<lparr>sw_out = [], sw_inp = [], sw_limits = [100], sw_closed = []\<rparr>"
  let ?run = "login_conn script_env resumed_conf 9 False 0 0 zero_header resumed_login sample_rsp sample_new_conn resumed_server ?w"
  have os: "send_os (se_os script_env)" by (simp add: script_env_def script_send_os)
  have cf: "TcpQueueSize resumed_conf = 32" "ToLittleEndian resumed_conf = True" "HostLittle resumed_conf = True"
    by (simp_all add: resumed_conf_def same_endian_conf_def sample_conf_def)
  have q: "ptcp_rel (TcpQueueSize resumed_conf) (ToLittleEndian resumed_conf) (HostLittle resumed_conf) sample_queue [sample_msg]"
    "acks_ok (ToLittleEndian resumed_conf) (HostLittle resumed_conf) sample_queue [sample_msg]"
    unfolding cf by (rule sample_queue_rel) code_simp
  have side: "lm_use_shm resumed_login = 0"
    "strneq (lm_last_server_name resumed_login) (sv_server_name resumed_server) (NameSize resumed_conf)"
    "2 = cg_conns (sv_grps False resumed_server ! 0) ! 0" "2 < length (sv_conn_pool resumed_server)"
    "tc_sendq (sv_conn_pool resumed_server ! 2) = None"
    "pc_q (tc_ptcp_conn (sv_conn_pool resumed_server ! 2)) = Some sample_queue"
    "nc_fd sample_new_conn \<noteq> INVALID_TCP_SOCKET"
    by code_simp+
  have range: "unat (lm_client_seq_end resumed_login - lm_client_seq_start resumed_login) < 2 ^ 31" by (simp add: resumed_login_def)
  have moved: "map_option (\<lambda>r. nc_fd (fst r)) ?run = Some INVALID_TCP_SOCKET" by code_simp
  obtain conn' sv' w' c v where r: "?run = Some (conn', sv', w')"
    "if nc_fd conn' = INVALID_TCP_SOCKET
     then session_agreed resumed_conf zero_header resumed_login sample_queue [sample_msg] c \<and>
          sv_conn_pool sv' ! 2 = fst (srv_OnClientLogon (se_cb script_env) (nc_addr sample_new_conn) c v)
     else conn' = sample_new_conn \<and> pc_q (tc_ptcp_conn c) = Some sample_queue \<and>
          (sv_conn_pool sv' ! 2 = c \<or> sv_conn_pool sv' ! 2 = fst (srv_OnSeqNumberMismatch (se_cb script_env)
             [pq_ack_seq_num sample_queue, pq_read_seq_num sample_queue, pq_read_seq_num sample_queue + word_of_nat (length [sample_msg]),
              hdr_ack_seq zero_header, lm_client_seq_start resumed_login, lm_client_seq_end resumed_login] c v))"
    using login_resumes_session [OF os side(1-6) q range side(7), of 9 zero_header sample_rsp ?w] by blast
  have "nc_fd conn' = INVALID_TCP_SOCKET" using moved unfolding r(1) by simp
  then have "session_agreed resumed_conf zero_header resumed_login sample_queue [sample_msg] (sv_conn_pool sv' ! 2)"
    using r(2) by (simp add: script_env_def idle_cb_def)
  then show ?thesis using r(1) by blast
qed


end
