(* ===== verification/Client_Props.thy ===== *)
theory Client_Props
  imports Tcpshm_Client Server_Props
begin

text \<open>
  Properties of the client: the descriptors it owns through every sequence of calls
  (\<open>client_invariant\<close>), and what the end of a login leaves in the connection, for the last server
  (\<open>logged_on_resumes\<close>) and for another one (\<open>logged_on_new_server\<close>). The assumptions on the kernel and
  the callbacks are those of the server, stated for the client's environment.
\<close>

section \<open>What the client relies on\<close>

definition cl_cb_ok :: "'w cl_cb \<Rightarrow> ('w \<Rightarrow> 'b) \<Rightarrow> bool" where
  "cl_cb_ok cb F \<longleftrightarrow>
     (\<forall>m e w. F (cl_OnSystemError cb m e w) = F w) \<and> (\<forall>r w. F (cl_OnLoginReject cb r w) = F w) \<and>
     (\<forall>ns w. F (cl_OnSeqNumberMismatch cb ns w) = F w) \<and>
     (\<forall>r c w. keeps F c w (snd (cl_OnLoginSuccess cb r c w))) \<and>
     (\<forall>m e c w. keeps F c w (cl_OnDisconnected cb m e c w)) \<and>
     (\<forall>m c w r. cl_OnServerMsg cb m c w = Some r \<longrightarrow> keeps F c w r)"

definition cl_env_ok :: "'w cl_env \<Rightarrow> ('w \<Rightarrow> int multiset) \<Rightarrow> bool" where
  "cl_env_ok E F \<longleftrightarrow>
     fd_kernel (ce_os E) F \<and> map_keeps (map_ptcp (ce_maps E)) F \<and> map_keeps (map_shm (ce_maps E)) F \<and>
     map_keeps (ce_name_map E) F \<and> map_keeps (pm_map (ce_probe E)) F \<and>
     (\<forall>p x w. F (pm_set_ack (ce_probe E) p x w) = F w) \<and> cl_cb_ok (ce_cb E) F"

lemma cl_env_okD:
  assumes "cl_env_ok E F"
  shows "fd_kernel (ce_os E) F" and "io_keeps (ce_os E) F" and "map_keeps (map_ptcp (ce_maps E)) F" and "map_keeps (map_shm (ce_maps E)) F"
    and "map_keeps (ce_name_map E) F" and "map_keeps (pm_map (ce_probe E)) F" and "F (pm_set_ack (ce_probe E) p x w) = F w"
    and "cl_cb_ok (ce_cb E) F"
  using assms by (simp_all add: cl_env_ok_def fd_kernel_def)

lemma cl_cb_okD:
  assumes "cl_cb_ok cb F"
  shows "F (cl_OnSystemError cb m e w) = F w" and "F (cl_OnLoginReject cb r w) = F w" and "F (cl_OnSeqNumberMismatch cb ns w) = F w"
    and "cl_OnLoginSuccess cb r c w = (now, c', w') \<Longrightarrow> same_owner c c' \<and> F w' = F w"
    and "cl_OnDisconnected cb msg e c w = (c', w') \<Longrightarrow> same_owner c c' \<and> F w' = F w"
    and "cl_OnServerMsg cb ptr c w = Some (c', w') \<Longrightarrow> same_owner c c' \<and> F w' = F w"
proof -
  show "F (cl_OnSystemError cb m e w) = F w" "F (cl_OnLoginReject cb r w) = F w" "F (cl_OnSeqNumberMismatch cb ns w) = F w"
    using assms by (simp_all add: cl_cb_ok_def)
  have K: "keeps F c w (snd (cl_OnLoginSuccess cb r c w))" "keeps F c w (cl_OnDisconnected cb msg e c w)"
    "cl_OnServerMsg cb ptr c w = Some (c', w') \<Longrightarrow> keeps F c w (c', w')"
    using assms by (simp_all add: cl_cb_ok_def del: split_paired_All)
  show "cl_OnLoginSuccess cb r c w = (now, c', w') \<Longrightarrow> same_owner c c' \<and> F w' = F w"
    "cl_OnDisconnected cb msg e c w = (c', w') \<Longrightarrow> same_owner c c' \<and> F w' = F w"
    "cl_OnServerMsg cb ptr c w = Some (c', w') \<Longrightarrow> same_owner c c' \<and> F w' = F w"
    using K by (simp_all add: keeps_def)
qed

lemma my_mmap_existing_fds:
  assumes k: "fd_kernel os F" and T: "map_keeps T F" and run: "my_mmap_existing os T f shm w = (r, w')"
  shows "F w' = F w"
proof -
  obtain fd w1 where o: "(if shm then sys_shm_open os f False w else sys_open os f False w) = (fd, w1)" by fastforce
  have w1: "F w1 = (if fd = - 1 then F w else add_mset fd (F w))" using o fd_kernelD(3,4) [OF k] by (cases shm) auto
  show ?thesis
  proof (cases "fd = - 1")
    case False
    then have "mmap_and_close os T fd w1 = (r, w')" using run o by (simp add: my_mmap_existing_def)
    from mmap_and_close_fds [OF k T _ this] show ?thesis using False w1 by simp
  qed (use run o w1 in \<open>auto simp: my_mmap_existing_def\<close>)
qed

lemma RecvHeader_keeps: "io_keeps os F \<Longrightarrow> RecvHeader os cf fd w = Some (r, w') \<Longrightarrow> F w' = F w"
  by (auto simp: RecvHeader_def split: Option.bind_split_asm dest: tcp_recv_all_keeps)

lemma answer_probe_keeps:
  assumes E: "cl_env_ok E F" and run: "answer_probe (ce_os E) (ce_probe E) req w = (rsp, w')"
  shows "F w' = F w"
proof -
  note K = cl_env_okD [OF E]
  have "F (unmap (pm_map (ce_probe E)) p v) = F v" for p v using K(6) by (simp add: map_keeps_def)
  then show ?thesis using run
    by (auto simp: answer_probe_def Let_def my_munmap_def K(7) split: prod.split_asm sum.split_asm if_split_asm
        dest!: my_mmap_existing_fds [OF K(1,6)])
qed

lemma HandleShmProbe_keeps:
  assumes E: "cl_env_ok E F" and run: "HandleShmProbe (ce_os E) (ce_probe E) cf fd h w = Some (r, w')"
  shows "F w' = F w"
  using run by (auto simp: HandleShmProbe_def Let_def split: if_split_asm Option.bind_split_asm prod.split_asm
      dest!: tcp_recv_all_keeps [OF cl_env_okD(2) [OF E]] tcp_send_all_keeps [OF cl_env_okD(2) [OF E]] answer_probe_keeps [OF E])

lemma RecvLoginRsp_keeps:
  assumes E: "cl_env_ok E F" and run: "RecvLoginRsp (ce_os E) (ce_probe E) cf fd w = Some (r, w')"
  shows "F w' = F w"
proof -
  note io = cl_env_okD(2) [OF E]
  obtain r1 w1 where 1: "RecvHeader (ce_os E) cf fd w = Some (r1, w1)" using run by (auto simp: RecvLoginRsp_def split: Option.bind_split_asm)
  show ?thesis using run RecvHeader_keeps [OF io 1]
    by (auto simp: RecvLoginRsp_def 1 Let_def split: sum.split_asm if_split_asm Option.bind_split_asm
        dest!: HandleShmProbe_keeps [OF E] RecvHeader_keeps [OF io] tcp_recv_all_keeps [OF io])
qed

lemma connect_socket_fds:
  assumes E: "cl_env_ok E F" and run: "connect_socket E cf ip port w = (r, w')"
  shows "F w' = (case r of None \<Rightarrow> F w | Some fd \<Rightarrow> add_mset fd (F w)) \<and> r \<noteq> Some INVALID_TCP_SOCKET"
proof -
  let ?os = "ce_os E"
  note K = cl_env_okD [OF E] and Q = fd_kernel_quiet [OF cl_env_okD(1) [OF E]]
  obtain fd w1 where so: "sys_socket ?os w = (fd, w1)" by fastforce
  have w1: "F w1 = (if fd = INVALID_TCP_SOCKET then F w else add_mset fd (F w))"
    using fd_kernelD(5) [OF K(1) so] by (simp add: INVALID_TCP_SOCKET_def)
  have err: "F (cl_error E m e v) = F v" for m e v using cl_cb_okD(1) [OF K(8)] by (simp add: cl_error_def)
  have close: "F (snd (tcp_close ?os fd v)) = F v - {#fd#}" for v using fd_kernelD(2) [OF K(1)] by (simp add: tcp_close_def)
  have opt: "F v' = F v" if "tcp_setsockopt ?os fd a v = (r, v')" for a v r v' using Q(7) [of fd a v] that by (simp add: tcp_setsockopt_def)
  have tmo: "F v' = F v" if "tcp_set_timeout ?os fd a ms v = (r, v')" for a ms v r v'
    using set_timeout_keeps [OF K(1), of fd a ms v] that by simp
  have con: "F v' = F v" if "tcp_connect ?os fd a v = (r, v')" for a v r v' using Q(6) [of fd a v] that by (simp add: tcp_connect_def)
  show ?thesis
  proof (cases "fd = INVALID_TCP_SOCKET")
    case True
    then show ?thesis using run so w1 err by (auto simp: connect_socket_def tcp_socket_def Let_def)
  next
    case False
    then show ?thesis using run so w1 err close
      by (auto simp: connect_socket_def tcp_socket_def Let_def split: prod.split_asm if_split_asm dest!: opt tmo con)
  qed
qed

lemma exchange_login_fds:
  assumes E: "cl_env_ok E F" and run: "exchange_login E cf fd h login pad w = Some (x, w')" and w: "F w = add_mset fd M"
  shows "F w' = (if x = None then M else add_mset fd M)"
proof -
  let ?os = "ce_os E"
  note K = cl_env_okD [OF E] and C = cl_cb_okD [OF cl_env_okD(8) [OF E]]
  have err: "F (cl_error E m e v) = F v" for m e v using C(1) by (simp add: cl_error_def)
  have close: "F (snd (tcp_close ?os fd v)) = F v - {#fd#}" for v using fd_kernelD(2) [OF K(1)] by (simp add: tcp_close_def)
  obtain ok e w1 where s: "tcp_send_all ?os fd (login_buf cf h login pad) w = (ok, e, w1)" by (metis surj_pair)
  have w1: "F w1 = add_mset fd M" using tcp_send_all_keeps [OF K(2) s] w by simp
  show ?thesis
  proof (cases ok)
    case False
    then show ?thesis using run s w1 by (auto simp: exchange_login_def Let_def err close)
  next
    case True
    then obtain r w2 where 2: "RecvLoginRsp ?os (ce_probe E) cf fd w1 = Some (r, w2)"
      using run s by (auto simp: exchange_login_def Let_def split: Option.bind_split_asm)
    have w2: "F w2 = add_mset fd M" using RecvLoginRsp_keeps [OF E 2] w1 by simp
    show ?thesis using run s True 2 w2
      by (auto simp: exchange_login_def Let_def err close C(2,3) split: sum.split_asm prod.split_asm if_split_asm)
  qed
qed


lemma logged_on_fds:
  assumes E: "cl_env_ok E F" and run: "logged_on E cf use_shm opened fd rh rsp name cl w = Some (ok, cl', w')"
    and w: "F w = add_mset fd M" and free: "tc_fd (cl_conn cl) = INVALID_TCP_SOCKET" and fd: "fd \<noteq> INVALID_TCP_SOCKET"
  shows "F w' = M + fds [tc_fd (cl_conn cl')]"
proof -
  let ?os = "ce_os E" and ?n = "NameSize cf"
  note K = cl_env_okD [OF E] and C = cl_cb_okD [OF cl_env_okD(8) [OF E]]
  define rsp' where "rsp' = rsp\<lparr>lr_server_name := (lr_server_name rsp)[?n - 1 := CHR 0x00]\<rparr>"
  define changed where "changed \<longleftrightarrow> \<not> strneq name (lr_server_name rsp') ?n"
  define name' where "name' = (if changed then strncpy name (lr_server_name rsp') ?n else name)"
  obtain c1 w1 where 1: "(if changed then case tc_Release ?os (ce_maps E) (cl_conn cl) w of
        (c, v) \<Rightarrow> (c\<lparr>tc_remote_name := strncpy (tc_remote_name c) name' ?n\<rparr>, v) else (cl_conn cl, w)) = (c1, w1)" by fastforce
  have c1: "tc_fd c1 = INVALID_TCP_SOCKET" "F w1 = F w"
  proof -
    obtain c v where r: "tc_Release ?os (ce_maps E) (cl_conn cl) w = (c, v)" by fastforce
    show "tc_fd c1 = INVALID_TCP_SOCKET" "F w1 = F w"
      using 1 free tc_Release_owner(2,3) [OF K(1,3,4) r] by (auto simp: r tc_fd_def split: if_split_asm)
  qed
  obtain opn c2 w2 where 2: "(if opened \<and> \<not> changed then (Inl (), c1, w1) else tc_OpenFile ?os (ce_maps E) use_shm c1 w1) = (opn, c2, w2)"
    by (metis surj_pair)
  have c2: "tc_fd c2 = INVALID_TCP_SOCKET" "F w2 = F w"
    using 2 c1 by (auto simp: same_owner_def split: if_split_asm dest!: tc_OpenFile_owner [OF K(1,3,4)])
  note run' = run [unfolded logged_on_def Let_def, folded rsp'_def, folded changed_def, folded name'_def, unfolded 1 prod.case 2 prod.case]
  show ?thesis
  proof (cases opn)
    case (Inr e)
    have err: "F (cl_error E m e v) = F v" for m e v using C(1) by (simp add: cl_error_def)
    show ?thesis using run' Inr c2 w fd_kernelD(2) [OF K(1)] by (auto simp: err tcp_close_def)
  next
    case (Inl u)
    obtain c3 where 3: "(if changed then tc_Reset cf c2 else Some c2) = Some c3"
      using run' Inl by (auto split: Option.bind_split_asm)
    have c3: "tc_fd c3 = INVALID_TCP_SOCKET" using 3 c2 by (auto simp: same_owner_def split: if_split_asm dest!: tc_Reset_owner)
    obtain now c4 w4 where 4: "cl_OnLoginSuccess (ce_cb E) rsp' c3 (snd (tcp_set_nonblocking ?os fd w2)) = (now, c4, w4)" by (metis surj_pair)
    obtain c5 where 5: "tc_Open ?os cf fd (hdr_ack_seq rh) now c4 w4 = Some (c5, w')" and cl': "cl_conn cl' = c5"
      using run' Inl 3 4 by (auto split: Option.bind_split_asm)
    have "F w4 = F w" using C(4) [OF 4] c2 fd_kernel_quiet(9) [OF K(1)] by (simp add: tcp_set_nonblocking_def)
    then show ?thesis using tc_Open_owner [OF K(2) 5] w fd by (simp add: cl')
  qed
qed

section \<open>The invariant of the client\<close>

text \<open>The descriptors of the process beside \<open>R\<close> are the one the connection holds.\<close>

definition client_ok :: "('w \<Rightarrow> int multiset) \<Rightarrow> int multiset \<Rightarrow> client \<Rightarrow> 'w \<Rightarrow> bool" where
  "client_ok F R cl w \<longleftrightarrow> F w = R + fds [tc_fd (cl_conn cl)]"

lemma TryCloseFd_when_closed:
  assumes "tc_IsClosed c" and "tc_TryCloseFd os c w = (b, c', w')"
  shows "tc_fd c' = INVALID_TCP_SOCKET"
  using assms by (auto simp: tc_IsClosed_def pc_IsClosed_def tc_TryCloseFd_def pc_TryCloseFd_def tc_fd_def split: if_split_asm)

lemma map_last_server_fds:
  assumes E: "cl_env_ok E F" and run: "map_last_server E cf cl w = (ok, cl', w')"
  shows "tc_fd (cl_conn cl') = tc_fd (cl_conn cl) \<and> F w' = F w"
  using run cl_cb_okD(1) [OF cl_env_okD(8) [OF E]]
  by (auto simp: map_last_server_def cl_error_def tc_fd_def split: option.split_asm prod.split_asm sum.split_asm
      dest!: my_mmap_fds [OF cl_env_okD(1,5) [OF E]])

lemma login_with_seqs_fds:
  assumes E: "cl_env_ok E F" and run: "login_with_seqs E cf use_shm login name c w = Some (r, c', w')"
  shows "tc_fd c' = tc_fd c \<and> F w' = F w"
  using run by (auto simp: login_with_seqs_def same_owner_def split: if_split_asm prod.split_asm sum.split_asm Option.bind_split_asm
      dest!: tc_OpenFile_owner [OF cl_env_okD(1,3,4) [OF E]])

lemma Connect_ok:
  assumes E: "cl_env_ok E F" and S: "client_ok F R cl w" and run: "Connect E cf use_shm ip port ud pad cl w = Some (ok, cl', w')"
  shows "client_ok F R cl' w'"
proof (cases "tc_IsClosed (cl_conn cl)")
  case False
  then show ?thesis using run S cl_cb_okD(1) [OF cl_env_okD(8) [OF E]] by (auto simp: Connect_def client_ok_def cl_error_def)
next
  case True
  have err: "F (cl_error E m e v) = F v" for m e v using cl_cb_okD(1) [OF cl_env_okD(8) [OF E]] by (simp add: cl_error_def)
  obtain b c w1 where 1: "tc_TryCloseFd (ce_os E) (cl_conn cl) w = (b, c, w1)" by (metis surj_pair)
  have c: "tc_fd c = INVALID_TCP_SOCKET" by (rule TryCloseFd_when_closed [OF True 1])
  have w1: "F w1 = R" using tc_TryCloseFd_owner(2) [OF cl_env_okD(1) [OF E] 1] c S by (auto simp: client_ok_def split: if_split_asm)
  obtain mapped cl2 w2 where 2: "map_last_server E cf (cl\<lparr>cl_conn := c\<rparr>) w1 = (mapped, cl2, w2)" by (metis surj_pair)
  have c2: "tc_fd (cl_conn cl2) = INVALID_TCP_SOCKET" "F w2 = R" using map_last_server_fds [OF E 2] c w1 by simp_all
  show ?thesis
  proof (cases mapped)
    case False
    then show ?thesis using run True 1 2 c2 by (auto simp: Connect_def client_ok_def)
  next
    case map: True
    obtain name r c3 w3 where 3: "cl_server_name cl2 = Some name"
      "login_with_seqs E cf use_shm (login_msg_init cf use_shm ud (cl_client_name cl2) name) name (cl_conn cl2) w2 = Some (r, c3, w3)"
      using run True 1 2 map by (auto simp: Connect_def split: Option.bind_split_asm)
    have c3: "tc_fd c3 = INVALID_TCP_SOCKET" "F w3 = R" using login_with_seqs_fds [OF E 3(2)] c2 by simp_all
    note run' = run [unfolded Connect_def Let_def, unfolded if_not_P [of "\<not> _", simplified, OF True] 1 prod.case 2 prod.case]
    obtain x w4 where 4: "connect_socket E cf ip port w3 = (x, w4)" by fastforce
    note w4 = connect_socket_fds [OF E 4]
    consider msg e where "r = Inr (msg, e)" | h login where "r = Inl (h, login)" "x = None" | h login fd where "r = Inl (h, login)" "x = Some fd"
      by (metis sum.exhaust surj_pair option.exhaust)
    then show ?thesis
    proof cases
      case 1
      then show ?thesis using run' map 3 c3 err by (auto simp: client_ok_def)
    next
      case 2
      then show ?thesis using run' map 3 4 w4 c3 by (auto simp: client_ok_def)
    next
      case (3 h login fd)
      have fd: "fd \<noteq> INVALID_TCP_SOCKET" and w4': "F w4 = add_mset fd R" using w4 3 c3 by auto
      obtain y w5 where 5: "exchange_login E cf fd h login pad w4 = Some (y, w5)"
        using run' map \<open>cl_server_name cl2 = Some name\<close> \<open>login_with_seqs _ _ _ _ _ _ _ = _\<close> 3 4 by (auto split: Option.bind_split_asm)
      note w5 = exchange_login_fds [OF E 5 w4']
      show ?thesis
      proof (cases y)
        case None
        then show ?thesis using run' map \<open>cl_server_name cl2 = Some name\<close> \<open>login_with_seqs _ _ _ _ _ _ _ = _\<close> 3 4 5 w5 c3
          by (auto simp: client_ok_def)
      next
        case (Some a)
        obtain rh rsp where a: "a = (rh, rsp)" by fastforce
        have "logged_on E cf use_shm (name ! 0 \<noteq> CHR 0x00 \<and> \<not> use_shm) fd rh rsp name (cl2\<lparr>cl_conn := c3\<rparr>) w5 = Some (ok, cl', w')"
          using run' map \<open>cl_server_name cl2 = Some name\<close> \<open>login_with_seqs _ _ _ _ _ _ _ = _\<close> 3 4 5 Some a by simp
        from logged_on_fds [OF E this, of R] show ?thesis using w5 Some c3 fd by (simp add: client_ok_def)
      qed
    qed
  qed
qed

lemma cl_deliver_owner:
  assumes E: "cl_env_ok E F" and run: "cl_deliver E head c w = Some (c', w')"
  shows "same_owner c c' \<and> F w' = F w"
  using run cl_cb_okD(6) [OF cl_env_okD(8) [OF E]] by (cases head) (auto simp: cl_deliver_def same_owner_def)

lemma cl_PollTcp_ok:
  assumes E: "cl_env_ok E F" and S: "client_ok F R cl w" and run: "cl_PollTcp E cf now cl w = Some (cl', w')"
  shows "client_ok F R cl' w'"
proof -
  let ?read = "if \<not> tc_IsClosed (cl_conn cl)
      then do { (head, c, v) \<leftarrow> tc_TcpFront (ce_os E) cf now (cl_conn cl) w; cl_deliver E head c v } else Some (cl_conn cl, w)"
  note K = cl_env_okD [OF E] and C = cl_cb_okD [OF cl_env_okD(8) [OF E]]
  obtain c1 w1 where 1: "?read = Some (c1, w1)" using run by (auto simp: cl_PollTcp_def simp del: if_not_P split: Option.bind_split_asm)
  have c1: "tc_fd c1 = tc_fd (cl_conn cl)" "F w1 = F w"
    using 1 by (auto simp: same_owner_def split: if_split_asm Option.bind_split_asm
        dest!: tc_TcpFront_owner [OF K(2)] cl_deliver_owner [OF E])
  obtain closed c2 w2 where 2: "tc_TryCloseFd (ce_os E) c1 w1 = (closed, c2, w2)" by (metis surj_pair)
  note T = tc_TryCloseFd_owner(2) [OF K(1) 2]
  obtain c3 where 3: "(if closed then case tc_GetCloseReason c2 of (reason, e) \<Rightarrow> cl_OnDisconnected (ce_cb E) reason e c2 w2 else (c2, w2)) = (c3, w')"
    and cl': "cl_conn cl' = c3"
    using run unfolding cl_PollTcp_def 1 by (auto simp: 2 Let_def split: prod.split_asm)
  have "tc_fd c3 = tc_fd c2" "F w' = F w2" using 3 C(5) by (auto simp: same_owner_def split: if_split_asm prod.split_asm)
  then show ?thesis using S T c1 by (auto simp: client_ok_def cl' split: if_split_asm)
qed

lemma cl_PollShm_ok:
  assumes E: "cl_env_ok E F" and S: "client_ok F R cl w" and run: "cl_PollShm E cf cl w = Some (cl', w')"
  shows "client_ok F R cl' w'"
  using run S by (auto simp: cl_PollShm_def client_ok_def same_owner_def split: Option.bind_split_asm
      dest!: tc_ShmFront_owner cl_deliver_owner [OF E])

lemma cl_Stop_fds:
  assumes E: "cl_env_ok E F" and S: "client_ok F R cl w" and run: "cl_Stop E cl w = (cl', w')"
  shows "tc_fd (cl_conn cl') = INVALID_TCP_SOCKET" and "F w' = R"
proof -
  note K = cl_env_okD [OF E]
  define w1 where "w1 = (case cl_server_name cl of None \<Rightarrow> w | Some name \<Rightarrow> my_munmap (ce_name_map E) name w)"
  have w1: "F w1 = F w" using K(5) by (simp add: w1_def my_munmap_def map_keeps_def split: option.split)
  obtain c where r: "tc_Release (ce_os E) (ce_maps E) (cl_conn cl) w1 = (c, w')" and cl': "cl_conn cl' = c"
    using run by (auto simp: cl_Stop_def Let_def simp flip: w1_def split: prod.split_asm)
  show "tc_fd (cl_conn cl') = INVALID_TCP_SOCKET" and "F w' = R"
    using tc_Release_owner(2,3) [OF K(1,3,4) r] S w1 by (auto simp: client_ok_def cl')
qed

lemma TcpShmClient_ok:
  assumes E: "cl_env_ok E F" and run: "TcpShmClient (ce_os E) cf name dir junk w = (cl, w')"
  shows "client_ok F (F w) cl w'"
  using run fd_kernel_quiet(3) [OF cl_env_okD(1) [OF E], of dir w]
  by (auto simp: TcpShmClient_def Let_def client_ok_def tc_fd_def tc_init_def TcpShmConnection_def PTCPConnection_def tcp_mkdir_def)

text \<open>
  What an application does with a client: it connects, polls and stops, in any order, and between the
  calls uses the connection (\<open>uses\<close>).
\<close>

inductive client_step :: "'w cl_env \<Rightarrow> conf \<Rightarrow> ('w \<Rightarrow> int multiset) \<Rightarrow> client \<times> 'w \<Rightarrow> client \<times> 'w \<Rightarrow> bool"
  for E cf F where
  connect: "client_step E cf F (cl, w) (cl', w')" if "Connect E cf use_shm ip port user_data pad cl w = Some (ok, cl', w')"
| poll_tcp: "client_step E cf F (cl, w) (cl', w')" if "cl_PollTcp E cf now cl w = Some (cl', w')"
| poll_shm: "client_step E cf F (cl, w) (cl', w')" if "cl_PollShm E cf cl w = Some (cl', w')"
| stop: "client_step E cf F (cl, w) (cl', w')" if "cl_Stop E cl w = (cl', w')"
| uses: "client_step E cf F (cl, w) (cl\<lparr>cl_conn := c\<rparr>, w')" if "same_owner (cl_conn cl) c" and "F w' = F w"

lemma client_step_ok:
  assumes E: "cl_env_ok E F" and S: "client_ok F R cl w" and step: "client_step E cf F (cl, w) (cl', w')"
  shows "client_ok F R cl' w'"
  using step
proof cases
  case stop
  then show ?thesis using cl_Stop_fds [OF E S stop] by (simp add: client_ok_def)
qed (use Connect_ok [OF E S] cl_PollTcp_ok [OF E S] cl_PollShm_ok [OF E S] S in \<open>auto simp: client_ok_def same_owner_def\<close>)

lemma client_reach_ok:
  assumes E: "cl_env_ok E F" and S: "client_ok F R cl0 w0" and reach: "(client_step E cf F)\<^sup>*\<^sup>* (cl0, w0) (cl, w)"
  shows "client_ok F R cl w"
  using reach
proof (induction "(cl, w)" arbitrary: cl w rule: rtranclp_induct)
  case base
  then show ?case using S by simp
next
  case (step y)
  then show ?case using client_step_ok [OF E] by (cases y) blast
qed


section \<open>Properties\<close>

text \<open>C23: The invariant of the client. Whatever sequence of \<open>Connect\<close>, \<open>PollTcp\<close>, \<open>PollShm\<close> and \<open>Stop\<close> calls an
  application makes, in any order and whatever the server answers (including every failed and refused
  login): beside the descriptors open before the client was constructed, the process has exactly the
  one the connection holds, if it holds one; and \<open>Stop\<close> at any moment closes that one too.\<close>

theorem client_invariant:
  assumes "cl_env_ok E F" and "TcpShmClient (ce_os E) cf name dir junk w0 = (cl0, w1)"
    and "(client_step E cf F)\<^sup>*\<^sup>* (cl0, w1) (cl, w)" and "cl_Stop E cl w = (cl', w')"
  shows "F w = F w0 + fds [tc_fd (cl_conn cl)] \<and> F w' = F w0 \<and> tc_fd (cl_conn cl') = INVALID_TCP_SOCKET"
proof -
  have ok: "client_ok F (F w0) cl w" by (rule client_reach_ok [OF assms(1) TcpShmClient_ok [OF assms(1,2)] assms(3)])
  then show ?thesis using cl_Stop_fds [OF assms(1) ok assms(4)] by (simp add: client_ok_def)
qed

text \<open>A world of open descriptors and bytes that arrive; a client whose server answers the first login.\<close>

definition answer_os :: "(int list \<times> u8 list) os" where
  "answer_os =
     \<lparr>sys_send = (\<lambda>s buf w. (int (length buf), w)), sys_recv = (\<lambda>s n (t, inp). ((int (length (take n inp)), take n inp), (t, drop n inp))),
      sys_readv = (\<lambda>s ns w. ((- 1, []), w)), sys_errno = (\<lambda>w. TCP_ERR_AGAIN),
      sys_close = (\<lambda>s (t, inp). (0, (remove1 s t, inp))), sys_new = (\<lambda>n w. (replicate n 0, w)),
      sys_open = (\<lambda>f b (t, inp). (8, (8 # t, inp))), sys_shm_open = (\<lambda>f b (t, inp). (9, (9 # t, inp))), sys_ftruncate = (\<lambda>fd n w. (0, w)),
      sys_shm_unlink = (\<lambda>f w. (0, w)), sys_mkdir = (\<lambda>f w. (0, w)), sys_socket = (\<lambda>(t, inp). (5, (5 # t, inp))),
      sys_accept = (\<lambda>s (t, inp). ((6, (0, 0)), (6 # t, inp))), sys_bind = (\<lambda>s a w. (0, w)), sys_listen = (\<lambda>s n w. (0, w)),
      sys_connect = (\<lambda>s a w. (0, w)), sys_setsockopt = (\<lambda>s opt w. (0, w)), sys_getfl = (\<lambda>s w. (0, w)),
      sys_setfl = (\<lambda>s n w. (0, w)), sys_inet_pton = (\<lambda>s. Some 1)\<rparr>"

definition plain_map :: "nat \<Rightarrow> 'q \<Rightarrow> ('q, 'w) map_ops" where
  "plain_map n q = \<lparr>map_sizeof = n, map_fd = (\<lambda>fd w. (Some q, w)), unmap = (\<lambda>q w. w)\<rparr>"

definition quiet_cl_cb :: "'w cl_cb" where
  "quiet_cl_cb =
     \<lparr>cl_OnSystemError = (\<lambda>m e w. w), cl_OnLoginReject = (\<lambda>r w. w), cl_OnSeqNumberMismatch = (\<lambda>ns w. w),
      cl_OnLoginSuccess = (\<lambda>r c w. (7, c, w)), cl_OnServerMsg = (\<lambda>m c w. Some (c, w)), cl_OnDisconnected = (\<lambda>m e c w. (c, w))\<rparr>"

definition answer_env :: "(int list \<times> u8 list) cl_env" where
  "answer_env =
     \<lparr>ce_os = answer_os, ce_maps = \<lparr>map_ptcp = plain_map 84 (ptcp_zeroed 64), map_shm = plain_map 512 (spsc_zeroed 256)\<rparr>,
      ce_name_map = plain_map 16 (replicate 16 (CHR 0x00)),
      ce_probe = \<lparr>pm_map = plain_map 16 0, pm_token = (\<lambda>p w. 0), pm_ack = (\<lambda>p w. 0), pm_set_token = (\<lambda>p x w. w),
                  pm_set_ack = (\<lambda>p x w. w)\<rparr>,
      ce_cb = quiet_cl_cb\<rparr>"

lemma answer_env_ok: "cl_env_ok answer_env (mset \<circ> fst)"
  by (auto simp: cl_env_ok_def answer_env_def cl_cb_ok_def quiet_cl_cb_def keeps_def map_keeps_def plain_map_def fd_kernel_def io_keeps_def send_keeps_def recv_keeps_def
      opens_def answer_os_def same_owner_def)

definition answer_rsp :: "u8 list" where
  "answer_rsp = rsp_buf sample_conf \<lparr>hdr_size = word_of_nat (8 + sizeof_LoginRspMsg sample_conf), hdr_msg_type = LoginRspMsg_msg_type, hdr_ack_seq = 0\<rparr>
     sample_rsp (replicate 6 0)"

definition sample_client :: client where
  "sample_client = fst (TcpShmClient answer_os sample_conf ''cl'' ''dir'' (replicate 15 (CHR 0x00)) ([1], answer_rsp))"

definition connected_client :: client where
  "connected_client = fst (snd (the (Connect answer_env sample_conf False ''127.0.0.1'' 80 [9] [0] sample_client ([1], answer_rsp))))"

lemma connected_client_run:
  "Connect answer_env sample_conf False ''127.0.0.1'' 80 [9] [0] sample_client ([1], answer_rsp) = Some (True, connected_client, ([5, 1], []))"
proof -
  let ?r = "Connect answer_env sample_conf False ''127.0.0.1'' 80 [9] [0] sample_client ([1], answer_rsp)"
  have "map_option (\<lambda>r. (fst r, snd (snd r))) ?r = Some (True, ([5, 1], []))" by code_simp
  then show ?thesis by (auto simp: connected_client_def)
qed

theorem client_invariant_witness:
  "(client_step answer_env sample_conf (mset \<circ> fst))\<^sup>*\<^sup>* (sample_client, ([1], answer_rsp)) (connected_client, ([5, 1], [])) \<and>
   mset [5, 1] = mset [1] + fds [tc_fd (cl_conn connected_client)] \<and>
   mset (fst (snd (cl_Stop answer_env connected_client ([5, 1], [])))) = mset [1]"
proof -
  have new: "TcpShmClient (ce_os answer_env) sample_conf ''cl'' ''dir'' (replicate 15 (CHR 0x00)) ([1], answer_rsp) = (sample_client, ([1], answer_rsp))"
    by (simp add: sample_client_def TcpShmClient_def Let_def tcp_mkdir_def answer_os_def answer_env_def)
  have reach: "(client_step answer_env sample_conf (mset \<circ> fst))\<^sup>*\<^sup>* (sample_client, ([1], answer_rsp)) (connected_client, ([5, 1], []))"
    by (rule r_into_rtranclp, rule client_step.connect [OF connected_client_run])
  obtain cl' w' where stop: "cl_Stop answer_env connected_client ([5, 1], []) = (cl', w')" by (metis surj_pair)
  from client_invariant [OF answer_env_ok new reach stop] reach stop show ?thesis by simp
qed

section \<open>The end of a login\<close>

lemma logged_on_resumes:
  assumes os: "send_os (ce_os E)"
    and same: "strneq name ((lr_server_name rsp)[NameSize cf - 1 := CHR 0x00]) (NameSize cf)"
    and cb: "cl_OnLoginSuccess (ce_cb E) (rsp\<lparr>lr_server_name := (lr_server_name rsp)[NameSize cf - 1 := CHR 0x00]\<rparr>) (cl_conn cl)
               (snd (tcp_set_nonblocking (ce_os E) fd w)) = (now, c, v)"
    and q: "pc_q (tc_ptcp_conn c) = Some q" "ptcp_rel (TcpQueueSize cf) (ToLittleEndian cf) (HostLittle cf) q ms"
    and k: "k = unat (hdr_ack_seq rh - pq_read_seq_num q)" "k \<le> length ms"
  obtains cl' w' q' where "logged_on E cf False True fd rh rsp name cl w = Some (True, cl', w')"
    and "pc_q (tc_ptcp_conn (cl_conn cl')) = Some q'" and "ptcp_rel (TcpQueueSize cf) (ToLittleEndian cf) (HostLittle cf) q' (drop k ms)"
    and "pq_read_seq_num q' = hdr_ack_seq rh" and "pq_ack_seq_num q' = pq_ack_seq_num q"
proof -
  obtain pc w' q' where o: "pc_Open (ce_os E) cf fd (hdr_ack_seq rh) now (tc_ptcp_conn c) v = Some (pc, w')" "pc_q pc = Some q'"
    "ptcp_rel (TcpQueueSize cf) (ToLittleEndian cf) (HostLittle cf) q' (drop k ms)" "pq_read_seq_num q' = hdr_ack_seq rh"
    "pq_ack_seq_num q' = pq_ack_seq_num q"
    by (rule pc_Open_resumes [OF os q k])
  show ?thesis
    by (rule that [of "cl\<lparr>cl_server_name := Some name, cl_conn := c\<lparr>tc_ptcp_conn := pc\<rparr>\<rparr>" w' q'])
      (use o same cb in \<open>simp_all add: logged_on_def Let_def tc_Open_def\<close>)
qed

lemma tc_Release_no_queues:
  assumes "tc_Release os T c w = (c', w')"
  shows "tc_sendq c' = None" and "tc_recvq c' = None" and "pc_q (tc_ptcp_conn c') = None"
  using assms by (auto simp: tc_Release_def pc_Release_def Let_def split: prod.split_asm option.split_asm)

text \<open>Opening a connection over a reset queue file.\<close>

lemma tc_Open_reset:
  assumes os: "send_os os" and c: "tc_sendq c = None" "pc_q (tc_ptcp_conn c) = Some (ptcp_zeroed (TcpQueueSize cf))"
  obtains c' w' q where "tc_Open os cf fd 0 now c w = Some (c', w')" and "tc_fd c' = fd" and "tc_sendq c' = None"
    and "pc_q (tc_ptcp_conn c') = Some q" and "pq_read_seq_num q = 0" and "pq_ack_seq_num q = 0"
    and "ptcp_rel (TcpQueueSize cf) (ToLittleEndian cf) (HostLittle cf) q []"
proof -
  have "0 = unat (0 - pq_read_seq_num (ptcp_zeroed (TcpQueueSize cf)))" by (simp add: ptcp_zeroed_def)
  from pc_Open_resumes [OF os c(2) ptcp_zeroed_rel this, of fd now w]
  obtain pc w' q where p: "pc_Open os cf fd 0 now (tc_ptcp_conn c) w = Some (pc, w')" "pc_q pc = Some q"
    "ptcp_rel (TcpQueueSize cf) (ToLittleEndian cf) (HostLittle cf) q []" "pq_read_seq_num q = 0" "pq_ack_seq_num q = 0"
    by (auto simp: ptcp_zeroed_def)
  have "pc_fd_to_close pc = fd" using pc_Open_opens [OF _ _ p(1), of "\<lambda>_. ()"] by (simp add: send_keeps_def recv_keeps_def)
  then show ?thesis using that [of "c\<lparr>tc_ptcp_conn := pc\<rparr>"] p c by (simp add: tc_Open_def tc_fd_def)
qed

text \<open>C26: A login to another server than the last one starts a new session. Over TCP, when the name in the response
  is not the one in the \<^verbatim>\<open>.lastserver\<close> file and the response acknowledges nothing, the end of \<open>Connect\<close>
  returns on every branch: either the queue file of the new server cannot be opened and \<open>Connect\<close> fails,
  or the connection is open on the socket, named after the new server, with an empty queue and both
  sequence numbers zero, whatever messages were queued for the old server or left in the new file.\<close>

theorem logged_on_new_server:
  assumes os: "send_os (ce_os E)"
    and other: "\<not> strneq name ((lr_server_name rsp)[NameSize cf - 1 := CHR 0x00]) (NameSize cf)"
    and quiet: "\<And>r c v. fst (snd (cl_OnLoginSuccess (ce_cb E) r c v)) = c"
    and ack: "hdr_ack_seq rh = 0"
  shows "\<exists>ok cl' w'. logged_on E cf False opened fd rh rsp name cl w = Some (ok, cl', w') \<and>
    cl_server_name cl' = Some (strncpy name ((lr_server_name rsp)[NameSize cf - 1 := CHR 0x00]) (NameSize cf)) \<and>
    (if ok then tc_fd (cl_conn cl') = fd \<and> tc_sendq (cl_conn cl') = None \<and>
       (\<exists>q. pc_q (tc_ptcp_conn (cl_conn cl')) = Some q \<and> pq_read_seq_num q = 0 \<and> pq_ack_seq_num q = 0 \<and>
            ptcp_rel (TcpQueueSize cf) (ToLittleEndian cf) (HostLittle cf) q [])
     else pc_q (tc_ptcp_conn (cl_conn cl')) = None)"
proof -
  let ?os = "ce_os E" and ?n = "NameSize cf"
  define rsp' where "rsp' = rsp\<lparr>lr_server_name := (lr_server_name rsp)[?n - 1 := CHR 0x00]\<rparr>"
  define name' where "name' = strncpy name (lr_server_name rsp') ?n"
  obtain c1 w1 where rel: "tc_Release ?os (ce_maps E) (cl_conn cl) w = (c1, w1)" by fastforce
  note c1 = tc_Release_no_queues [OF rel]
  define c1' where "c1' = c1\<lparr>tc_remote_name := strncpy (tc_remote_name c1) name' ?n\<rparr>"
  obtain opn c2 w2 where o: "tc_OpenFile ?os (ce_maps E) False c1' w1 = (opn, c2, w2)" by (metis surj_pair)
  have c2: "tc_sendq c2 = None" "opn = Inl u \<Longrightarrow> pc_q (tc_ptcp_conn c2) \<noteq> None" "opn = Inr e \<Longrightarrow> pc_q (tc_ptcp_conn c2) = None" for u e
    using o c1 by (auto simp: tc_OpenFile_def pc_OpenFile_def c1'_def split: prod.split_asm sum.split_asm)
  have ch: "\<not> strneq name (lr_server_name rsp') ?n" and n': "name' = strncpy name ((lr_server_name rsp)[?n - 1 := CHR 0x00]) ?n"
    using other by (simp_all add: rsp'_def name'_def)
  have run: "logged_on E cf False opened fd rh rsp name cl w =
    (case opn of
       Inr e \<Rightarrow> Some (False, cl\<lparr>cl_server_name := Some name', cl_conn := c2\<rparr>, snd (tcp_close ?os fd (cl_error E e (tcp_get_last_error ?os w2) w2)))
     | Inl _ \<Rightarrow> do {
         c3 \<leftarrow> tc_Reset cf c2;
         let w3 = snd (tcp_set_nonblocking ?os fd w2);
         let (now, c4, w4) = cl_OnLoginSuccess (ce_cb E) rsp' c3 w3;
         (c5, w5) \<leftarrow> tc_Open ?os cf fd (hdr_ack_seq rh) now c4 w4;
         Some (True, cl\<lparr>cl_server_name := Some name', cl_conn := c5\<rparr>, w5)
       })"
    using ch o by (simp add: logged_on_def Let_def rel c1'_def name'_def rsp'_def split: sum.split)
  show ?thesis
  proof (cases opn)
    case (Inr e)
    then show ?thesis using c2 by (intro exI [of _ False]) (simp add: run n')
  next
    case (Inl u)
    then have "pc_q (tc_ptcp_conn c2) \<noteq> None" using c2(2) by simp
    then obtain c3 where c3: "tc_Reset cf c2 = Some c3" "tc_sendq c3 = None" "pc_q (tc_ptcp_conn c3) = Some (ptcp_zeroed (TcpQueueSize cf))"
      using c2(1) by (auto simp: tc_Reset_def pc_Reset_def)
    obtain now w4 where cb: "cl_OnLoginSuccess (ce_cb E) rsp' c3 (snd (tcp_set_nonblocking ?os fd w2)) = (now, c3, w4)"
      using quiet [of rsp' c3] by (metis prod.collapse)
    obtain c5 w5 q where "tc_Open ?os cf fd 0 now c3 w4 = Some (c5, w5)" "tc_fd c5 = fd" "tc_sendq c5 = None"
      "pc_q (tc_ptcp_conn c5) = Some q" "pq_read_seq_num q = 0" "pq_ack_seq_num q = 0"
      "ptcp_rel (TcpQueueSize cf) (ToLittleEndian cf) (HostLittle cf) q []"
      by (rule tc_Open_reset [OF os c3(2,3)])
    then show ?thesis using c3 cb by (intro exI [of _ True]) (simp add: run Inl ack n')
  qed
qed

text \<open>The same client over the scripted kernel, with a message for another server in its queue.\<close>

definition script_cl_env :: "script_world cl_env" where
  "script_cl_env =
     \<lparr>ce_os = script_os, ce_maps = \<lparr>map_ptcp = plain_map 84 sample_queue, map_shm = plain_map 512 (spsc_zeroed 256)\<rparr>,
      ce_name_map = plain_map 16 (replicate 16 (CHR 0x00)),
      ce_probe = \<lparr>pm_map = plain_map 16 0, pm_token = (\<lambda>p w. 0), pm_ack = (\<lambda>p w. 0), pm_set_token = (\<lambda>p x w. w),
                  pm_set_ack = (\<lambda>p x w. w)\<rparr>,
      ce_cb = quiet_cl_cb\<rparr>"

theorem logged_on_new_server_witness:
  "\<exists>cl' w' q. logged_on script_cl_env sample_conf False False 5 zero_header sample_rsp (replicate 16 (CHR 0x00)) sample_client
       \<lparr>sw_out = [], sw_inp = [], sw_limits = [], sw_closed = []\<rparr> = Some (True, cl', w') \<and>
     tc_fd (cl_conn cl') = 5 \<and> pc_q (tc_ptcp_conn (cl_conn cl')) = Some q \<and> pq_read_seq_num q = 0 \<and>
     ptcp_rel (TcpQueueSize sample_conf) (ToLittleEndian sample_conf) (HostLittle sample_conf) q []"
proof -
  let ?run = "logged_on script_cl_env sample_conf False False 5 zero_header sample_rsp (replicate 16 (CHR 0x00)) sample_client
    \<lparr>sw_out = [], sw_inp = [], sw_limits = [], sw_closed = []\<rparr>"
  have os: "send_os (ce_os script_cl_env)" by (simp add: script_cl_env_def script_send_os)
  have other: "\<not> strneq (replicate 16 (CHR 0x00)) ((lr_server_name sample_rsp)[NameSize sample_conf - 1 := CHR 0x00]) (NameSize sample_conf)"
    by code_simp
  have quiet: "fst (snd (cl_OnLoginSuccess (ce_cb script_cl_env) r c v)) = c" for r c v by (simp add: script_cl_env_def quiet_cl_cb_def)
  obtain cl' w' where run: "?run = Some (True, cl', w')"
  proof -
    have "map_option fst ?run = Some True" by code_simp
    then show ?thesis using that by (cases ?run) auto
  qed
  have "hdr_ack_seq zero_header = 0" by (simp add: zero_header_def)
  from logged_on_new_server [OF os other quiet this, where opened = False and fd = 5 and cl = sample_client
      and w = "\<lparr>sw_out = [], sw_inp = [], sw_limits = [], sw_closed = []\<rparr>"]
  show ?thesis unfolding run by auto
qed

end
