(* ===== verification/Session_Net.thy ===== *)
theory Session_Net
  imports Client_Props
begin

text \<open>
  Two connections that talk to each other. This theory states what they rely on of the network, as the
  locale \<open>duplex\<close>, and what the steps of a connection that send put on the wire (\<open>emits\<close>): the
  beginning of the unsent cells or one heartbeat.
\<close>

section \<open>The network between two connections\<close>

text \<open>
  What TCP promises: the bytes accepted by a \<open>send\<close> on one end of a connection are appended to those on
  their way to the other end (\<open>inp t w\<close>, for the socket \<open>t\<close>), a \<open>recv\<close> takes from their front, and calls on
  one socket do not touch the others. A call on the invalid descriptor fails.
\<close>

locale duplex =
  fixes os :: "'w os" and inp :: "int \<Rightarrow> 'w \<Rightarrow> u8 list" and peer :: "int \<Rightarrow> int"
  assumes send: "send_ok os" "send_progress os"
    and send_inp: "sys_send os s buf w = (ret, w') \<Longrightarrow> inp t w' = (if t = peer s then inp t w @ take (nat ret) buf else inp t w)"
    and send_invalid: "fst (sys_send os INVALID_TCP_SOCKET buf w) < 0"
    and recv: "recv_ok os" "new_ok os"
    and recv_inp: "sys_recv os s n w = ((ret, data), w') \<Longrightarrow> inp t w = (if t = s \<and> 0 < ret then data else []) @ inp t w'"
    and readv_inp: "sys_readv os s ns w = ((ret, data), w') \<Longrightarrow> inp t w = (if t = s \<and> 0 < ret then data else []) @ inp t w'"
    and recv_invalid: "fst (fst (sys_recv os INVALID_TCP_SOCKET n w)) \<le> 0" "fst (fst (sys_readv os INVALID_TCP_SOCKET ns w)) \<le> 0"
    and new_inp: "inp t (snd (sys_new os k w)) = inp t w"
    and peer_peer: "peer (peer s) = s" and peer_neq: "peer s \<noteq> s"
begin

lemma stream_out: "stream_send os (\<lambda>s. inp (peer s))"
  unfolding stream_send_def using send_inp by (auto split: prod.split)

lemma stream_in: "stream_recv os inp"
  unfolding stream_recv_def using recv_inp readv_inp new_inp by (auto split: prod.split)

text \<open>Reading from the invalid descriptor is reading nothing from any other socket.\<close>

lemma stream_in_closed:
  assumes "s \<noteq> INVALID_TCP_SOCKET"
  shows "stream_recv os (inp(INVALID_TCP_SOCKET := inp s))"
proof -
  have "inp s w = (if 0 < ret then data else []) @ inp s w'" if "sys_recv os INVALID_TCP_SOCKET n w = ((ret, data), w')" for n w ret data w'
    using recv_inp [OF that, of s] recv_invalid(1) [of n w] that assms by simp
  moreover have "inp s w = (if 0 < ret then data else []) @ inp s w'" if "sys_readv os INVALID_TCP_SOCKET n w = ((ret, data), w')" for n w ret data w'
    using readv_inp [OF that, of s] recv_invalid(2) [of n w] that assms by simp
  ultimately show ?thesis unfolding stream_recv_def using recv_inp readv_inp new_inp by (auto split: prod.split)
qed

lemma send_os: "send_os os"
  using send stream_out by (auto simp: send_os_def)

lemma send_other: "t \<noteq> peer s \<Longrightarrow> send_keeps os s (inp t)"
  unfolding send_keeps_def using send_inp by (metis prod.collapse)

lemma send_none: "send_keeps os INVALID_TCP_SOCKET (inp t)"
  unfolding send_keeps_def using send_inp send_invalid by (metis append_Nil2 fst_conv nat_0_iff order_less_imp_le prod.collapse take0)

lemma recv_other: "t \<noteq> s \<Longrightarrow> recv_keeps os s (inp t)"
proof -
  assume t: "t \<noteq> s"
  have "inp t (snd (sys_recv os s n w)) = inp t w" for n w
    using recv_inp [of s n w "fst (fst (sys_recv os s n w))" "snd (fst (sys_recv os s n w))" _ t] t by (cases "sys_recv os s n w") auto
  moreover have "inp t (snd (sys_readv os s ns w)) = inp t w" for ns w
    using readv_inp [of s ns w "fst (fst (sys_readv os s ns w))" "snd (fst (sys_readv os s ns w))" _ t] t by (cases "sys_readv os s ns w") auto
  ultimately show "recv_keeps os s (inp t)" by (simp add: recv_keeps_def new_inp)
qed

end

lemma hb_inv_iff:
  "hb_inv cf c \<longleftrightarrow> hdr_size (pc_hbmsg c) = Convert (ToLittleEndian cf) (HostLittle cf) 8 \<and>
     hdr_msg_type (pc_hbmsg c) = Convert (ToLittleEndian cf) (HostLittle cf) HeartbeatMsg_msg_type"
proof
  show "hdr_size (pc_hbmsg c) = Convert (ToLittleEndian cf) (HostLittle cf) 8 \<and>
     hdr_msg_type (pc_hbmsg c) = Convert (ToLittleEndian cf) (HostLittle cf) HeartbeatMsg_msg_type" if "hb_inv cf c"
    using that by (auto simp: hb_inv_def ConvertByteOrder_def)
  show "hb_inv cf c" if "hdr_size (pc_hbmsg c) = Convert (ToLittleEndian cf) (HostLittle cf) 8 \<and>
     hdr_msg_type (pc_hbmsg c) = Convert (ToLittleEndian cf) (HostLittle cf) HeartbeatMsg_msg_type"
    unfolding hb_inv_def
    by (rule exI [of _ "Convert (ToLittleEndian cf) (HostLittle cf) (hdr_ack_seq (pc_hbmsg c))"]) (use that in \<open>simp add: ConvertByteOrder_def\<close>)
qed

text \<open>The heartbeat a side sends that has received the messages up to \<open>ack\<close>.\<close>

definition hb_frame :: "conf \<Rightarrow> u32 \<Rightarrow> u8 list" where
  "hb_frame cf ack = hdr_bytes (ToLittleEndian cf) \<lparr>hdr_size = 8, hdr_msg_type = HeartbeatMsg_msg_type, hdr_ack_seq = ack\<rparr>"

text \<open>
  What a step that sends does, for a connection \<open>c\<close> whose queue \<open>q\<close> holds \<open>ms\<close>: it puts the bytes \<open>b\<close> on the
  stream, the beginning of the unsent cells or, when there are none, of a heartbeat; \<open>rest\<close> is what is
  missing of them.
\<close>

definition emits :: "(int \<Rightarrow> 'w \<Rightarrow> u8 list) \<Rightarrow> (int \<Rightarrow> int) \<Rightarrow> conf \<Rightarrow> ptcp_queue \<Rightarrow> msg_header list list \<Rightarrow>
    ptcp_conn \<times> 'w \<Rightarrow> ptcp_conn \<times> 'w \<Rightarrow> bool" where
  "emits inp peer cf q ms = (\<lambda>(c, w) (c', w'). \<exists>q' b rest hs.
     pc_q c' = Some q' \<and> ptcp_rel (TcpQueueSize cf) (ToLittleEndian cf) (HostLittle cf) q' ms \<and>
     pq_read_seq_num q' = pq_read_seq_num q \<and> pq_ack_seq_num q' = pq_ack_seq_num q \<and> length (unsent q') \<le> length (unsent q) \<and>
     sends c c' \<and> (\<forall>t. inp t w' = (if \<not> pc_IsClosed c \<and> t = peer (pc_sockfd c) then inp t w @ b else inp t w)) \<and>
     b @ rest = cells_bytes (HostLittle cf) (unsent q) @ concat hs \<and>
     (hs = [] \<or> unsent q = [] \<and> hs = [hb_frame cf (pq_ack_seq_num q)]) \<and>
     (\<not> pc_IsClosed c' \<longrightarrow> rest = cells_bytes (HostLittle cf) (unsent q')))"

lemma emits_closed:
  assumes "emits inp peer cf q ms (c, w) (c1, w1)" and "pc_IsClosed c2" and "pc_q c2 = pc_q c1" and "sends c1 c2"
    and "\<And>t. inp t w2 = inp t w1"
  shows "emits inp peer cf q ms (c, w) (c2, w2)"
proof -
  obtain q' b rest hs where *: "pc_q c1 = Some q'" "ptcp_rel (TcpQueueSize cf) (ToLittleEndian cf) (HostLittle cf) q' ms"
    "pq_read_seq_num q' = pq_read_seq_num q" "pq_ack_seq_num q' = pq_ack_seq_num q" "length (unsent q') \<le> length (unsent q)"
    "sends c c1" "\<And>t. inp t w1 = (if \<not> pc_IsClosed c \<and> t = peer (pc_sockfd c) then inp t w @ b else inp t w)"
    "b @ rest = cells_bytes (HostLittle cf) (unsent q) @ concat hs"
    "hs = [] \<or> unsent q = [] \<and> hs = [hb_frame cf (pq_ack_seq_num q)]"
    using assms(1) unfolding emits_def prod.case by blast
  show ?thesis unfolding emits_def prod.case
    by (rule exI [of _ q'], rule exI [of _ b], rule exI [of _ rest], rule exI [of _ hs])
      (use * assms(2-5) sends_trans [of c c1 c2] in simp)
qed

context duplex
begin

lemma SendPending_emits:
  assumes q: "pc_q c = Some q" "ptcp_rel (TcpQueueSize cf) (ToLittleEndian cf) (HostLittle cf) q ms"
  obtains ok c' w' where "pc_SendPending os cf c w = Some (ok, c', w')" and "emits inp peer cf q ms (c, w) (c', w')"
    and "\<not> pc_IsClosed c \<Longrightarrow> \<not> ok \<Longrightarrow> c' = c \<and> w' = w \<and> unsent q = [] \<or> pc_IsClosed c'"
proof -
  consider "pc_IsClosed c \<or> unsent q = []" | "\<not> pc_IsClosed c" "unsent q \<noteq> []" by blast
  then show ?thesis
  proof cases
    case 1
    then have "pc_SendPending os cf c w = Some (False, c, w)"
      using q ptcp_GetSendable_unsent [OF q(2)] by (auto simp: pc_SendPending_def)
    moreover have "emits inp peer cf q ms (c, w) (c, w)"
      unfolding emits_def prod.case
      by (rule exI [of _ q], rule exI [of _ "[]"], rule exI [of _ "cells_bytes (HostLittle cf) (unsent q)"], rule exI [of _ "[]"])
        (use q in simp)
    ultimately show ?thesis using that 1 by blast
  next
    case 2
    let ?u = "cells_bytes (HostLittle cf) (unsent q)"
    obtain ok c' w' k where run: "pc_SendPending os cf c w = Some (ok, c', w')"
      and out: "inp (peer (pc_sockfd c)) w' = inp (peer (pc_sockfd c)) w @ take k ?u" and k: "k \<le> 8 * length (unsent q)"
      and ok: "ok \<Longrightarrow> 8 dvd k \<and> pc_sockfd c' = pc_sockfd c \<and>
           (\<exists>q'. pc_q c' = Some q' \<and> ptcp_rel (TcpQueueSize cf) (ToLittleEndian cf) (HostLittle cf) q' ms \<and> unsent q' = drop (k div 8) (unsent q) \<and>
              pq_read_seq_num q' = pq_read_seq_num q \<and> pq_ack_seq_num q' = pq_ack_seq_num q)"
      and fail: "\<not> ok \<Longrightarrow> pc_IsClosed c' \<and> pc_q c' = Some q"
      by (rule pc_SendPending_spec [OF send stream_out q 2, of w]) blast
    have snd: "sends c c'" using pc_SendPending_sends [OF _ run, of "\<lambda>_. ()"] by (simp add: send_keeps_def)
    have other: "inp t w' = inp t w" if "t \<noteq> peer (pc_sockfd c)" for t using pc_SendPending_sends [OF send_other [OF that] run] by simp
    obtain q' where q': "pc_q c' = Some q'" "ptcp_rel (TcpQueueSize cf) (ToLittleEndian cf) (HostLittle cf) q' ms"
      "pq_read_seq_num q' = pq_read_seq_num q" "pq_ack_seq_num q' = pq_ack_seq_num q" "length (unsent q') \<le> length (unsent q)"
      "\<not> pc_IsClosed c' \<longrightarrow> drop k ?u = cells_bytes (HostLittle cf) (unsent q')"
    proof (cases ok)
      case True
      with ok obtain q' where q': "pc_q c' = Some q'" "ptcp_rel (TcpQueueSize cf) (ToLittleEndian cf) (HostLittle cf) q' ms"
        "unsent q' = drop (k div 8) (unsent q)" "pq_read_seq_num q' = pq_read_seq_num q" "pq_ack_seq_num q' = pq_ack_seq_num q" "8 dvd k"
        by blast
      have "drop k ?u = cells_bytes (HostLittle cf) (drop (k div 8) (unsent q))"
        using q'(6) cells_bytes_drop [of "HostLittle cf" "k div 8" "unsent q"] by simp
      then show ?thesis using that q' by simp
    next
      case False
      then show ?thesis using that [of q] fail q(2) by simp
    qed
    have "emits inp peer cf q ms (c, w) (c', w')"
      unfolding emits_def prod.case
      by (rule exI [of _ q'], rule exI [of _ "take k ?u"], rule exI [of _ "drop k ?u"], rule exI [of _ "[]"])
        (use q' snd other out 2 in auto)
    then show ?thesis using that run fail by blast
  qed
qed

lemma SendHB_emits:
  assumes q: "pc_q c = Some q" "ptcp_rel (TcpQueueSize cf) (ToLittleEndian cf) (HostLittle cf) q ms" and hb: "hb_inv cf c"
    and live: "\<not> pc_IsClosed c"
  obtains c' w' where "pc_SendHB os cf now c w = Some (c', w')" and "emits inp peer cf q ms (c, w) (c', w')"
proof -
  let ?wl = "ToLittleEndian cf" and ?hl = "HostLittle cf"
  let ?c = "c\<lparr>pc_now := now\<rparr>"
  have c: "pc_q ?c = Some q" "pc_IsClosed ?c = pc_IsClosed c" "pc_sockfd ?c = pc_sockfd c" "sends c c' \<longleftrightarrow> sends ?c c'" for c'
    using q by (auto simp: sends_def steady_def pc_IsClosed_def)
  have same: "emits inp peer cf q ms (c, w) (c', w') \<longleftrightarrow> emits inp peer cf q ms (?c, w) (c', w')" for c' w'
    unfolding emits_def prod.case c(2-) ..
  show ?thesis
  proof (cases "now - pc_send_time c < HeartBeatInverval cf")
    case True
    then have "pc_SendHB os cf now c w = Some (?c, w)" by (simp add: pc_SendHB_def)
    moreover have "emits inp peer cf q ms (?c, w) (?c, w)"
      unfolding emits_def prod.case
      by (rule exI [of _ q], rule exI [of _ "[]"], rule exI [of _ "cells_bytes (HostLittle cf) (unsent q)"], rule exI [of _ "[]"])
        (use q in simp)
    ultimately show ?thesis using that same by blast
  next
    case due: False
    obtain ok c1 w1 where P: "pc_SendPending os cf ?c w = Some (ok, c1, w1)" "emits inp peer cf q ms (?c, w) (c1, w1)"
      and idle: "\<not> ok \<Longrightarrow> c1 = ?c \<and> w1 = w \<and> unsent q = [] \<or> pc_IsClosed c1"
      using SendPending_emits [OF c(1) q(2), of w] live c(2) by metis
    show ?thesis
    proof (cases ok)
      case True
      then have "pc_SendHB os cf now c w = Some (c1, w1)" using P due q(1) by (simp add: pc_SendHB_def)
      then show ?thesis using that P(2) same by blast
    next
      case False
      obtain q1 where q1: "pc_q c1 = Some q1" "pq_ack_seq_num q1 = pq_ack_seq_num q" and s1: "sends ?c c1"
        using P(2) by (auto simp: emits_def)
      have "hb_inv cf ?c" using hb by (simp add: hb_inv_def)
      then have hb1: "hb_inv cf c1" using s1 unfolding hb_inv_iff sends_def steady_def by simp
      let ?h = "\<lparr>hdr_size = 8, hdr_msg_type = HeartbeatMsg_msg_type, hdr_ack_seq = pq_ack_seq_num q\<rparr>"
      let ?c2 = "c1\<lparr>pc_hbmsg := ConvertByteOrder ?wl ?hl ?h\<rparr>"
      have run: "pc_SendHB os cf now c w = Some (send_heartbeat os cf ?c2 w1)"
        using P(1) False due q(1) q1 hb_inv_set_ack [OF hb1, of "pq_ack_seq_num q"] by (simp add: pc_SendHB_def ptcp_MyAck_def)
      obtain sent w2 where call: "sys_send os (pc_sockfd c1) (hb_frame cf (pq_ack_seq_num q)) w1 = (sent, w2)" by fastforce
      note inp2 = send_inp [OF call]
      let ?c' = "if sent < 0 \<and> tcp_get_last_error os w2 = TCP_ERR_AGAIN then ?c2
        else if sent \<noteq> 8 then pc_Close ''Send error'' (if sent < 0 then tcp_get_last_error os w2 else 0) ?c2
        else ?c2\<lparr>pc_send_time := pc_now ?c2\<rparr>"
      have beat: "send_heartbeat os cf ?c2 w1 = (?c', w2)"
        using call by (simp add: send_heartbeat_def tcp_send_def hdr_bytes_Convert hb_frame_def sizeof_MsgHeader_def)
      have snd: "sends c1 ?c'" using hb1 unfolding hb_inv_def by (auto simp: sends_def steady_def pc_Close_def ConvertByteOrder_def)
      consider "pc_IsClosed c1" | "c1 = ?c" "w1 = w" "unsent q = []" "\<not> pc_IsClosed c1" using idle [OF False] by blast
      then have "emits inp peer cf q ms (?c, w) (?c', w2)"
      proof cases
        case 1
        then have "sent < 0" using send_invalid [of "hb_frame cf (pq_ack_seq_num q)" w1] call by (simp add: pc_IsClosed_def)
        then have w2: "inp t w2 = inp t w1" for t using inp2 [of t] by simp
        have "pc_IsClosed ?c'" "pc_q ?c' = pc_q c1" using 1 by (auto simp: pc_Close_def pc_IsClosed_def)
        then show ?thesis using emits_closed [OF P(2)] snd w2 by blast
      next
        case 2
        have lim: "sent \<le> 8" using send_okD [OF send(1) call] by (simp add: hb_frame_def)
        let ?n = "nat sent" and ?f = "hb_frame cf (pq_ack_seq_num q)"
        have open_rest: "\<not> pc_IsClosed ?c' \<Longrightarrow> ?n = 0 \<or> ?n = 8"
          by (auto simp: pc_Close_def pc_IsClosed_def split: if_split_asm)
        have q': "pc_q ?c' = Some q" using 2 c(1) by (auto simp: pc_Close_def)
        define hs where "hs = (if ?n = 0 then [] else [?f])"
        have "take ?n ?f @ (if ?n = 0 then [] else drop ?n ?f) = cells_bytes ?hl (unsent q) @ concat hs" using 2 by (simp add: hs_def)
        moreover have "\<not> pc_IsClosed ?c' \<Longrightarrow> (if ?n = 0 then [] else drop ?n ?f) = cells_bytes ?hl (unsent q)"
          using open_rest 2 by (auto simp: hb_frame_def)
        moreover have "inp t w2 = (if \<not> pc_IsClosed ?c \<and> t = peer (pc_sockfd ?c) then inp t w @ take ?n ?f else inp t w)" for t
          using inp2 [of t] 2 by simp
        moreover have "sends ?c ?c'" using snd 2(1) by simp
        ultimately show ?thesis unfolding emits_def prod.case
          by (intro exI [of _ q] exI [of _ "take ?n ?f"] exI [of _ "if ?n = 0 then [] else drop ?n ?f"] exI [of _ hs])
            (use q' q(2) 2 in \<open>simp add: hs_def\<close>)
      qed
      then show ?thesis using that run beat same by auto
    qed
  qed
qed

end

end
