(* ===== verification/Delivery.thy ===== *)
theory Delivery
  imports Session_Net
begin

text \<open>
  A connection that delivers: the locale \<open>delivering\<close> adds to \<open>duplex\<close> that the two ends of one connection accept data and
  hand over what has arrived, as blocking sockets do while the connection lasts. Over it \<open>tcp_send_all\<close> and
  \<open>tcp_recv_all\<close> transfer whole messages.
\<close>

section \<open>Transfers over a connection that delivers\<close>

lemma tcp_send_loop_all:
  assumes "\<And>buf w. buf \<noteq> [] \<Longrightarrow> 0 < fst (sys_send os s buf w)"
  shows "fst (tcp_send_loop os s buf n w)"
  using assms
proof (induction os s buf n w rule: tcp_send_loop.induct)
  case (1 os s buf n w)
  obtain ret w1 where step: "sys_send os s (drop n buf) w = (ret, w1)" by fastforce
  have "0 < ret" if "n < length buf" using "1.prems" [of "drop n buf" w] that step by simp
  then show ?case using "1.IH" [OF _ _ _ "1.prems", of ret w1] step
    by (subst tcp_send_loop.simps) (auto simp: tcp_send_def)
qed

lemma tcp_recv_loop_all:
  assumes "recv_ok os" and "stream_recv os inp" and "\<And>n w. 0 < n \<Longrightarrow> inp s w \<noteq> [] \<Longrightarrow> 0 < fst (fst (sys_recv os s n w))"
    and "len - n \<le> length (inp s w)" and "tcp_recv_loop os s len n buf w = Some (ok, err, buf', w')"
  shows ok
  using assms
proof (induction os s len n buf w rule: tcp_recv_loop.induct)
  case (1 os s len n buf w)
  show ?case
  proof (cases "n < len")
    case False
    then show ?thesis using "1.prems"(5) by (subst (asm) tcp_recv_loop.simps) simp
  next
    case True
    obtain ret data w1 where step: "sys_recv os s (len - n) w = ((ret, data), w1)" by (metis surj_pair)
    have "inp s w \<noteq> []" using "1.prems"(4) True by auto
    then have ret: "0 < ret" using "1.prems"(3) [of "len - n" w] True step by simp
    note got = recv_okD(1) [OF "1.prems"(1) ret step] and inp1 = stream_recvD(1) [OF "1.prems"(2) step]
    obtain b where b: "tcp_recv os s n (len - n) buf w = Some (ret, b, w1)"
      and rest: "tcp_recv_loop os s len (n + nat ret) b w1 = Some (ok, err, buf', w')"
      using "1.prems"(5) True step ret
      by (subst (asm) tcp_recv_loop.simps) (auto simp: tcp_recv_def split: option.split_asm)
    have "len - (n + nat ret) \<le> length (inp s w1)" using "1.prems"(4) inp1 ret got by simp
    with "1.IH" [OF True b refl refl _ "1.prems"(1,2,3) _ rest] ret show ?thesis by simp
  qed
qed

locale delivering = duplex os inp peer
  for os :: "'w os" and inp :: "int \<Rightarrow> 'w \<Rightarrow> u8 list" and peer :: "int \<Rightarrow> int" +
  fixes fd :: int
  assumes send_delivers: "s = fd \<or> s = peer fd \<Longrightarrow> buf \<noteq> [] \<Longrightarrow> 0 < fst (sys_send os s buf w)"
    and recv_delivers: "s = fd \<or> s = peer fd \<Longrightarrow> 0 < n \<Longrightarrow> inp s w \<noteq> [] \<Longrightarrow> 0 < fst (fst (sys_recv os s n w))"
begin

lemma send_all_arrives:
  assumes "s = fd \<or> s = peer fd"
  obtains err w' where "tcp_send_all os s buf w = (True, err, w')"
    and "\<And>t. inp t w' = (if t = peer s then inp t w @ buf else inp t w)"
proof -
  obtain ok err w' where run: "tcp_send_all os s buf w = (ok, err, w')" by (cases "tcp_send_all os s buf w") auto
  have ok using tcp_send_loop_all [of os s buf 0 w] send_delivers [OF assms] run by (simp add: tcp_send_all_def)
  moreover have "inp (peer s) w' = inp (peer s) w @ buf"
    using tcp_send_loop_stream [OF send(1) stream_out, of 0 buf s w ok err w'] run \<open>ok\<close>
    by (auto simp: tcp_send_all_def segment_def)
  moreover have "inp t w' = inp t w" if "t \<noteq> peer s" for t
    by (rule tcp_send_all_keeps_on [OF send_other [OF that] run])
  ultimately show ?thesis using that run by simp
qed

lemma recv_all_gets:
  assumes s: "s = fd \<or> s = peer fd" and inp: "inp s w = data @ rest" and len: "length data = len"
  obtains err w' where "tcp_recv_all os s len (replicate len 0) w = Some (True, err, data, w')"
    and "\<And>t. inp t w' = (if t = s then rest else inp t w)"
proof -
  obtain ok err buf w' k where run: "tcp_recv_loop os s len 0 (replicate len 0) w = Some (ok, err, buf, w')"
    and "length buf = len" "inp s w = segment 0 k buf @ inp s w'" "ok \<longleftrightarrow> k = len"
    using tcp_recv_loop_stream [OF recv(1) stream_in, of 0 len "replicate len 0" s w] by auto
  moreover have ok using tcp_recv_loop_all [OF recv(1) stream_in _ _ run] recv_delivers [OF s] inp len by simp
  ultimately have "buf = data" "inp s w' = rest" using inp len by (auto simp: segment_def)
  moreover have run': "tcp_recv_all os s len (replicate len 0) w = Some (ok, err, buf, w')"
    using run by (simp add: tcp_recv_all_def)
  moreover have "inp t w' = inp t w" if "t \<noteq> s" for t by (rule tcp_recv_all_keeps_on [OF recv_other [OF that] run'])
  ultimately show ?thesis using that \<open>ok\<close> by simp
qed

end

end
