(* ===== verification/Session_Flow.thy ===== *)
theory Session_Flow
  imports Session_Net
begin

text \<open>
  One direction of a session between two connections, from the queue file of the writer through
  the network and the receive buffer to the application of the reader. \<open>flow\<close> relates what is in each
  of these places to the messages written and received; the lemmas show that sending, receiving,
  acknowledging and taking a message keep it.
\<close>

section \<open>One direction of a session\<close>

type_synonym app_msg = "u16 \<times> u8 list"

text \<open>
  One side of a session: its connection, the messages its application has written and those it has
  received, since the queue files were created.
\<close>

record side =
  sd_cf :: conf
  sd_conn :: ptcp_conn
  sd_written :: "app_msg list"
  sd_received :: "app_msg list"

abbreviation sd_open :: "side \<Rightarrow> bool" where
  "sd_open X \<equiv> \<not> pc_IsClosed (sd_conn X)"

abbreviation sd_rel :: "side \<Rightarrow> ptcp_queue \<Rightarrow> msg_header list list \<Rightarrow> bool" where
  "sd_rel X \<equiv> ptcp_rel (TcpQueueSize (sd_cf X)) (ToLittleEndian (sd_cf X)) (HostLittle (sd_cf X))"

definition msg_of :: "conf \<Rightarrow> msg_header list \<Rightarrow> app_msg" where
  "msg_of cf m = (hdr_msg_type (msg_header_of (ToLittleEndian cf) (HostLittle cf) m), msg_body (ToLittleEndian cf) (HostLittle cf) m)"

text \<open>
  A stored message the peer can receive: not typed as a heartbeat, small enough for the peer's buffer,
  and acknowledging messages that this side has received.
\<close>

definition stored_ok :: "side \<Rightarrow> conf \<Rightarrow> msg_header list \<Rightarrow> bool" where
  "stored_ok X pcf m \<longleftrightarrow>
     8 * length m \<le> unat (TcpRecvBufMaxSize pcf) \<and>
     hdr_msg_type (msg_header_of (ToLittleEndian (sd_cf X)) (HostLittle (sd_cf X)) m) \<noteq> HeartbeatMsg_msg_type \<and>
     (\<exists>i \<le> length (sd_received X). hdr_ack_seq (msg_header_of (ToLittleEndian (sd_cf X)) (HostLittle (sd_cf X)) m) = word_of_nat i)"

text \<open>
  What the queue files of the two sides say about the messages from \<open>X\<close> to \<open>Y\<close>: \<open>Y\<close> has received the
  first ones \<open>X\<close> has written, as many as its acknowledgement number says; \<open>X\<close> holds all but the
  first \<open>a\<close>, which \<open>Y\<close> has acknowledged.
\<close>

definition files_ok :: "side \<Rightarrow> side \<Rightarrow> ptcp_queue \<Rightarrow> ptcp_queue \<Rightarrow> msg_header list list \<Rightarrow> nat \<Rightarrow> bool" where
  "files_ok X Y qX qY ms a \<longleftrightarrow>
     pc_q (sd_conn X) = Some qX \<and> pc_q (sd_conn Y) = Some qY \<and> sd_rel X qX ms \<and>
     pq_read_seq_num qX = word_of_nat a \<and> pq_ack_seq_num qY = word_of_nat (length (sd_received Y)) \<and>
     a \<le> length (sd_received Y) \<and> length (sd_received Y) \<le> length (sd_written X) \<and> length (sd_written X) < 2 ^ 31 \<and>
     map (msg_of (sd_cf X)) ms = drop a (sd_written X) \<and> sd_received Y = take (length (sd_received Y)) (sd_written X) \<and>
     list_all (stored_ok X (sd_cf Y)) ms"

text \<open>
  The stream from \<open>X\<close> to \<open>Y\<close> that \<open>Y\<close> reads from socket \<open>s\<close>: the complete frames \<open>fs\<close> in the buffer and those
  that follow (\<open>hs @ ns\<close>: a beginning \<open>t\<close> in the buffer, then what is under way, then the \<open>rest\<close> that \<open>X\<close>
  has not sent) carry exactly the messages \<open>Y\<close> has not received. As long as \<open>X\<close> is open, \<open>rest\<close> are
  its unsent cells, and they belong to the messages \<open>ns\<close>.
\<close>

definition stream :: "(int \<Rightarrow> 'w \<Rightarrow> u8 list) \<Rightarrow> side \<Rightarrow> side \<Rightarrow> int \<Rightarrow> 'w \<Rightarrow> ptcp_queue \<Rightarrow> msg_header list list \<Rightarrow> nat \<Rightarrow>
    u8 list list \<Rightarrow> u8 list \<Rightarrow> u8 list list \<Rightarrow> u8 list list \<Rightarrow> u8 list \<Rightarrow> bool" where
  "stream inp X Y s w qX ms a fs t hs ns rest \<longleftrightarrow>
     front_rel (sd_cf Y) (sd_conn Y) fs t \<and> t @ inp s w @ rest = concat (hs @ ns) \<and> list_all (wf_frame (sd_cf Y)) (hs @ ns) \<and>
     app_frames (sd_cf Y) ns = ns \<and>
     app_frames (sd_cf Y) (fs @ hs @ ns) = map (cells_bytes (HostLittle (sd_cf X))) (drop (length (sd_received Y) - a) ms) \<and>
     (\<forall>g \<in> set (hs @ ns). \<exists>i \<le> length (sd_received X). hdr_ack_seq (wire_hdr (ToLittleEndian (sd_cf Y)) g) = word_of_nat i) \<and>
     (sd_open X \<longrightarrow> rest = cells_bytes (HostLittle (sd_cf X)) (unsent qX) \<and> length rest \<le> length (concat ns))"

definition in_flight :: "(int \<Rightarrow> 'w \<Rightarrow> u8 list) \<Rightarrow> side \<Rightarrow> side \<Rightarrow> int \<Rightarrow> 'w \<Rightarrow> ptcp_queue \<Rightarrow> msg_header list list \<Rightarrow> nat \<Rightarrow> bool" where
  "in_flight inp X Y s w qX ms a \<longleftrightarrow> (\<exists>fs t hs ns rest. stream inp X Y s w qX ms a fs t hs ns rest)"

text \<open>
  Both parts together: \<open>live\<close> says that what \<open>Y\<close> has received was sent on the present connection (so
  acknowledgements stay behind \<open>send_idx_\<close>), \<open>r\<close> is the socket \<open>Y\<close> reads, if any.
\<close>

definition flow :: "(int \<Rightarrow> 'w \<Rightarrow> u8 list) \<Rightarrow> side \<Rightarrow> side \<Rightarrow> 'w \<Rightarrow> bool \<Rightarrow> int option \<Rightarrow> bool" where
  "flow inp X Y w live r \<longleftrightarrow> (\<exists>qX qY ms a. files_ok X Y qX qY ms a \<and>
     (live \<longrightarrow> length (unsent qX) \<le> length (concat (drop (length (sd_received Y) - a) ms))) \<and>
     (case r of None \<Rightarrow> True | Some s \<Rightarrow> in_flight inp X Y s w qX ms a))"

definition reads :: "side \<Rightarrow> int option" where
  "reads X = (if sd_open X then Some (pc_sockfd (sd_conn X)) else None)"

text \<open>What does not depend on the peer.\<close>

definition side_ok :: "side \<Rightarrow> bool" where
  "side_ok X \<longleftrightarrow> recv_conf (sd_cf X) \<and> hb_inv (sd_cf X) (sd_conn X) \<and>
     length (pc_recvbuf (sd_conn X)) = unat (pc_recvbuf_size (sd_conn X)) \<and>
     unat (pc_recvbuf_size (sd_conn X)) \<le> unat (TcpRecvBufMaxSize (sd_cf X)) \<and> 8 \<le> unat (TcpRecvBufMaxSize (sd_cf X))"

definition linked :: "(int \<Rightarrow> int) \<Rightarrow> side \<Rightarrow> side \<Rightarrow> bool" where
  "linked peer X Y \<longleftrightarrow> sd_open X \<and> sd_open Y \<longrightarrow> pc_sockfd (sd_conn Y) = peer (pc_sockfd (sd_conn X))"

definition session_ok :: "(int \<Rightarrow> 'w \<Rightarrow> u8 list) \<Rightarrow> (int \<Rightarrow> int) \<Rightarrow> side \<Rightarrow> side \<Rightarrow> 'w \<Rightarrow> bool" where
  "session_ok inp peer X Y w \<longleftrightarrow>
     ToLittleEndian (sd_cf X) = ToLittleEndian (sd_cf Y) \<and> side_ok X \<and> side_ok Y \<and> linked peer X Y \<and>
     flow inp X Y w (sd_open X) (reads Y) \<and> flow inp Y X w (sd_open Y) (reads X)"

lemma files_ok_length:
  assumes "files_ok X Y qX qY ms a"
  shows "length ms = length (sd_written X) - a" and "a \<le> length (sd_written X)"
proof -
  have "length (map (msg_of (sd_cf X)) ms) = length (drop a (sd_written X))" using assms by (simp add: files_ok_def)
  then show "length ms = length (sd_written X) - a" and "a \<le> length (sd_written X)" using assms by (simp_all add: files_ok_def)
qed

lemma front_rel_sends: "sends c c' \<Longrightarrow> front_rel cf c' fs t \<longleftrightarrow> front_rel cf c fs t"
  by (simp add: sends_def front_rel_def rcv_inv_def)

lemma app_frames_append [simp]: "app_frames cf (xs @ ys) = app_frames cf xs @ app_frames cf ys"
  by (simp add: app_frames_def)

lemma app_frames_Nil [simp]: "app_frames cf [] = []"
  by (simp add: app_frames_def)

lemma app_frames_idem: "app_frames cf xs = xs \<longleftrightarrow> list_all (\<lambda>g. \<not> is_heartbeat (ToLittleEndian cf) g) xs"
  by (simp add: app_frames_def filter_id_conv list_all_iff)

lemma hb_frame_props [simp]:
  "wire_hdr (ToLittleEndian cf) (hb_frame cf a) = \<lparr>hdr_size = 8, hdr_msg_type = HeartbeatMsg_msg_type, hdr_ack_seq = a\<rparr>"
  "length (hb_frame cf a) = 8"
  by (simp_all add: hb_frame_def wire_hdr_def)

lemma hb_frame_wf: "ToLittleEndian cf' = ToLittleEndian cf \<Longrightarrow> 8 \<le> unat (TcpRecvBufMaxSize cf') \<Longrightarrow> wf_frame cf' (hb_frame cf a)"
  using hb_frame_props [of cf a] by (simp add: wf_frame_def frame_len_def blocks_def)

lemma in_flightI: "stream inp X Y s w qX ms a fs t hs ns rest \<Longrightarrow> in_flight inp X Y s w qX ms a"
  unfolding in_flight_def by blast

lemma flowI:
  assumes "files_ok X Y qX qY ms a" and "live \<Longrightarrow> length (unsent qX) \<le> length (concat (drop (length (sd_received Y) - a) ms))"
    and "\<And>s. r = Some s \<Longrightarrow> in_flight inp X Y s w qX ms a"
  shows "flow inp X Y w live r"
  unfolding flow_def by (intro exI [of _ qX] exI [of _ qY] exI [of _ ms] exI [of _ a]) (use assms in \<open>simp split: option.split\<close>)

section \<open>Steps that send\<close>

text \<open>The side that sends.\<close>

lemma emit_in_flight:
  assumes F: "in_flight inp X Y s w q ms a" and E: "emits inp peer (sd_cf X) q ms (sd_conn X, w) (c', w')"
    and wl: "ToLittleEndian (sd_cf X) = ToLittleEndian (sd_cf Y)" and max: "8 \<le> unat (TcpRecvBufMaxSize (sd_cf Y))"
    and link: "sd_open X \<Longrightarrow> s = peer (pc_sockfd (sd_conn X))" and ack: "pq_ack_seq_num q = word_of_nat (length (sd_received X))"
    and q': "pc_q c' = Some q'"
  shows "in_flight inp (X\<lparr>sd_conn := c'\<rparr>) Y s w' q' ms a"
proof -
  let ?u = "cells_bytes (HostLittle (sd_cf X))"
  obtain b rest' hb where e: "length (unsent q') \<le> length (unsent q)" "sends (sd_conn X) c'"
    "\<And>t. inp t w' = (if sd_open X \<and> t = peer (pc_sockfd (sd_conn X)) then inp t w @ b else inp t w)"
    "b @ rest' = ?u (unsent q) @ concat hb" "hb = [] \<or> unsent q = [] \<and> hb = [hb_frame (sd_cf X) (pq_ack_seq_num q)]"
    "\<not> pc_IsClosed c' \<longrightarrow> rest' = ?u (unsent q')"
    using E [unfolded emits_def prod.case q' option.inject] by blast
  obtain fs t hs ns rest where f: "front_rel (sd_cf Y) (sd_conn Y) fs t" "t @ inp s w @ rest = concat (hs @ ns)"
    "list_all (wf_frame (sd_cf Y)) (hs @ ns)" "app_frames (sd_cf Y) ns = ns"
    "app_frames (sd_cf Y) (fs @ hs @ ns) = map ?u (drop (length (sd_received Y) - a) ms)"
    "\<forall>g \<in> set (hs @ ns). \<exists>i \<le> length (sd_received X). hdr_ack_seq (wire_hdr (ToLittleEndian (sd_cf Y)) g) = word_of_nat i"
    "sd_open X \<longrightarrow> rest = ?u (unsent q) \<and> length rest \<le> length (concat ns)"
    using F unfolding in_flight_def stream_def by blast
  show ?thesis
  proof (cases "sd_open X")
    case False
    then have "pc_IsClosed c'" using e(2) by (simp add: sends_def steady_def pc_IsClosed_def)
    then show ?thesis unfolding in_flight_def stream_def
      by (intro exI [of _ fs] exI [of _ t] exI [of _ hs] exI [of _ ns] exI [of _ rest]) (use f e(3) False in simp)
  next
    case True
    have inp': "inp s w' = inp s w @ b" using e(3) True link by simp
    have "t @ inp s w' @ rest' = (t @ inp s w @ rest) @ concat hb" using f(7) True e(4) by (simp add: inp')
    then have str: "t @ inp s w' @ rest' = concat (hs @ ns) @ concat hb" by (simp only: f(2))
    show ?thesis
    proof (cases "hb = []")
      case hb: True
      have "length rest' \<le> length (concat ns)" if "\<not> pc_IsClosed c'"
      proof -
        have "8 * length (unsent q) \<le> length (concat ns)" using f(7) True by auto
        then show ?thesis using that e(1,6) by simp
      qed
      then show ?thesis unfolding in_flight_def stream_def
        by (intro exI [of _ fs] exI [of _ t] exI [of _ hs] exI [of _ ns] exI [of _ rest']) (use f(1,3-6) str hb e(6) in simp)
    next
      case False
      let ?h = "hb_frame (sd_cf X) (pq_ack_seq_num q)"
      have hb: "hb = [?h]" "unsent q = []" using e(5) False by auto
      have h: "wf_frame (sd_cf Y) ?h" "app_frames (sd_cf Y) [?h] = []" "hdr_ack_seq (wire_hdr (ToLittleEndian (sd_cf Y)) ?h) = word_of_nat (length (sd_received X))"
        using hb_frame_wf [of "sd_cf Y" "sd_cf X"] wl max hb_frame_props(1) [of "sd_cf X"] ack by (simp_all add: app_frames_def is_heartbeat_def)
      have h4: "\<exists>i \<le> length (sd_received X). hdr_ack_seq (wire_hdr (ToLittleEndian (sd_cf Y)) ?h) = word_of_nat i"
        by (rule exI [of _ "length (sd_received X)"]) (simp only: h(3) le_refl simp_thms)
      have "unsent q' = []" using e(1) hb(2) by simp
      then show ?thesis unfolding in_flight_def stream_def
        by (intro exI [of _ fs] exI [of _ t] exI [of _ "hs @ ns @ [?h]"] exI [of _ "[]"] exI [of _ rest'])
          (use f(1,3-6) str hb h(1,2) h4 e(6) in \<open>simp add: ball_Un\<close>)
    qed
  qed
qed

lemma emit_files:
  assumes C: "files_ok X Y q qY ms a" and E: "emits inp peer (sd_cf X) q ms (sd_conn X, w) (c', w')"
  obtains q' where "files_ok (X\<lparr>sd_conn := c'\<rparr>) Y q' qY ms a" and "length (unsent q') \<le> length (unsent q)"
proof -
  obtain q' where "pc_q c' = Some q'" "sd_rel X q' ms" "pq_read_seq_num q' = pq_read_seq_num q" "length (unsent q') \<le> length (unsent q)"
    using E unfolding emits_def prod.case by blast
  then show ?thesis using that [of q'] C by (simp add: files_ok_def stored_ok_def [abs_def])
qed

lemma flow_weaken: "flow inp X Y w live r \<Longrightarrow> (live' \<longrightarrow> live) \<Longrightarrow> r' = None \<or> r' = r \<Longrightarrow> flow inp X Y w live' r'"
  unfolding flow_def by fastforce

lemma emit_flow:
  assumes D: "flow inp X Y w live r"
    and E: "\<And>q ms. pc_q (sd_conn X) = Some q \<Longrightarrow> sd_rel X q ms \<Longrightarrow> emits inp peer (sd_cf X) q ms (sd_conn X, w) (c', w')"
    and wl: "ToLittleEndian (sd_cf X) = ToLittleEndian (sd_cf Y)" and Y: "side_ok Y"
    and link: "\<And>s. sd_open X \<Longrightarrow> r = Some s \<Longrightarrow> s = peer (pc_sockfd (sd_conn X))"
    and ack: "\<And>q. pc_q (sd_conn X) = Some q \<Longrightarrow> pq_ack_seq_num q = word_of_nat (length (sd_received X))"
  shows "flow inp (X\<lparr>sd_conn := c'\<rparr>) Y w' live r"
proof -
  obtain q qY ms a where d: "files_ok X Y q qY ms a"
    "live \<longrightarrow> length (unsent q) \<le> length (concat (drop (length (sd_received Y) - a) ms))"
    "case r of None \<Rightarrow> True | Some s \<Rightarrow> in_flight inp X Y s w q ms a"
    using D unfolding flow_def by blast
  have q: "pc_q (sd_conn X) = Some q" "sd_rel X q ms" using d(1) by (simp_all add: files_ok_def)
  note e = E [OF q]
  obtain q' where f: "files_ok (X\<lparr>sd_conn := c'\<rparr>) Y q' qY ms a" "length (unsent q') \<le> length (unsent q)" by (rule emit_files [OF d(1) e])
  have q': "pc_q c' = Some q'" using f(1) by (simp add: files_ok_def)
  have "in_flight inp (X\<lparr>sd_conn := c'\<rparr>) Y s w' q' ms a" if "r = Some s" for s
    by (rule emit_in_flight [OF _ e wl _ _ ack [OF q(1)] q']) (use d(3) that Y link in \<open>auto simp: side_ok_def\<close>)
  with f d(2) show ?thesis by (intro flowI [OF f(1)]) auto
qed

text \<open>The direction in which the side that sends receives.\<close>

lemma emit_receiver:
  assumes D: "flow inp Y X w live r" and E: "emits inp peer (sd_cf X) q ms (sd_conn X, w) (c', w')" and q: "pc_q (sd_conn X) = Some q"
    and neq: "\<And>s. sd_open X \<Longrightarrow> r = Some s \<Longrightarrow> s \<noteq> peer (pc_sockfd (sd_conn X))"
  shows "flow inp Y (X\<lparr>sd_conn := c'\<rparr>) w' live r"
proof -
  obtain q' b where e: "pc_q c' = Some q'" "pq_ack_seq_num q' = pq_ack_seq_num q" "sends (sd_conn X) c'"
    "\<And>t. inp t w' = (if sd_open X \<and> t = peer (pc_sockfd (sd_conn X)) then inp t w @ b else inp t w)"
    using E unfolding emits_def prod.case by blast
  have keep: "inp s w' = inp s w" if "r = Some s" for s using e(4) neq that by auto
  obtain qY qX msY aY where d: "files_ok Y X qY qX msY aY"
    "live \<longrightarrow> length (unsent qY) \<le> length (concat (drop (length (sd_received X) - aY) msY))"
    "case r of None \<Rightarrow> True | Some s \<Rightarrow> in_flight inp Y X s w qY msY aY"
    using D unfolding flow_def by blast
  have "files_ok Y (X\<lparr>sd_conn := c'\<rparr>) qY q' msY aY" using d(1) e(1,2) q by (simp add: files_ok_def)
  moreover have "in_flight inp Y (X\<lparr>sd_conn := c'\<rparr>) s w' qY msY aY" if "r = Some s" for s
    using d(3) that keep [OF that] front_rel_sends [OF e(3)] by (simp add: in_flight_def stream_def)
  ultimately show ?thesis using d(2) by (intro flowI) simp_all
qed

text \<open>
  The state inside a call on side \<open>X\<close> that started when \<open>X\<close> read socket \<open>s\<close>, if it was open: the
  connection may have closed meanwhile.
\<close>

definition acting :: "(int \<Rightarrow> 'w \<Rightarrow> u8 list) \<Rightarrow> (int \<Rightarrow> int) \<Rightarrow> int option \<Rightarrow> side \<Rightarrow> side \<Rightarrow> 'w \<Rightarrow> bool" where
  "acting inp peer r X Y w \<longleftrightarrow>
     ToLittleEndian (sd_cf X) = ToLittleEndian (sd_cf Y) \<and> side_ok X \<and> side_ok Y \<and> reads X \<in> {None, r} \<and>
     r \<noteq> Some INVALID_TCP_SOCKET \<and> (\<forall>s t. r = Some s \<and> reads Y = Some t \<longrightarrow> t = peer s) \<and>
     flow inp X Y w (r \<noteq> None) (reads Y) \<and> flow inp Y X w (sd_open Y) r"

lemma acting_start: "session_ok inp peer X Y w \<Longrightarrow> acting inp peer (reads X) X Y w"
  by (auto simp: acting_def session_ok_def linked_def reads_def pc_IsClosed_def split: if_split_asm)

lemma acting_end: "acting inp peer r X Y w \<Longrightarrow> session_ok inp peer X Y w"
  unfolding acting_def session_ok_def
  by (auto simp: linked_def reads_def split: if_split_asm elim!: flow_weaken)

lemma flow_ack: "flow inp Y X w live r \<Longrightarrow> pc_q (sd_conn X) = Some q \<Longrightarrow> pq_ack_seq_num q = word_of_nat (length (sd_received X))"
  by (auto simp: flow_def files_ok_def)

lemma flow_queue: "flow inp X Y w live r \<Longrightarrow> \<exists>q ms. pc_q (sd_conn X) = Some q \<and> sd_rel X q ms"
  by (auto simp: flow_def files_ok_def)

lemma emit_acting:
  assumes A: "acting inp peer r X Y w" and neq: "\<And>s. peer s \<noteq> s"
    and E: "\<And>q ms. pc_q (sd_conn X) = Some q \<Longrightarrow> sd_rel X q ms \<Longrightarrow> emits inp peer (sd_cf X) q ms (sd_conn X, w) (c', w')"
  shows "acting inp peer r (X\<lparr>sd_conn := c'\<rparr>) Y w'"
proof -
  have A': "ToLittleEndian (sd_cf X) = ToLittleEndian (sd_cf Y)" "side_ok X" "side_ok Y" "reads X \<in> {None, r}"
    "r \<noteq> Some INVALID_TCP_SOCKET" "\<And>s t. r = Some s \<Longrightarrow> reads Y = Some t \<Longrightarrow> t = peer s"
    "flow inp X Y w (r \<noteq> None) (reads Y)" "flow inp Y X w (sd_open Y) r"
    using A by (simp_all add: acting_def)
  obtain q ms where q: "pc_q (sd_conn X) = Some q" "sd_rel X q ms" using flow_queue [OF A'(7)] by blast
  have snd: "sends (sd_conn X) c'" using E [OF q] unfolding emits_def prod.case by blast
  have "flow inp (X\<lparr>sd_conn := c'\<rparr>) Y w' (r \<noteq> None) (reads Y)"
  proof (rule emit_flow [OF A'(7) E A'(1,3) _ flow_ack [OF A'(8)]])
    show "s = peer (pc_sockfd (sd_conn X))" if "sd_open X" "reads Y = Some s" for s
      using that A'(4) A'(6) [of "pc_sockfd (sd_conn X)" s] by (simp add: reads_def)
  qed
  moreover have "flow inp Y (X\<lparr>sd_conn := c'\<rparr>) w' (sd_open Y) r"
  proof (rule emit_receiver [OF A'(8) E [OF q] q(1)])
    show "s \<noteq> peer (pc_sockfd (sd_conn X))" if "sd_open X" "r = Some s" for s
      using that A'(4) neq [of "pc_sockfd (sd_conn X)"] by (auto simp: reads_def)
  qed
  moreover have "side_ok (X\<lparr>sd_conn := c'\<rparr>)" using A'(2) snd unfolding side_ok_def hb_inv_iff by (simp add: sends_def steady_def)
  moreover have "reads (X\<lparr>sd_conn := c'\<rparr>) \<in> {None, r}" using A'(4) snd
    by (auto simp: reads_def sends_def steady_def pc_IsClosed_def split: if_split_asm)
  ultimately show ?thesis using A'(1,3,5,6) by (simp add: acting_def)
qed

section \<open>Steps that receive\<close>

lemma stream_acks:
  assumes "files_ok X Y qX qY ms a" and "i \<le> length (sd_received Y)"
  shows "acks_upto (pq_read_seq_num qX) (length (sd_received Y) - a) (word_of_nat i)"
proof -
  have C: "pq_read_seq_num qX = word_of_nat a" "a \<le> length (sd_received Y)" "length (sd_received Y) < 2 ^ 31"
    using assms(1) by (auto simp: files_ok_def)
  show ?thesis unfolding acks_upto_def
    by (rule exI [of _ "int i - int a"]) (use C assms(2) in \<open>simp add: of_nat_diff\<close>)
qed

lemma sent_part:
  assumes "ptcp_rel Bytes wl hl q ms" and "length (unsent q) \<le> length (concat (drop K ms))"
  shows "unat (pq_read_idx q) + length (concat (take K ms)) \<le> unat (pq_send_idx q)"
proof -
  have "length (concat ms) = length (concat (take K ms)) + length (concat (drop K ms))"
    by (metis append_take_drop_id concat_append length_append)
  then show ?thesis using assms(2) unsent_drop [OF assms(1)] ptcp_relD(2) [OF assms(1)] by simp
qed

lemma split_frames:
  assumes "gs0 @ gs' = hs @ ns" and "app_frames cf ns = ns" and "length rest \<le> length (concat gs')" and "length rest \<le> length (concat ns)"
  obtains hs' ns' where "gs' = hs' @ ns'" and "app_frames cf ns' = ns'" and "length rest \<le> length (concat ns')"
proof (cases "length gs0 \<le> length hs")
  case True
  then have "gs' = drop (length gs0) hs @ ns" using assms(1) by (metis append_eq_append_conv_if append_eq_conv_conj drop_append diff_is_0_eq' drop0)
  then show ?thesis using that assms(2,4) by blast
next
  case False
  then have "ns = drop (length hs) gs0 @ gs'" using assms(1) by (metis append_eq_append_conv_if append_eq_conv_conj linear)
  then have "app_frames cf gs' = gs'" using assms(2) unfolding app_frames_idem by simp
  then show ?thesis using that [of "[]" gs'] assms(3) by simp
qed

text \<open>The flow from a side that has processed acknowledgements and may have closed.\<close>

lemma acked_flow:
  assumes d: "files_ok X Y q qY ms a" "length (unsent q) \<le> length (concat (drop (length (sd_received Y) - a) ms))"
      "case r of None \<Rightarrow> True | Some s \<Rightarrow> in_flight inp X Y s w q ms a"
    and q': "pc_q c' = Some q'" "acked (sd_cf X) q ms (length (sd_received Y) - a) q'"
    and cl: "\<not> pc_IsClosed c' \<Longrightarrow> sd_open X" and keep: "\<And>s. r = Some s \<Longrightarrow> inp s w' = inp s w"
  shows "flow inp (X\<lparr>sd_conn := c'\<rparr>) Y w' live r"
proof -
  let ?K = "length (sd_received Y) - a" and ?X = "X\<lparr>sd_conn := c'\<rparr>"
  obtain j where j: "j \<le> ?K" "sd_rel X q' (drop j ms)" "pq_read_seq_num q' = pq_read_seq_num q + word_of_nat j" "unsent q' = unsent q"
    using q'(2) by (auto simp: acked_def)
  have C: "files_ok ?X Y q' qY (drop j ms) (a + j)"
  proof -
    have "set (drop j ms) \<subseteq> set ms" by (rule set_drop_subset)
    then have "list_all (stored_ok ?X (sd_cf Y)) (drop j ms)"
      using d(1) by (auto simp: files_ok_def list_all_iff stored_ok_def)
    moreover have "map (msg_of (sd_cf X)) (drop j ms) = drop (a + j) (sd_written X)"
      using d(1) by (simp add: files_ok_def add.commute flip: drop_map)
    ultimately show ?thesis using d(1) j q'(1) by (auto simp: files_ok_def)
  qed
  have "length (sd_received Y) - (a + j) + j = ?K" using j(1) by simp
  then have dd: "drop (length (sd_received Y) - (a + j)) (drop j ms) = drop ?K ms" by (simp only: drop_drop)
  have "in_flight inp ?X Y s w' q' (drop j ms) (a + j)" if r: "r = Some s" for s
  proof -
    obtain fs t hs ns rest where "stream inp X Y s w q ms a fs t hs ns rest" using d(3) r by (auto simp: in_flight_def)
    then have "stream inp ?X Y s w' q' (drop j ms) (a + j) fs t hs ns rest"
      using cl keep [OF r] unfolding stream_def dd j(4) by auto
    then show ?thesis by (rule in_flightI)
  qed
  moreover have "length (unsent q') \<le> length (concat (drop (length (sd_received Y) - (a + j)) (drop j ms)))" using d(2) unfolding dd j(4) .
  ultimately show ?thesis by (intro flowI [OF C])
qed

context duplex
begin

text \<open>
  \<open>Front\<close> on side \<open>X\<close>: it returns; the flow from \<open>X\<close> loses acknowledged messages only; the stream to
  \<open>X\<close> carries the same messages, the complete ones now being \<open>fs'\<close>, even if \<open>X\<close> closes.
\<close>

lemma Front_acting:
  assumes A: "acting inp peer (Some s) X Y w"
  obtains c' w' qY msY aY q' fs' t' hs' ns' rest where
    "pc_Front os (sd_cf X) (sd_conn X) w = Some (if fs' = [] then None else Some (pc_readidx c'), c', w')"
    and "flow inp (X\<lparr>sd_conn := c'\<rparr>) Y w' True (reads Y)" and "steady (sd_conn X) c'" and "pc_q c' = Some q'"
    and "files_ok Y (X\<lparr>sd_conn := c'\<rparr>) qY q' msY aY"
    and "sd_open Y \<Longrightarrow> length (unsent qY) \<le> length (concat (drop (length (sd_received X) - aY) msY))"
    and "stream inp Y (X\<lparr>sd_conn := c'\<rparr>) s w' qY msY aY fs' t' hs' ns' rest"
    and "fs' \<noteq> [] \<Longrightarrow> \<not> is_heartbeat (ToLittleEndian (sd_cf X)) (hd fs')"
    and "\<exists>fs t hs ns gs0. stream inp Y X s w qY msY aY fs t hs ns rest \<and> hs @ ns = gs0 @ hs' @ ns'"
proof -
  let ?hb = "is_heartbeat (ToLittleEndian (sd_cf X))" and ?inp = "inp(INVALID_TCP_SOCKET := inp s)"
  have A': "side_ok X" "s \<noteq> INVALID_TCP_SOCKET" "\<And>t. reads Y = Some t \<Longrightarrow> t = peer s"
    "flow inp X Y w True (reads Y)" "flow inp Y X w (sd_open Y) (Some s)" and rX: "sd_open X \<Longrightarrow> pc_sockfd (sd_conn X) = s"
    using A by (auto simp: acting_def reads_def)
  have inp': "?inp (pc_sockfd (sd_conn X)) v = inp s v" for v using rX by (cases "sd_open X") (auto simp: pc_IsClosed_def)
  obtain q qY ms a where d: "files_ok X Y q qY ms a" "length (unsent q) \<le> length (concat (drop (length (sd_received Y) - a) ms))"
    "case reads Y of None \<Rightarrow> True | Some t \<Rightarrow> in_flight inp X Y t w q ms a"
    using A'(4) unfolding flow_def by blast
  obtain qY' q2 msY aY fs t hs ns rest where r: "files_ok Y X qY' q2 msY aY"
    "sd_open Y \<longrightarrow> length (unsent qY') \<le> length (concat (drop (length (sd_received X) - aY) msY))"
    "stream inp Y X s w qY' msY aY fs t hs ns rest"
    using A'(5) unfolding flow_def in_flight_def option.case by blast
  have q: "pc_q (sd_conn X) = Some q" "sd_rel X q ms" "q2 = q" "pc_q (sd_conn Y) = Some qY'"
    and C: "pq_read_seq_num q = word_of_nat a" "a \<le> length (sd_received Y)" "length (sd_received Y) \<le> length (sd_written X)"
      "length (sd_written X) < 2 ^ 31"
    using d(1) r(1) by (auto simp: files_ok_def)
  let ?K = "length (sd_received Y) - a"
  note st = r(3) [unfolded stream_def]
  have conf: "recv_conf (sd_cf X)" using A'(1) by (simp add: side_ok_def)
  have K: "?K \<le> length ms" "?K < 2 ^ 31" using files_ok_length [OF d(1)] C by auto
  have acked: "acked (sd_cf X) q ms ?K q" by (rule acked_start [OF q(2) K sent_part [OF q(2) d(2)]])
  have acks: "\<forall>g \<in> set (hs @ ns). acks_upto (pq_read_seq_num q) ?K (hdr_ack_seq (wire_hdr (ToLittleEndian (sd_cf X)) g))"
    using st stream_acks [OF d(1)] by metis
  have fr: "front_rel (sd_cf X) (sd_conn X) fs t" "t @ ?inp (pc_sockfd (sd_conn X)) w @ rest = concat (hs @ ns)"
    "list_all (wf_frame (sd_cf X)) (hs @ ns)"
    unfolding inp' using st by blast+
  obtain c' w' fs' t' gs0 gs' q' where run: "pc_Front os (sd_cf X) (sd_conn X) w = Some (if fs' = [] then None else Some (pc_readidx c'), c', w')"
    and rel: "front_rel (sd_cf X) c' fs' t'" and str: "t' @ inp s w' @ rest = concat gs'" and wf: "list_all (wf_frame (sd_cf X)) gs'"
    and app: "app_frames (sd_cf X) (fs' @ gs') = app_frames (sd_cf X) (fs @ hs @ ns)"
    and first: "fs' \<noteq> [] \<Longrightarrow> \<not> ?hb (hd fs')" and q': "pc_q c' = Some q'" "acked (sd_cf X) q ms ?K q'" and gs: "hs @ ns = gs0 @ gs'"
    by (rule pc_Front_spec [OF conf recv stream_in_closed [OF A'(2)] fr q(1) acked acks, unfolded inp', folded app_frames_def]) blast
  have steady: "steady (sd_conn X) c'"
    using pc_Front_steady [OF _ _ run, of "\<lambda>_. ()"] by (simp add: recv_keeps_def)
  have keep: "inp t w' = inp t w" if "reads Y = Some t" for t
  proof -
    have t: "t \<noteq> s" "t \<noteq> INVALID_TCP_SOCKET" using A'(3) [OF that] peer_neq [of s] that by (auto simp: reads_def pc_IsClosed_def split: if_split_asm)
    then have "t \<noteq> pc_sockfd (sd_conn X)" using rX by (cases "sd_open X") (auto simp: pc_IsClosed_def)
    from pc_Front_steady [OF recv_other [OF this] recv_other [OF t(2)] run] show ?thesis by simp
  qed
  let ?X = "X\<lparr>sd_conn := c'\<rparr>"
  have "flow inp ?X Y w' True (reads Y)"
    by (rule acked_flow [OF d q' _ keep]) (use steady in \<open>auto simp: steady_def pc_IsClosed_def\<close>)
  moreover have "files_ok Y ?X qY' q' msY aY"
    using r(1) q q' by (auto simp: files_ok_def acked_def)
  moreover obtain hs' ns' where sp: "gs' = hs' @ ns'" "app_frames (sd_cf X) ns' = ns'"
    "sd_open Y \<longrightarrow> length rest \<le> length (concat ns')"
  proof (cases "sd_open Y")
    case True
    have "length (concat gs') = length t' + length (inp s w') + length rest" by (simp flip: str)
    then have le: "length rest \<le> length (concat gs')" by simp
    have le': "length rest \<le> length (concat ns)" using st True by blast
    from split_frames [OF gs [symmetric] _ le le', of "sd_cf X"] st show ?thesis using that by blast
  next
    case False
    then show ?thesis using that [of gs' "[]"] by simp
  qed
  moreover have "stream inp Y ?X s w' qY' msY aY fs' t' hs' ns' rest"
    unfolding stream_def using st rel str wf app gs sp by auto
  ultimately show ?thesis using that [of fs' c' w' q' qY' msY aY t' hs' ns' rest] run steady q'(1) r(2,3) first gs sp(1) by blast
qed

end

section \<open>Reading a message\<close>

text \<open>What the applications do with the pointer \<open>Front\<close> returned: the type and the body of the message. With a size
  below that of the header, \<open>body_size\<close> wraps and the view leaves the buffer.\<close>

definition read_msg :: "conf \<Rightarrow> u32 \<Rightarrow> ptcp_conn \<Rightarrow> app_msg option" where
  "read_msg cf i c = do {
     h \<leftarrow> header_at (HostLittle cf) (pc_recvbuf c) (unat i);
     if unat (hdr_size h) < 8 then None
     else Some (hdr_msg_type h, segment (unat i + 8) (unat i + unat (hdr_size h)) (pc_recvbuf c))
   }"

lemma read_msg_frame:
  assumes rel: "front_rel cf c (cells_bytes hl m # fs) t" and wf: "wf_msg (ToLittleEndian cf) hl m"
    and wl: "ToLittleEndian cf' = ToLittleEndian cf" "HostLittle cf' = hl"
  shows "read_msg cf (pc_readidx c) c = Some (msg_of cf' m)"
proof -
  let ?f = "cells_bytes hl m" and ?wl = "ToLittleEndian cf" and ?i = "unat (pc_readidx c)"
  note F = front_rel_first [OF rel] and M = msg_frame [OF wf]
  have h: "wire_hdr ?wl ?f = msg_header_of ?wl hl m" by (rule M(1))
  have sz: "unat (hdr_size (msg_header_of ?wl hl m)) = msg_size ?wl hl m" by (simp add: msg_header_of_def msg_size_def)
  have n: "8 \<le> msg_size ?wl hl m" "msg_size ?wl hl m \<le> length ?f"
    using wf M(3) blocks_bounds(1) [of 8 "msg_size ?wl hl m"] by (simp_all add: wf_msg_def)
  have "segment (?i + 8) (?i + msg_size ?wl hl m) (pc_recvbuf c) = segment 8 (msg_size ?wl hl m) (to_host cf ?f)"
  proof -
    have "segment 8 k (segment i (i + l) xs) = segment (i + 8) (i + k) xs" if "k \<le> l" for k i l and xs :: "u8 list"
      using that by (simp add: segment_def drop_take add.commute)
    then show ?thesis using n(2) by (simp flip: F(3))
  qed
  also have "\<dots> = take (msg_size ?wl hl m - 8) (drop 8 ?f)" by (simp add: segment_def to_host_def)
  also have "drop 8 ?f = cells_bytes hl (tl m)" using wf_msg_nonempty [OF wf] by (cases m) simp_all
  finally have "segment (?i + 8) (?i + msg_size ?wl hl m) (pc_recvbuf c) = msg_body ?wl hl m" by (simp add: msg_body_def)
  then show ?thesis using F(2) n(1) by (simp add: read_msg_def h sz msg_of_def wl)
qed

text \<open>The flow from a side that has received one more message.\<close>

lemma receive_flow:
  assumes D: "flow inp X Y w live r" and q: "pc_q (sd_conn X) = Some q" and c': "pc_q c' = Some (ptcp_MyAck_incr q)" "pc_IsClosed c' = pc_IsClosed (sd_conn X)"
  shows "flow inp (X\<lparr>sd_conn := c', sd_received := sd_received X @ [m]\<rparr>) Y w live r"
proof -
  let ?X = "X\<lparr>sd_conn := c', sd_received := sd_received X @ [m]\<rparr>"
  obtain qY ms a where d: "files_ok X Y q qY ms a"
    "live \<longrightarrow> length (unsent q) \<le> length (concat (drop (length (sd_received Y) - a) ms))"
    "case r of None \<Rightarrow> True | Some s \<Rightarrow> in_flight inp X Y s w q ms a"
    using D q unfolding flow_def by (auto simp: files_ok_def)
  have un: "unsent (ptcp_MyAck_incr q) = unsent q" by (simp add: unsent_def ptcp_MyAck_incr_def)
  have "list_all (stored_ok ?X (sd_cf Y)) ms"
    using d(1) unfolding files_ok_def list_all_iff stored_ok_def by (auto intro: le_SucI)
  moreover have "sd_rel X (ptcp_MyAck_incr q) ms" using d(1) by (simp add: files_ok_def ptcp_rel_def ptcp_MyAck_incr_def)
  ultimately have "files_ok ?X Y (ptcp_MyAck_incr q) qY ms a" using d(1) c' by (simp add: files_ok_def ptcp_MyAck_incr_def)
  moreover have "in_flight inp ?X Y s w (ptcp_MyAck_incr q) ms a" if r: "r = Some s" for s
  proof -
    obtain fs t hs ns rest where "stream inp X Y s w q ms a fs t hs ns rest" using d(3) r by (auto simp: in_flight_def)
    then have "stream inp ?X Y s w (ptcp_MyAck_incr q) ms a fs t hs ns rest"
      unfolding stream_def using c' un by (auto intro: le_SucI)
    then show ?thesis by (rule in_flightI)
  qed
  ultimately show ?thesis using d(2) un by (intro flowI) simp_all
qed

lemma concat_app_frames: "length (concat (app_frames cf gs)) \<le> length (concat gs)"
  by (induction gs) (simp_all add: app_frames_def)

lemma length_concat_cells: "length (concat (map (cells_bytes hl) ms)) = 8 * length (concat ms)"
  by (induction ms) simp_all

text \<open>The flow to a side that takes the first complete message out of its buffer.\<close>

lemma take_flow:
  assumes C: "files_ok Y X qY q msY aY" and st: "stream inp Y X s w qY msY aY (f # fs) t hs ns rest"
    and nhb: "\<not> is_heartbeat (ToLittleEndian (sd_cf X)) f" and wl: "ToLittleEndian (sd_cf X) = ToLittleEndian (sd_cf Y)"
  obtains c' m where "read_msg (sd_cf X) (pc_readidx (sd_conn X)) (sd_conn X) = Some m" and "pc_Pop (sd_cf X) (sd_conn X) = Some c'"
    and "pc_q c' = Some (ptcp_MyAck_incr q)" and "steady (sd_conn X) c'" and "pc_sockfd c' = pc_sockfd (sd_conn X)"
    and "pc_recvbuf c' = pc_recvbuf (sd_conn X)" and "pc_recvbuf_size c' = pc_recvbuf_size (sd_conn X)"
    and "flow inp Y (X\<lparr>sd_conn := c', sd_received := sd_received X @ [m]\<rparr>) w (sd_open Y) (Some s)"
proof -
  let ?cf = "sd_cf X" and ?D = "sd_received X" and ?W = "sd_written Y" and ?u = "cells_bytes (HostLittle (sd_cf Y))"
  let ?K = "length ?D - aY"
  note S = st [unfolded stream_def]
  have C': "pc_q (sd_conn Y) = Some qY" "pc_q (sd_conn X) = Some q" "sd_rel Y qY msY" "aY \<le> length ?D" "map (msg_of (sd_cf Y)) msY = drop aY ?W"
    "?D = take (length ?D) ?W" "length ?W < 2 ^ 31" "pq_ack_seq_num q = word_of_nat (length ?D)" "pq_read_seq_num qY = word_of_nat aY"
    "list_all (stored_ok Y ?cf) msY" "length ?D \<le> length ?W"
    using C by (simp_all add: files_ok_def)
  have app: "f # app_frames ?cf (fs @ hs @ ns) = map ?u (drop ?K msY)"
  proof -
    have "app_frames ?cf ((f # fs) @ hs @ ns) = map ?u (drop ?K msY)" using S by blast
    then show ?thesis using nhb by (simp add: app_frames_def)
  qed
  then obtain m0 where m0: "drop ?K msY = m0 # drop (Suc ?K) msY" "f = ?u m0" "app_frames ?cf (fs @ hs @ ns) = map ?u (drop (Suc ?K) msY)"
    by (metis (no_types, lifting) drop_Suc drop_tl list.exhaust_sel list.sel(1,3) list.simps(8,9) list.distinct(1))
  have K: "?K < length msY" using m0(1) by (metis drop_eq_Nil list.distinct(1) linorder_not_le)
  have at: "msY ! ?K = m0" using m0(1) K by (metis Cons_nth_drop_Suc list.inject)
  have wf: "wf_msg (ToLittleEndian ?cf) (HostLittle (sd_cf Y)) m0"
    using C'(3) at K wl by (auto simp: ptcp_rel_def list_all_length)
  have rel: "front_rel ?cf (sd_conn X) (?u m0 # fs) t" using S m0(2) by simp
  have read: "read_msg ?cf (pc_readidx (sd_conn X)) (sd_conn X) = Some (msg_of (sd_cf Y) m0)"
    by (rule read_msg_frame [OF rel wf wl [symmetric] refl])
  have len: "length ?D < length ?W" using K files_ok_length [OF C] C'(4) by simp
  have "msg_of (sd_cf Y) m0 = map (msg_of (sd_cf Y)) msY ! ?K" using K at by simp
  also have "\<dots> = ?W ! length ?D" unfolding C'(5) using C'(4) len by simp
  finally have nxt: "?D @ [msg_of (sd_cf Y) m0] = take (Suc (length ?D)) ?W"
    using len C'(6) by (metis take_Suc_conv_app_nth)
  obtain c' where pop: "pc_Pop ?cf (sd_conn X) = Some c'" "front_rel ?cf c' fs t" "pc_q c' = Some (ptcp_MyAck_incr q)"
    by (rule pc_Pop_spec [OF rel C'(2)])
  have same: "steady (sd_conn X) c'" "pc_sockfd c' = pc_sockfd (sd_conn X)" "pc_recvbuf c' = pc_recvbuf (sd_conn X)"
    "pc_recvbuf_size c' = pc_recvbuf_size (sd_conn X)"
    using pop(1) by (auto simp: pc_Pop_def steady_def split: Option.bind_split_asm)
  let ?X = "X\<lparr>sd_conn := c', sd_received := ?D @ [msg_of (sd_cf Y) m0]\<rparr>"
  have SK: "Suc (length ?D) - aY = Suc ?K" using C'(4) by simp
  have "files_ok Y ?X qY (ptcp_MyAck_incr q) msY aY"
    using C C' pop(3) nxt len by (simp add: files_ok_def ptcp_MyAck_incr_def)
  moreover have "stream inp Y ?X s w qY msY aY fs t hs ns rest"
    unfolding stream_def using S pop(2) m0(3) SK by auto
  moreover have "length (unsent qY) \<le> length (concat (drop (Suc ?K) msY))" if "sd_open Y"
  proof -
    have "8 * length (unsent qY) \<le> length (concat ns)" using S that by auto
    also have "\<dots> \<le> length (concat (app_frames ?cf (fs @ hs @ ns)))" using S by simp
    also have "\<dots> = 8 * length (concat (drop (Suc ?K) msY))" unfolding m0(3) by (rule length_concat_cells)
    finally show ?thesis by simp
  qed
  ultimately have "flow inp Y ?X w (sd_open Y) (Some s)"
    using SK by (intro flowI) (auto intro: in_flightI)
  then show ?thesis using that [OF read pop(1,3) same] by blast
qed

end
