(* ===== verification/Session_Steps.thy ===== *)
theory Session_Steps
  imports Session_Flow
begin

text \<open>
  The steps of a session: a poll and a write of either application, closing, the loss of bytes on a
  broken connection, and a login that opens both sides again with the files they kept. Each
  returns a result and keeps \<open>session_ok\<close>.
\<close>

section \<open>What the two applications do\<close>

text \<open>
  A poll of a TCP connection: heartbeat, \<open>Front\<close>, and the callback, which reads the message and pops it
  or, if \<open>pop\<close> is false, leaves it for the next poll.
\<close>

definition pc_poll :: "'w os \<Rightarrow> conf \<Rightarrow> int \<Rightarrow> bool \<Rightarrow> ptcp_conn \<Rightarrow> 'w \<Rightarrow> (app_msg option \<times> ptcp_conn \<times> 'w) option" where
  "pc_poll os cf now pop c w =
     (if pc_IsClosed c then Some (None, c, w)
      else do {
        (c1, w1) \<leftarrow> pc_SendHB os cf now c w;
        (p, c2, w2) \<leftarrow> pc_Front os cf c1 w1;
        (case p of
           None \<Rightarrow> Some (None, c2, w2)
         | Some i \<Rightarrow>
             if pop
             then do { m \<leftarrow> read_msg cf i c2; c3 \<leftarrow> pc_Pop cf c2; Some (Some m, c3, w2) }
             else Some (None, c2, w2))
      })"

text \<open>A write: \<open>Alloc\<close>, the type and the body, \<open>Push\<close>.\<close>

definition pc_send :: "'w os \<Rightarrow> conf \<Rightarrow> u16 \<Rightarrow> u8 list \<Rightarrow> ptcp_conn \<Rightarrow> 'w \<Rightarrow> (bool \<times> ptcp_conn \<times> 'w) option" where
  "pc_send os cf mt body c w = do {
     (c1, p) \<leftarrow> pc_Alloc cf (word_of_nat (length body)) c;
     (case p of
        None \<Rightarrow> Some (False, c1, w)
      | Some i \<Rightarrow> do {
          q \<leftarrow> pc_q c1;
          b \<leftarrow> fill_msg (HostLittle cf) (unat i) mt body (pq_blk q);
          (c2, w2) \<leftarrow> pc_Push os cf (c1\<lparr>pc_q := Some (q\<lparr>pq_blk := b\<rparr>)\<rparr>) w;
          Some (True, c2, w2)
        })
   }"

definition sd_poll :: "'w os \<Rightarrow> int \<Rightarrow> bool \<Rightarrow> side \<Rightarrow> 'w \<Rightarrow> (side \<times> 'w) option" where
  "sd_poll os now pop X w = do {
     (m, c, w') \<leftarrow> pc_poll os (sd_cf X) now pop (sd_conn X) w;
     Some (X\<lparr>sd_conn := c, sd_received := sd_received X @ (case m of None \<Rightarrow> [] | Some x \<Rightarrow> [x])\<rparr>, w')
   }"

definition sd_send :: "'w os \<Rightarrow> u16 \<Rightarrow> u8 list \<Rightarrow> side \<Rightarrow> 'w \<Rightarrow> (side \<times> 'w) option" where
  "sd_send os mt body X w = do {
     (ok, c, w') \<leftarrow> pc_send os (sd_cf X) mt body (sd_conn X) w;
     Some (X\<lparr>sd_conn := c, sd_written := sd_written X @ (if ok then [(mt, body)] else [])\<rparr>, w')
   }"

lemma pc_send_queue:
  assumes q: "pc_q c = Some q" and run: "ptcp_send (TcpQueueSize cf) (ToLittleEndian cf) (HostLittle cf) mt body q = Some (q', ok)"
  shows "pc_send os cf mt body c w =
    (if ok then do { (_, c2, w2) \<leftarrow> pc_SendPending os cf (c\<lparr>pc_q := Some q'\<rparr>) w; Some (True, c2, w2) }
     else Some (False, c\<lparr>pc_q := Some q'\<rparr>, w))"
proof -
  obtain q1 p where alloc: "ptcp_Alloc (TcpQueueSize cf) (word_of_nat (length body)) q = Some (q1, p)"
    using run by (auto simp: ptcp_send_def split: Option.bind_split_asm)
  show ?thesis
  proof (cases p)
    case None
    then show ?thesis using run q alloc by (simp add: ptcp_send_def pc_send_def pc_Alloc_def)
  next
    case (Some i)
    then obtain b where "fill_msg (HostLittle cf) (unat i) mt body (pq_blk q1) = Some b"
      "ptcp_Push (ToLittleEndian cf) (HostLittle cf) (q1\<lparr>pq_blk := b\<rparr>) = Some q'" ok
      using run alloc by (auto simp: ptcp_send_def split: Option.bind_split_asm)
    then show ?thesis using Some q alloc
      by (simp add: pc_send_def pc_Alloc_def pc_Push_def pc_PushMore_def split: Option.bind_split)
  qed
qed

text \<open>A message in the queue: the flow from the side that wrote it, and the flow to it.\<close>

lemma write_flow:
  assumes D: "flow inp X Y w live r" and q: "pc_q (sd_conn X) = Some q"
    and new: "\<And>ms. sd_rel X q ms \<Longrightarrow> \<exists>m. sd_rel X q' (ms @ [m]) \<and> msg_of (sd_cf X) m = x \<and> stored_ok X (sd_cf Y) m"
    and q': "pq_read_seq_num q' = pq_read_seq_num q" "pq_ack_seq_num q' = pq_ack_seq_num q"
      "unat (pq_send_idx q') - unat (pq_read_idx q') = unat (pq_send_idx q) - unat (pq_read_idx q)"
    and lim: "Suc (length (sd_written X)) < 2 ^ 31" and wl: "ToLittleEndian (sd_cf X) = ToLittleEndian (sd_cf Y)"
  shows "flow inp (X\<lparr>sd_conn := (sd_conn X)\<lparr>pc_q := Some q'\<rparr>, sd_written := sd_written X @ [x]\<rparr>) Y w live r"
proof -
  let ?X = "X\<lparr>sd_conn := (sd_conn X)\<lparr>pc_q := Some q'\<rparr>, sd_written := sd_written X @ [x]\<rparr>" and ?u = "cells_bytes (HostLittle (sd_cf X))"
  obtain qY ms a where d: "files_ok X Y q qY ms a"
    "live \<longrightarrow> length (unsent q) \<le> length (concat (drop (length (sd_received Y) - a) ms))"
    "case r of None \<Rightarrow> True | Some s \<Rightarrow> in_flight inp X Y s w q ms a"
    using D q unfolding flow_def by (auto simp: files_ok_def)
  let ?K = "length (sd_received Y) - a"
  have rel: "sd_rel X q ms" using d(1) by (simp add: files_ok_def)
  obtain m where m: "sd_rel X q' (ms @ [m])" "msg_of (sd_cf X) m = x" "stored_ok X (sd_cf Y) m" using new [OF rel] by blast
  have un: "unsent q' = unsent q @ m" by (rule ptcp_send_unsent [OF rel m(1) q'(3)])
  have K: "?K \<le> length ms" and a: "a \<le> length (sd_written X)" using files_ok_length [OF d(1)] d(1) by (auto simp: files_ok_def)
  have wf: "wf_msg (ToLittleEndian (sd_cf Y)) (HostLittle (sd_cf X)) m" using m(1) wl by (simp add: ptcp_rel_def)
  note M = msg_frame [OF wf]
  have f: "wf_frame (sd_cf Y) (?u m)" "app_frames (sd_cf Y) [?u m] = [?u m]"
    "\<exists>i \<le> length (sd_received X). hdr_ack_seq (wire_hdr (ToLittleEndian (sd_cf Y)) (?u m)) = word_of_nat i"
    using M m(3) wl unfolding stored_ok_def wf_frame_def app_frames_def is_heartbeat_def by (auto simp: Suc_le_eq)
  have C: "files_ok ?X Y q' qY (ms @ [m]) a"
  proof -
    have "list_all (stored_ok ?X (sd_cf Y)) (ms @ [m])" using d(1) m(3) by (simp add: files_ok_def stored_ok_def [abs_def])
    then show ?thesis using d(1) m(1,2) q' lim a by (simp add: files_ok_def)
  qed
  have "in_flight inp ?X Y s w q' (ms @ [m]) a" if r: "r = Some s" for s
  proof -
    obtain fs t hs ns rest where st: "stream inp X Y s w q ms a fs t hs ns rest" using d(3) r by (auto simp: in_flight_def)
    note S = st [unfolded stream_def]
    have "t @ inp s w @ rest @ ?u m = concat (hs @ ns @ [?u m])" using S by (simp flip: append_assoc)
    moreover have "app_frames (sd_cf Y) (fs @ hs @ ns @ [?u m]) = map ?u (drop ?K (ms @ [m]))"
    proof -
      have "app_frames (sd_cf Y) (fs @ hs @ ns) = map ?u (drop ?K ms)" using S by blast
      then show ?thesis using f(2) K by simp
    qed
    ultimately have "stream inp ?X Y s w q' (ms @ [m]) a fs t hs (ns @ [?u m]) (rest @ ?u m)"
      unfolding stream_def using S f un by (auto simp: ball_Un pc_IsClosed_def)
    then show ?thesis by (rule in_flightI)
  qed
  then show ?thesis using d(2) un K by (intro flowI [OF C]) simp_all
qed

lemma conn_flow:
  assumes D: "flow inp Y X w live r" and q: "pc_q (sd_conn X) = Some q"
    and c': "pc_q c' = Some q'" "pq_ack_seq_num q' = pq_ack_seq_num q" "sends (sd_conn X) c'"
  shows "flow inp Y (X\<lparr>sd_conn := c', sd_written := ws\<rparr>) w live r"
proof -
  obtain qY msY aY where d: "files_ok Y X qY q msY aY"
    "live \<longrightarrow> length (unsent qY) \<le> length (concat (drop (length (sd_received X) - aY) msY))"
    "case r of None \<Rightarrow> True | Some s \<Rightarrow> in_flight inp Y X s w qY msY aY"
    using D q unfolding flow_def by (auto simp: files_ok_def)
  have "files_ok Y (X\<lparr>sd_conn := c', sd_written := ws\<rparr>) qY q' msY aY" using d(1) c' by (simp add: files_ok_def)
  then show ?thesis using d(2,3) front_rel_sends [OF c'(3)] by (intro flowI) (simp_all add: in_flight_def stream_def)
qed

context duplex
begin

lemma SendHB_acting:
  assumes A: "acting inp peer (Some s) X Y w" and live: "sd_open X"
  obtains c1 w1 where "pc_SendHB os (sd_cf X) now (sd_conn X) w = Some (c1, w1)" and "acting inp peer (Some s) (X\<lparr>sd_conn := c1\<rparr>) Y w1"
    and "sends (sd_conn X) c1" and "\<And>t. t \<noteq> peer (pc_sockfd (sd_conn X)) \<Longrightarrow> inp t w1 = inp t w"
proof -
  let ?cf = "sd_cf X" and ?c = "sd_conn X"
  have A': "side_ok X" "flow inp X Y w True (reads Y)" using A by (simp_all add: acting_def)
  obtain q ms where q: "pc_q ?c = Some q" "sd_rel X q ms" using flow_queue [OF A'(2)] by blast
  have hb: "hb_inv ?cf ?c" using A'(1) by (simp add: side_ok_def)
  obtain c1 w1 where run: "pc_SendHB os ?cf now ?c w = Some (c1, w1)" by (rule SendHB_emits [OF q hb live])
  have E: "emits inp peer ?cf q ms (?c, w) (c1, w1)" if "pc_q ?c = Some q" "sd_rel X q ms" for q ms
    by (rule SendHB_emits [OF that hb live, of now w]) (use run in simp)
  have "sends ?c c1" and "inp t w1 = inp t w" if "t \<noteq> peer (pc_sockfd ?c)" for t using E [OF q] that by (auto simp: emits_def)
  moreover have "sends ?c c1" using E [OF q] by (auto simp: emits_def)
  ultimately show ?thesis using that [OF run emit_acting [OF A peer_neq E]] by blast
qed

lemma poll_acting:
  assumes A: "acting inp peer (Some s) X Y w" and live: "sd_open X"
  obtains X' w' where "sd_poll os now pop X w = Some (X', w')" and "acting inp peer (Some s) X' Y w'"
    and "sd_cf X' = sd_cf X" and "sd_written X' = sd_written X"
proof -
  let ?cf = "sd_cf X" and ?c = "sd_conn X"
  obtain c1 w1 where S: "pc_SendHB os ?cf now ?c w = Some (c1, w1)" and A1: "acting inp peer (Some s) (X\<lparr>sd_conn := c1\<rparr>) Y w1"
    by (rule SendHB_acting [OF A live])
  let ?X1 = "X\<lparr>sd_conn := c1\<rparr>"
  obtain c2 w2 qY msY aY q2 fs t hs ns rest where
    F: "pc_Front os ?cf c1 w1 = Some (if fs = [] then None else Some (pc_readidx c2), c2, w2)"
    and X2: "flow inp (X\<lparr>sd_conn := c2\<rparr>) Y w2 True (reads Y)" and st2: "steady c1 c2" and q2: "pc_q c2 = Some q2"
    and C2: "files_ok Y (X\<lparr>sd_conn := c2\<rparr>) qY q2 msY aY"
    and sent: "sd_open Y \<Longrightarrow> length (unsent qY) \<le> length (concat (drop (length (sd_received X) - aY) msY))"
    and str: "stream inp Y (X\<lparr>sd_conn := c2\<rparr>) s w2 qY msY aY fs t hs ns rest"
    and first: "fs \<noteq> [] \<Longrightarrow> \<not> is_heartbeat (ToLittleEndian ?cf) (hd fs)"
    using Front_acting [OF A1] by (simp) metis
  let ?X2 = "X\<lparr>sd_conn := c2\<rparr>"
  have B: "ToLittleEndian ?cf = ToLittleEndian (sd_cf Y)" "side_ok ?X1" "side_ok Y" "reads ?X1 \<in> {None, Some s}" "s \<noteq> INVALID_TCP_SOCKET"
    "\<And>t. reads Y = Some t \<Longrightarrow> t = peer s"
    using A1 by (simp_all add: acting_def)
  have rcv: "rcv_inv ?cf c2" using str by (simp add: stream_def front_rel_def)
  have ok2: "side_ok ?X2" using B(2) st2 rcv_invD [OF rcv] unfolding side_ok_def hb_inv_iff by (simp add: steady_def)
  have r2: "reads ?X2 \<in> {None, Some s}" using B(4) st2 by (auto simp: reads_def steady_def pc_IsClosed_def split: if_split_asm)
  have A2: "acting inp peer (Some s) ?X2 Y w2"
    unfolding acting_def using B ok2 r2 X2 flowI [OF C2, of "sd_open Y" "Some s"] sent in_flightI [OF str] by simp
  show ?thesis
  proof (cases "fs = [] \<or> \<not> pop")
    case True
    then have "sd_poll os now pop X w = Some (?X2, w2)" using S F live by (auto simp: sd_poll_def pc_poll_def)
    then show ?thesis using that A2 by simp
  next
    case False
    then obtain f fs' where fs: "fs = f # fs'" and pop by (cases fs) auto
    have str': "stream inp Y ?X2 s w2 qY msY aY (f # fs') t hs ns rest" using str fs by simp
    have nhb: "\<not> is_heartbeat (ToLittleEndian (sd_cf ?X2)) f" using first fs by simp
    obtain c3 m where read: "read_msg ?cf (pc_readidx c2) c2 = Some m" and popped: "pc_Pop ?cf c2 = Some c3"
      and q3: "pc_q c3 = Some (ptcp_MyAck_incr q2)" and st3: "steady c2 c3" "pc_sockfd c3 = pc_sockfd c2" "pc_recvbuf c3 = pc_recvbuf c2"
        "pc_recvbuf_size c3 = pc_recvbuf_size c2"
      and Y3: "flow inp Y (?X2\<lparr>sd_conn := c3, sd_received := sd_received ?X2 @ [m]\<rparr>) w2 (sd_open Y) (Some s)"
      by (rule take_flow [OF C2 str' nhb]) (use B(1) in simp_all)
    let ?X3 = "?X2\<lparr>sd_conn := c3, sd_received := sd_received ?X2 @ [m]\<rparr>"
    have "flow inp ?X3 Y w2 True (reads Y)"
      by (rule receive_flow [OF X2, of q2]) (use q2 q3 st3 in \<open>simp_all add: pc_IsClosed_def\<close>)
    moreover have "side_ok ?X3" using ok2 st3 unfolding side_ok_def hb_inv_iff by (simp add: steady_def)
    moreover have "reads ?X3 \<in> {None, Some s}" using r2 st3 by (auto simp: reads_def pc_IsClosed_def split: if_split_asm)
    ultimately have "acting inp peer (Some s) ?X3 Y w2" unfolding acting_def using B Y3 by simp
    moreover have "sd_poll os now pop X w = Some (?X3, w2)"
      using S F live read popped False by (simp add: sd_poll_def pc_poll_def)
    ultimately show ?thesis using that by simp
  qed
qed

lemma send_acting:
  assumes A: "acting inp peer r X Y w" and mt: "mt \<noteq> HeartbeatMsg_msg_type" and body: "length body + 8 < 65536"
    and room: "8 * blocks 8 (length body + 8) \<le> unat (TcpRecvBufMaxSize (sd_cf Y))" and lim: "Suc (length (sd_written X)) < 2 ^ 31"
  obtains X' w' where "sd_send os mt body X w = Some (X', w')" and "acting inp peer r X' Y w'"
    and "sd_cf X' = sd_cf X" and "sd_received X' = sd_received X"
proof -
  let ?cf = "sd_cf X" and ?c = "sd_conn X"
  let ?send = "ptcp_send (TcpQueueSize ?cf) (ToLittleEndian ?cf) (HostLittle ?cf) mt body"
  have A': "ToLittleEndian ?cf = ToLittleEndian (sd_cf Y)" "side_ok X" "flow inp X Y w (r \<noteq> None) (reads Y)" "flow inp Y X w (sd_open Y) r"
    using A by (simp_all add: acting_def)
  obtain q ms where q: "pc_q ?c = Some q" "sd_rel X q ms" using flow_queue [OF A'(3)] by blast
  note ack = flow_ack [OF A'(4) q(1)]
  show ?thesis
  proof (cases "length (concat ms) + blocks 8 (length body + 8) \<le> unat (PTCP_BLK_CNT (TcpQueueSize ?cf))")
    case False
    then have "?send q = Some (q, False)" by (intro ptcp_send_full [OF q(2) body]) simp
    then have "sd_send os mt body X w = Some (X\<lparr>sd_conn := ?c\<lparr>pc_q := Some q\<rparr>, sd_written := sd_written X\<rparr>, w)"
      using pc_send_queue [OF q(1), of ?cf mt body q False os w] by (simp add: sd_send_def)
    moreover have "?c\<lparr>pc_q := Some q\<rparr> = ?c" using q(1) by (cases ?c) simp
    ultimately have "sd_send os mt body X w = Some (X, w)" by simp
    then show ?thesis using that A by blast
  next
    case fits: True
    obtain q' m where send: "?send q = Some (q', True)" and seqs: "pq_read_seq_num q' = pq_read_seq_num q" "pq_ack_seq_num q' = pq_ack_seq_num q"
      and idx: "unat (pq_send_idx q') - unat (pq_read_idx q') = unat (pq_send_idx q) - unat (pq_read_idx q)"
      by (rule ptcp_send_rel [OF q(2) body fits, of mt])
    have new: "\<exists>m. sd_rel X q' (ms @ [m]) \<and> msg_of ?cf m = (mt, body) \<and> stored_ok X (sd_cf Y) m" if rel: "sd_rel X q ms" for ms
    proof -
      have "length (concat ms) + blocks 8 (length body + 8) \<le> unat (PTCP_BLK_CNT (TcpQueueSize ?cf))"
        using fits ptcp_rel_length [OF rel] ptcp_rel_length [OF q(2)] by simp
      from ptcp_send_rel [OF rel body this, of mt] obtain m where m: "sd_rel X q' (ms @ [m])"
        "msg_header_of (ToLittleEndian ?cf) (HostLittle ?cf) m
           = \<lparr>hdr_size = word_of_nat (length body + 8), hdr_msg_type = mt, hdr_ack_seq = pq_ack_seq_num q\<rparr>"
        "msg_body (ToLittleEndian ?cf) (HostLittle ?cf) m = body"
        using send by auto
      have "wf_msg (ToLittleEndian ?cf) (HostLittle ?cf) m" using m(1) by (simp add: ptcp_rel_def)
      moreover have "msg_size (ToLittleEndian ?cf) (HostLittle ?cf) m = length body + 8"
        using m(2) body by (simp add: msg_header_of_def msg_size_def ConvertByteOrder_def unat_exact)
      ultimately have "8 * length m \<le> unat (TcpRecvBufMaxSize (sd_cf Y))" using room by (simp add: wf_msg_def)
      then have "stored_ok X (sd_cf Y) m" using m(2) mt ack by (auto simp: stored_ok_def)
      then show ?thesis using m by (auto simp: msg_of_def)
    qed
    let ?X1 = "X\<lparr>sd_conn := ?c\<lparr>pc_q := Some q'\<rparr>, sd_written := sd_written X @ [(mt, body)]\<rparr>"
    have F1: "flow inp ?X1 Y w (r \<noteq> None) (reads Y)" by (rule write_flow [OF A'(3) q(1) new seqs idx lim A'(1)])
    moreover have "flow inp Y ?X1 w (sd_open Y) r"
      by (rule conn_flow [OF A'(4) q(1), of _ q']) (simp_all add: seqs sends_def steady_def)
    moreover have "reads ?X1 = reads X" "side_ok ?X1 \<longleftrightarrow> side_ok X" by (simp_all add: reads_def pc_IsClosed_def side_ok_def hb_inv_def)
    ultimately have A1: "acting inp peer r ?X1 Y w" using A by (simp add: acting_def)
    obtain q1 ms1 where q1: "pc_q (sd_conn ?X1) = Some q1" "sd_rel ?X1 q1 ms1" using flow_queue [OF F1] by blast
    obtain b c2 w2 where S: "pc_SendPending os (sd_cf ?X1) (sd_conn ?X1) w = Some (b, c2, w2)"
      by (rule SendPending_emits [OF q1, of w])
    have E: "emits inp peer (sd_cf ?X1) q ms (sd_conn ?X1, w) (c2, w2)" if "pc_q (sd_conn ?X1) = Some q" "sd_rel ?X1 q ms" for q ms
      by (rule SendPending_emits [OF that, of w]) (use S in simp)
    have "sd_send os mt body X w = Some (?X1\<lparr>sd_conn := c2\<rparr>, w2)"
      using pc_send_queue [OF q(1) send, of os w] S by (simp add: sd_send_def)
    then show ?thesis using that emit_acting [OF A1 peer_neq E] by simp
  qed
qed

end

section \<open>Closing, losing bytes, and logging in again\<close>

lemma emits_refl:
  assumes "pc_q c = Some q" and "ptcp_rel (TcpQueueSize cf) (ToLittleEndian cf) (HostLittle cf) q ms"
  shows "emits inp peer cf q ms (c, w) (c, w)"
  unfolding emits_def prod.case
  by (rule exI [of _ q], rule exI [of _ "[]"], rule exI [of _ "cells_bytes (HostLittle cf) (unsent q)"], rule exI [of _ "[]"]) (use assms in simp)

lemma close_session:
  assumes S: "session_ok inp peer X Y w" and neq: "\<And>s. peer s \<noteq> s"
  shows "session_ok inp peer (X\<lparr>sd_conn := pc_Close reason e (sd_conn X)\<rparr>) Y w"
proof (rule acting_end, rule emit_acting [OF acting_start [OF S] neq])
  fix q ms assume q: "pc_q (sd_conn X) = Some q" "sd_rel X q ms"
  show "emits inp peer (sd_cf X) q ms (sd_conn X, w) (pc_Close reason e (sd_conn X), w)"
    by (rule emits_closed [OF emits_refl [OF q]]) (simp_all add: pc_Close_sends, simp_all add: pc_Close_def pc_IsClosed_def)
qed

text \<open>The network may change the world, and lose bytes under way once a side has closed.\<close>

definition net_step :: "(int \<Rightarrow> 'w \<Rightarrow> u8 list) \<Rightarrow> side \<Rightarrow> side \<Rightarrow> 'w \<Rightarrow> 'w \<Rightarrow> bool" where
  "net_step inp X Y w w' \<longleftrightarrow>
     (\<forall>t. inp t w' = inp t w) \<or> \<not> (sd_open X \<and> sd_open Y) \<and> (\<forall>t. \<exists>n. inp t w' = take n (inp t w))"

lemma net_flow:
  assumes D: "flow inp X Y w live r" and N: "\<And>s. r = Some s \<Longrightarrow> inp s w' = inp s w \<or> \<not> sd_open X \<and> (\<exists>n. inp s w' = take n (inp s w))"
  shows "flow inp X Y w' live r"
proof -
  obtain qX qY ms a where d: "files_ok X Y qX qY ms a"
    "live \<longrightarrow> length (unsent qX) \<le> length (concat (drop (length (sd_received Y) - a) ms))"
    "case r of None \<Rightarrow> True | Some s \<Rightarrow> in_flight inp X Y s w qX ms a"
    using D unfolding flow_def by blast
  have "in_flight inp X Y s w' qX ms a" if r: "r = Some s" for s
  proof -
    obtain fs t hs ns rest where st: "stream inp X Y s w qX ms a fs t hs ns rest" using d(3) r by (auto simp: in_flight_def)
    consider "inp s w' = inp s w" | n where "\<not> sd_open X" "inp s w' = take n (inp s w)" using N [OF r] by blast
    then show ?thesis
    proof cases
      case 1
      then have "stream inp X Y s w' qX ms a fs t hs ns rest" using st unfolding stream_def by metis
      then show ?thesis by (rule in_flightI)
    next
      case 2
      have split: "inp s w = inp s w' @ drop n (inp s w)" using 2 by simp
      have "t @ inp s w @ rest = concat (hs @ ns)" using st unfolding stream_def by blast
      then have "t @ inp s w' @ drop n (inp s w) @ rest = concat (hs @ ns)" by (subst (asm) split) simp
      then have "stream inp X Y s w' qX ms a fs t hs ns (drop n (inp s w) @ rest)" using st 2(1) unfolding stream_def by blast
      then show ?thesis by (rule in_flightI)
    qed
  qed
  then show ?thesis using d by (intro flowI) auto
qed

lemma net_session:
  assumes S: "session_ok inp peer X Y w" and N: "net_step inp X Y w w'"
  shows "session_ok inp peer X Y w'"
proof -
  have "inp s w' = inp s w \<or> \<not> sd_open X \<and> (\<exists>n. inp s w' = take n (inp s w))" if "reads Y = Some s" for s
    using N that by (auto simp: net_step_def reads_def split: if_split_asm)
  moreover have "inp s w' = inp s w \<or> \<not> sd_open Y \<and> (\<exists>n. inp s w' = take n (inp s w))" if "reads X = Some s" for s
    using N that by (auto simp: net_step_def reads_def split: if_split_asm)
  ultimately show ?thesis using S unfolding session_ok_def by (auto intro: net_flow)
qed

lemma session_sym:
  assumes "session_ok inp peer X Y w" and "\<And>s. peer (peer s) = s"
  shows "session_ok inp peer Y X w"
  using assms by (simp add: session_ok_def linked_def)

text \<open>
  The login over TCP of a client \<open>A\<close> and a server \<open>B\<close> that both have their queue files, reduced to what it does with the
  two connections: \<open>Connect\<close> and \<open>HandleLogin\<close> compute the sequence numbers, the server compares them, and
  both open their connection with the other side's acknowledgement number, the server first. The inner
  \<open>None\<close> is a refused login.
\<close>

definition sd_login :: "'w os \<Rightarrow> int \<Rightarrow> int \<Rightarrow> int \<Rightarrow> side \<Rightarrow> side \<Rightarrow> 'w \<Rightarrow> (side \<times> side \<times> 'w) option option" where
  "sd_login os fdA fdB now A B w = do {
     (ackA, rangeA) \<leftarrow> pc_GetSeq (sd_cf A) (sd_conn A);
     (ackB, rangeB) \<leftarrow> pc_GetSeq (sd_cf B) (sd_conn B);
     (case (rangeA, rangeB) of
        (Some (startA, endA), Some (startB, endB)) \<Rightarrow>
          if CheckAckInQueue ackA startB endB \<and> CheckAckInQueue ackB startA endA
          then do {
            (cB, w1) \<leftarrow> pc_Open os (sd_cf B) fdB ackA now (sd_conn B) w;
            (cA, w2) \<leftarrow> pc_Open os (sd_cf A) fdA ackB now (sd_conn A) w1;
            Some (Some (A\<lparr>sd_conn := cA\<rparr>, B\<lparr>sd_conn := cB\<rparr>, w2))
          }
          else Some None
      | _ \<Rightarrow> Some None)
   }"

text \<open>A connection right after \<open>Open\<close> has set its fields and \<open>LoginAck\<close> has made \<open>q\<close> of its queue.\<close>

definition opened :: "int \<Rightarrow> int \<Rightarrow> ptcp_queue \<Rightarrow> ptcp_conn \<Rightarrow> ptcp_conn" where
  "opened fd now q c = c\<lparr>pc_sockfd := fd, pc_fd_to_close := fd, pc_writeidx := 0, pc_readidx := 0,
                pc_nextmsg_idx := 0, pc_recv_time := now, pc_send_time := now, pc_now := now, pc_q := Some q\<rparr>"

lemma pc_Open_opened:
  assumes "pc_q c = Some q" and "ptcp_LoginAck (ToLittleEndian cf) (HostLittle cf) ack q = Some q1"
    and "pc_SendPending os cf (opened fd now q1 c) w = Some (ok, c1, w1)"
  shows "pc_Open os cf fd ack now c w =
    (if pc_recvbuf_size c1 = 0
     then Some (c1\<lparr>pc_recvbuf_size := TcpRecvBufInitSize cf, pc_recvbuf := fst (sys_new os (unat (TcpRecvBufInitSize cf)) w1)\<rparr>,
                snd (sys_new os (unat (TcpRecvBufInitSize cf)) w1))
     else Some (c1, w1))"
  using assms by (simp add: pc_Open_def opened_def Let_def split: prod.split)

text \<open>What both sides present at a login, and the comparison.\<close>

lemma files_acks:
  assumes C: "files_ok X Y qX qY ms a" and ack: "pq_ack_seq_num qX = word_of_nat (length (sd_received X))" and D: "length (sd_received X) < 2 ^ 31"
  shows "acks_ok (ToLittleEndian (sd_cf X)) (HostLittle (sd_cf X)) qX ms"
proof -
  let ?wl = "ToLittleEndian (sd_cf X)" and ?hl = "HostLittle (sd_cf X)"
  have "0 \<le> sdiff (pq_ack_seq_num qX) (hdr_ack_seq (msg_header_of ?wl ?hl m))" if m: "m \<in> set ms" for m
  proof -
    obtain i where i: "i \<le> length (sd_received X)" "hdr_ack_seq (msg_header_of ?wl ?hl m) = word_of_nat i"
      using C m by (auto simp: files_ok_def list_all_iff stored_ok_def)
    have "pq_ack_seq_num qX - hdr_ack_seq (msg_header_of ?wl ?hl m) = word_of_nat (length (sd_received X) - i)" using i ack by (simp add: of_nat_diff)
    moreover have "unat (word_of_nat (length (sd_received X) - i) :: u32) = length (sd_received X) - i" using D by (intro unat_of_nat_exact) simp
    ultimately show ?thesis using D by (simp add: sdiff_nonneg_unat)
  qed
  then show ?thesis by (simp add: acks_ok_def list_all_iff)
qed

lemma GetSeq_rel:
  assumes "pc_q c = Some q" and "ptcp_rel (TcpQueueSize cf) (ToLittleEndian cf) (HostLittle cf) q ms"
    and "acks_ok (ToLittleEndian cf) (HostLittle cf) q ms"
  shows "pc_GetSeq cf c = Some (pq_ack_seq_num q, Some (pq_read_seq_num q, pq_read_seq_num q + word_of_nat (length ms)))"
  using assms ptcp_sanity_live [of "TcpQueueSize cf", OF _ assms(3)] by (simp add: pc_GetSeq_def ptcp_MyAck_def ptcp_rel_live)

lemma ack_offset:
  assumes "files_ok X Y qX qY ms a"
  shows "unat (word_of_nat (length (sd_received Y)) - pq_read_seq_num qX) = length (sd_received Y) - a"
    and "length (sd_received Y) - a \<le> length ms" and "length (sd_received Y) - a < 2 ^ 31"
proof -
  have C: "pq_read_seq_num qX = word_of_nat a" "a \<le> length (sd_received Y)" "length (sd_received Y) \<le> length (sd_written X)" "length (sd_written X) < 2 ^ 31"
    using assms by (simp_all add: files_ok_def)
  have "word_of_nat (length (sd_received Y)) - pq_read_seq_num qX = word_of_nat (length (sd_received Y) - a)" using C by (simp add: of_nat_diff)
  then show "unat (word_of_nat (length (sd_received Y)) - pq_read_seq_num qX) = length (sd_received Y) - a"
    using C unat_of_nat_exact [of "length (sd_received Y) - a", where ?'a = 32] by simp
  show "length (sd_received Y) - a \<le> length ms" and "length (sd_received Y) - a < 2 ^ 31" using C files_ok_length [OF assms] by simp_all
qed

text \<open>One direction after both sides have opened: nothing is under way, and all that is missing is unsent.\<close>

lemma opened_flow:
  assumes C: "files_ok X Y qX qY ms a" and wl: "ToLittleEndian (sd_cf X) = ToLittleEndian (sd_cf Y)" and Y: "side_ok Y"
    and q1: "ptcp_LoginAck (ToLittleEndian (sd_cf X)) (HostLittle (sd_cf X)) (word_of_nat (length (sd_received Y))) qX = Some q1"
    and qY1: "pq_ack_seq_num qY1 = pq_ack_seq_num qY" and inp: "inp fdY w = []"
  shows "flow inp (X\<lparr>sd_conn := opened fdX nowX q1 (sd_conn X)\<rparr>) (Y\<lparr>sd_conn := opened fdY nowY qY1 (sd_conn Y)\<rparr>) w True (Some fdY)"
proof -
  let ?X = "X\<lparr>sd_conn := opened fdX nowX q1 (sd_conn X)\<rparr>" and ?Y = "Y\<lparr>sd_conn := opened fdY nowY qY1 (sd_conn Y)\<rparr>"
  let ?D = "length (sd_received Y)" and ?ms = "drop (length (sd_received Y) - a) ms" and ?u = "cells_bytes (HostLittle (sd_cf X))"
  note O = ack_offset [OF C]
  have rel: "sd_rel X qX ms" using C by (simp add: files_ok_def)
  obtain q' where "ptcp_LoginAck (ToLittleEndian (sd_cf X)) (HostLittle (sd_cf X)) (word_of_nat ?D) qX = Some q'"
    "sd_rel X q' ?ms" "unsent q' = concat ?ms" "pq_read_seq_num q' = word_of_nat ?D" "pq_ack_seq_num q' = pq_ack_seq_num qX"
    by (rule ptcp_LoginAck_rel [OF rel O(1) [symmetric] O(3,2)])
  then have q': "sd_rel X q1 ?ms" "unsent q1 = concat ?ms" "pq_read_seq_num q1 = word_of_nat ?D" using q1 by simp_all
  have st: "list_all (stored_ok X (sd_cf Y)) ?ms" using C set_drop_subset [of "?D - a" ms] by (auto simp: files_ok_def list_all_iff)
  have "a + (?D - a) = ?D" using C by (simp add: files_ok_def)
  then have "map (msg_of (sd_cf X)) ?ms = drop ?D (sd_written X)" using C by (simp add: files_ok_def flip: drop_map)
  then have F: "files_ok ?X ?Y q1 qY1 ?ms ?D"
    using C q' st qY1 by (simp add: files_ok_def opened_def stored_ok_def [abs_def])
  have frame: "wf_frame (sd_cf Y) (?u m) \<and> \<not> is_heartbeat (ToLittleEndian (sd_cf Y)) (?u m) \<and>
      (\<exists>i \<le> length (sd_received X). hdr_ack_seq (wire_hdr (ToLittleEndian (sd_cf Y)) (?u m)) = word_of_nat i)" if m: "m \<in> set ?ms" for m
  proof -
    have wf: "wf_msg (ToLittleEndian (sd_cf Y)) (HostLittle (sd_cf X)) m" using q'(1) m wl by (auto simp: ptcp_rel_def list_all_iff)
    from msg_frame [OF this] show ?thesis using st m wl
      unfolding list_all_iff stored_ok_def wf_frame_def is_heartbeat_def by (auto simp: Suc_le_eq)
  qed
  have "stream inp ?X ?Y fdY w q1 ?ms ?D [] [] [] (map ?u ?ms) (concat (map ?u ?ms))"
    unfolding stream_def
  proof (intro conjI impI)
    show "front_rel (sd_cf ?Y) (sd_conn ?Y) [] []"
      using Y by (simp add: front_rel_def rcv_inv_def opened_def side_ok_def incomplete_def host_tail_def)
    show "app_frames (sd_cf ?Y) (map ?u ?ms) = map ?u ?ms" using frame by (simp add: app_frames_idem list_all_iff)
    then show "app_frames (sd_cf ?Y) ([] @ [] @ map ?u ?ms) = map (cells_bytes (HostLittle (sd_cf ?X))) (drop (length (sd_received ?Y) - ?D) ?ms)" by simp
    have "cells_bytes hl (concat xs) = concat (map (cells_bytes hl) xs)" for hl xs by (induction xs) simp_all
    then show "concat (map ?u ?ms) = cells_bytes (HostLittle (sd_cf ?X)) (unsent q1)" by (simp add: q'(2))
  qed (use frame inp in \<open>auto simp: list_all_iff\<close>)
  from in_flightI [OF this] show ?thesis by (intro flowI [OF F]) (simp_all add: q'(2))
qed

text \<open>\<open>Open\<close> allocates the receive buffer of a connection that has none yet.\<close>

lemma front_rel_no_buffer:
  assumes "front_rel cf c fs t" and "pc_recvbuf_size c = 0"
  shows "fs = [] \<and> t = []" and "pc_writeidx c = 0" and "pc_nextmsg_idx c = 0" and "pc_readidx c = 0"
proof -
  note D = front_relD [OF assms(1)] and I = rcv_invD [OF front_relD(1) [OF assms(1)]]
  show z: "pc_writeidx c = 0" "pc_nextmsg_idx c = 0" "pc_readidx c = 0" using I assms(2) by (simp_all add: unat_eq_zero)
  have "concat (map (to_host cf) fs) = []" "host_tail cf t = []" using D(5,6) z by simp_all
  moreover have "8 \<le> length (to_host cf f)" for f by (simp add: to_host_def)
  then have "to_host cf f \<noteq> []" for f by (metis le_numeral_extra(3) length_0_conv not_numeral_le_zero)
  moreover have "t = []" using calculation(2) length_host_tail [of cf t] by simp
  ultimately show "fs = [] \<and> t = []" by (cases fs) auto
qed

lemma buffer_session:
  assumes S: "session_ok inp peer X Y w" and none: "pc_recvbuf_size (sd_conn X) = 0"
    and buf: "length buf = unat n" "unat n \<le> unat (TcpRecvBufMaxSize (sd_cf X))" and w': "\<And>t. inp t w' = inp t w"
  shows "session_ok inp peer (X\<lparr>sd_conn := (sd_conn X)\<lparr>pc_recvbuf_size := n, pc_recvbuf := buf\<rparr>\<rparr>) Y w'"
proof -
  let ?c = "(sd_conn X)\<lparr>pc_recvbuf_size := n, pc_recvbuf := buf\<rparr>"
  let ?X = "X\<lparr>sd_conn := ?c\<rparr>"
  have S': "ToLittleEndian (sd_cf X) = ToLittleEndian (sd_cf Y)" "side_ok X" "side_ok Y" "linked peer X Y"
    "flow inp X Y w (sd_open X) (reads Y)" "flow inp Y X w (sd_open Y) (reads X)"
    using S by (simp_all add: session_ok_def)
  have same: "reads ?X = reads X" "sd_open ?X \<longleftrightarrow> sd_open X" by (simp_all add: reads_def pc_IsClosed_def)
  have "session_ok inp peer X Y w'" by (rule net_session [OF S]) (simp add: net_step_def w')
  then have W: "flow inp X Y w' (sd_open X) (reads Y)" "flow inp Y X w' (sd_open Y) (reads X)" by (simp_all add: session_ok_def)
  have "flow inp ?X Y w' (sd_open ?X) (reads Y)"
  proof -
    have "files_ok ?X Y q qY ms a \<longleftrightarrow> files_ok X Y q qY ms a" for q qY ms a by (simp add: files_ok_def stored_ok_def [abs_def])
    moreover have "in_flight inp ?X Y s w' q ms a \<longleftrightarrow> in_flight inp X Y s w' q ms a" for s q ms a
      unfolding in_flight_def stream_def same(2) by simp
    ultimately show ?thesis using W(1) unfolding flow_def same(2) by (simp only:)
  qed
  moreover have "flow inp Y ?X w' (sd_open Y) (reads ?X)"
  proof -
    obtain qY qX msY aY where d: "files_ok Y X qY qX msY aY"
      "sd_open Y \<longrightarrow> length (unsent qY) \<le> length (concat (drop (length (sd_received X) - aY) msY))"
      "case reads X of None \<Rightarrow> True | Some s \<Rightarrow> in_flight inp Y X s w' qY msY aY"
      using W(2) unfolding flow_def by blast
    have F: "files_ok Y ?X qY qX msY aY" using d(1) by (simp add: files_ok_def)
    have "in_flight inp Y ?X s w' qY msY aY" if r: "reads X = Some s" for s
    proof -
      obtain fs t hs ns rest where st: "stream inp Y X s w' qY msY aY fs t hs ns rest" using d(3) r by (auto simp: in_flight_def)
      then have fr: "front_rel (sd_cf X) (sd_conn X) fs t" by (simp add: stream_def)
      note N = front_rel_no_buffer [OF fr none]
      have "front_rel (sd_cf X) ?c fs t"
        using N buf by (simp add: front_rel_def rcv_inv_def incomplete_def host_tail_def)
      then have "stream inp Y ?X s w' qY msY aY fs t hs ns rest" using st unfolding stream_def by auto
      then show ?thesis by (rule in_flightI)
    qed
    then show ?thesis using d(2) unfolding same by (intro flowI [OF F]) simp_all
  qed
  moreover have "side_ok ?X" using S'(2) buf by (simp add: side_ok_def hb_inv_def)
  moreover have "linked peer ?X Y" using S'(4) by (simp add: linked_def pc_IsClosed_def)
  ultimately show ?thesis using S'(1,3) by (simp add: session_ok_def)
qed

text \<open>
  The bytes on the way to socket \<open>s\<close> behind the first \<open>n\<close> of them. During a login the server opens its connection, and sends
  pending messages, while its response is still on the way.
\<close>

definition past :: "(int \<Rightarrow> 'w \<Rightarrow> u8 list) \<Rightarrow> int \<Rightarrow> nat \<Rightarrow> int \<Rightarrow> 'w \<Rightarrow> u8 list" where
  "past inp s n t w = (if t = s then drop n (inp t w) else inp t w)"

lemma past_0 [simp]: "past inp s 0 = inp"
  by (intro ext) (simp add: past_def)

lemma emits_past:
  assumes "emits inp peer cf q ms (c, w) (c', w')" and "n \<le> length (inp s w)"
  shows "emits (past inp s n) peer cf q ms (c, w) (c', w')"
proof -
  obtain q' b rest hs where *: "pc_q c' = Some q'" "ptcp_rel (TcpQueueSize cf) (ToLittleEndian cf) (HostLittle cf) q' ms"
    "pq_read_seq_num q' = pq_read_seq_num q" "pq_ack_seq_num q' = pq_ack_seq_num q" "length (unsent q') \<le> length (unsent q)" "sends c c'"
    "\<And>t. inp t w' = (if \<not> pc_IsClosed c \<and> t = peer (pc_sockfd c) then inp t w @ b else inp t w)"
    "b @ rest = cells_bytes (HostLittle cf) (unsent q) @ concat hs"
    "hs = [] \<or> unsent q = [] \<and> hs = [hb_frame cf (pq_ack_seq_num q)]"
    "\<not> pc_IsClosed c' \<longrightarrow> rest = cells_bytes (HostLittle cf) (unsent q')"
    using assms(1) unfolding emits_def prod.case by blast
  have "past inp s n t w' = (if \<not> pc_IsClosed c \<and> t = peer (pc_sockfd c) then past inp s n t w @ b else past inp s n t w)" for t
    using *(7) [of t] assms(2) by (cases "t = s") (auto simp: past_def)
  then show ?thesis unfolding emits_def prod.case
    by (intro exI [of _ q'] exI [of _ b] exI [of _ rest] exI [of _ hs] conjI allI) (use * in simp_all)
qed

text \<open>A session only depends on the bytes under way, and one without a connection not even on these.\<close>

lemma flow_cong:
  assumes "flow inp X Y w live r" and "\<And>s. r = Some s \<Longrightarrow> inp' s w' = inp s w"
  shows "flow inp' X Y w' live r"
proof -
  have "in_flight inp' X Y s w' q ms a \<longleftrightarrow> in_flight inp X Y s w q ms a" if "r = Some s" for s q ms a
    using assms(2) [OF that] by (simp add: in_flight_def stream_def)
  then show ?thesis using assms(1) unfolding flow_def by (cases r) simp_all
qed

lemma session_cong:
  assumes "session_ok inp peer X Y w" and "\<And>t. inp' t w' = inp t w"
  shows "session_ok inp' peer X Y w'"
  using assms by (auto simp: session_ok_def intro: flow_cong)

lemma session_closed:
  assumes "session_ok inp peer X Y w" and "\<not> sd_open X" and "\<not> sd_open Y"
  shows "session_ok inp' peer X Y w'"
  using assms by (auto simp: session_ok_def reads_def intro: flow_cong)

text \<open>
  What both sides present at a login, and the state when both have set their fields and the queues acknowledge what the
  other side has received.
\<close>

lemma login_opened:
  assumes S: "session_ok inp peer A B w" and closed: "\<not> sd_open A" "\<not> sd_open B"
    and net: "fd \<noteq> INVALID_TCP_SOCKET" "peer fd \<noteq> INVALID_TCP_SOCKET"
  obtains qA qB msA msB qA1 qB1 where "pc_q (sd_conn A) = Some qA" and "pc_q (sd_conn B) = Some qB"
    and "sd_rel A qA msA" and "sd_rel B qB msB"
    and "acks_ok (ToLittleEndian (sd_cf A)) (HostLittle (sd_cf A)) qA msA" and "acks_ok (ToLittleEndian (sd_cf B)) (HostLittle (sd_cf B)) qB msB"
    and "CheckAckInQueue (pq_ack_seq_num qA) (pq_read_seq_num qB) (pq_read_seq_num qB + word_of_nat (length msB))"
    and "CheckAckInQueue (pq_ack_seq_num qB) (pq_read_seq_num qA) (pq_read_seq_num qA + word_of_nat (length msA))"
    and "ptcp_LoginAck (ToLittleEndian (sd_cf A)) (HostLittle (sd_cf A)) (pq_ack_seq_num qB) qA = Some qA1"
    and "ptcp_LoginAck (ToLittleEndian (sd_cf B)) (HostLittle (sd_cf B)) (pq_ack_seq_num qA) qB = Some qB1"
    and "\<And>inp' w' nowA nowB. inp' fd w' = [] \<Longrightarrow> inp' (peer fd) w' = [] \<Longrightarrow>
      session_ok inp' peer (A\<lparr>sd_conn := opened fd nowA qA1 (sd_conn A)\<rparr>) (B\<lparr>sd_conn := opened (peer fd) nowB qB1 (sd_conn B)\<rparr>) (w' :: 'v)"
proof -
  have S': "ToLittleEndian (sd_cf A) = ToLittleEndian (sd_cf B)" "side_ok A" "side_ok B"
    "flow inp A B w (sd_open A) (reads B)" "flow inp B A w (sd_open B) (reads A)"
    using S by (simp_all add: session_ok_def)
  obtain qA qB ms a where CA: "files_ok A B qA qB ms a" using S'(4) by (auto simp: flow_def)
  obtain qB' qA' ms' a' where CB': "files_ok B A qB' qA' ms' a'" using S'(5) by (auto simp: flow_def)
  have q: "pc_q (sd_conn A) = Some qA" "pc_q (sd_conn B) = Some qB" "qB' = qB" "qA' = qA" using CA CB' by (auto simp: files_ok_def)
  have CB: "files_ok B A qB qA ms' a'" using CB' q by simp
  have rel: "sd_rel A qA ms" "sd_rel B qB ms'" using CA CB by (simp_all add: files_ok_def)
  have D: "length (sd_received A) < 2 ^ 31" "length (sd_received B) < 2 ^ 31"
    "pq_ack_seq_num qA = word_of_nat (length (sd_received A))" "pq_ack_seq_num qB = word_of_nat (length (sd_received B))"
    using CA CB by (simp_all add: files_ok_def)
  have chk: "CheckAckInQueue (pq_ack_seq_num qA) (pq_read_seq_num qB) (pq_read_seq_num qB + word_of_nat (length ms'))"
    "CheckAckInQueue (pq_ack_seq_num qB) (pq_read_seq_num qA) (pq_read_seq_num qA + word_of_nat (length ms))"
    using login_range [OF rel(2)] ack_offset(1,2) [OF CB] login_range [OF rel(1)] ack_offset(1,2) [OF CA] by (simp_all add: D)
  obtain qA1 where qA1: "ptcp_LoginAck (ToLittleEndian (sd_cf A)) (HostLittle (sd_cf A)) (word_of_nat (length (sd_received B))) qA = Some qA1"
    "pq_ack_seq_num qA1 = pq_ack_seq_num qA"
    using ptcp_LoginAck_rel [OF rel(1) ack_offset(1) [OF CA, symmetric] ack_offset(3,2) [OF CA]] by metis
  obtain qB1 where qB1: "ptcp_LoginAck (ToLittleEndian (sd_cf B)) (HostLittle (sd_cf B)) (word_of_nat (length (sd_received A))) qB = Some qB1"
    "pq_ack_seq_num qB1 = pq_ack_seq_num qB"
    using ptcp_LoginAck_rel [OF rel(2) ack_offset(1) [OF CB, symmetric] ack_offset(3,2) [OF CB]] by metis
  have S0: "session_ok inp' peer (A\<lparr>sd_conn := opened fd nowA qA1 (sd_conn A)\<rparr>) (B\<lparr>sd_conn := opened (peer fd) nowB qB1 (sd_conn B)\<rparr>) w'"
    if e: "inp' fd w' = []" "inp' (peer fd) w' = []" for inp' and w' :: 'v and nowA nowB
  proof -
    let ?A = "A\<lparr>sd_conn := opened fd nowA qA1 (sd_conn A)\<rparr>" and ?B = "B\<lparr>sd_conn := opened (peer fd) nowB qB1 (sd_conn B)\<rparr>"
    have op: "reads ?A = Some fd" "reads ?B = Some (peer fd)" "sd_open ?A" "sd_open ?B"
      using net by (simp_all add: reads_def opened_def pc_IsClosed_def)
    have "flow inp' ?A ?B w' True (Some (peer fd))" by (rule opened_flow [where inp = inp', OF CA S'(1,3) qA1(1) qB1(2) e(2)])
    moreover have "flow inp' ?B ?A w' True (Some fd)" by (rule opened_flow [where inp = inp', OF CB S'(1) [symmetric] S'(2) qB1(1) qA1(2) e(1)])
    moreover have "side_ok ?A" "side_ok ?B" using S'(2,3) by (simp_all add: side_ok_def hb_inv_def opened_def)
    moreover have "linked peer ?A ?B" by (simp add: linked_def opened_def)
    ultimately show ?thesis unfolding session_ok_def op using S'(1) op by simp
  qed
  show ?thesis
    by (rule that [OF q(1,2) rel files_acks [OF CA D(3,1)] files_acks [OF CB D(4,2)] chk _ _ S0]) (use qA1 qB1 D in simp_all)
qed

text \<open>The clock does not matter.\<close>

lemma session_now:
  "session_ok inp peer (X\<lparr>sd_conn := opened fd now' q c\<rparr>) Y w = session_ok inp peer (X\<lparr>sd_conn := opened fd now q c\<rparr>) Y w"
proof -
  have front: "front_rel cf (opened fd now' q c) = front_rel cf (opened fd now q c)" for cf
    by (intro ext) (simp add: front_rel_def rcv_inv_def opened_def)
  have hb: "hb_inv cf (opened fd now' q c) = hb_inv cf (opened fd now q c)" for cf by (simp add: hb_inv_def opened_def)
  have shut: "pc_IsClosed (opened fd now' q c) = pc_IsClosed (opened fd now q c)" by (simp add: pc_IsClosed_def opened_def)
  have fields: "pc_sockfd (opened fd now' q c) = pc_sockfd (opened fd now q c)" "pc_q (opened fd now' q c) = pc_q (opened fd now q c)"
    "pc_recvbuf (opened fd now' q c) = pc_recvbuf (opened fd now q c)" "pc_recvbuf_size (opened fd now' q c) = pc_recvbuf_size (opened fd now q c)"
    by (simp_all add: opened_def)
  show ?thesis
    by (cases X) (simp only: session_ok_def side_ok_def linked_def flow_def files_ok_def in_flight_def stream_def stored_ok_def [abs_def] reads_def
      side.simps front hb shut fields)
qed

context duplex
begin

text \<open>The rest of \<open>Open\<close>, on a side that has been opened.\<close>

lemma Open_session:
  assumes S: "session_ok (past inp s n) peer (X\<lparr>sd_conn := opened fd now q1 (sd_conn X)\<rparr>) Y w" and q: "pc_q (sd_conn X) = Some q"
    and n: "n \<le> length (inp s w)"
    and ack: "ptcp_LoginAck (ToLittleEndian (sd_cf X)) (HostLittle (sd_cf X)) ack q = Some q1"
  obtains c' w' where "pc_Open os (sd_cf X) fd ack now (sd_conn X) w = Some (c', w')" and "session_ok (past inp s n) peer (X\<lparr>sd_conn := c'\<rparr>) Y w'"
    and "pc_sockfd c' \<in> {fd, INVALID_TCP_SOCKET}" and "\<exists>b. \<forall>t. inp t w' = (if t = peer fd then inp t w @ b else inp t w)"
proof -
  let ?X = "X\<lparr>sd_conn := opened fd now q1 (sd_conn X)\<rparr>" and ?cf = "sd_cf X"
  have F: "flow (past inp s n) ?X Y w (sd_open ?X) (reads Y)" using S by (simp add: session_ok_def)
  obtain q0 ms where q0: "pc_q (sd_conn ?X) = Some q0" "sd_rel ?X q0 ms" using flow_queue [OF F] by blast
  obtain b c1 w1 where P: "pc_SendPending os (sd_cf ?X) (sd_conn ?X) w = Some (b, c1, w1)" by (rule SendPending_emits [OF q0, of w])
  have E': "emits inp peer (sd_cf ?X) q ms (sd_conn ?X, w) (c1, w1)" if "pc_q (sd_conn ?X) = Some q" "sd_rel ?X q ms" for q ms
    by (rule SendPending_emits [OF that, of w]) (use P in simp)
  note E = emits_past [OF E' n]
  have snd: "sends (opened fd now q1 (sd_conn X)) c1" using E [OF q0] by (simp add: emits_def) blast
  then have fd: "pc_sockfd c1 \<in> {fd, INVALID_TCP_SOCKET}" by (auto simp: sends_def steady_def opened_def)
  obtain bs where "inp t w1 = (if \<not> pc_IsClosed (opened fd now q1 (sd_conn X)) \<and> t = peer fd then inp t w @ bs else inp t w)" for t
    using E' [OF q0] by (auto simp: emits_def opened_def)
  then have sent: "\<exists>b. \<forall>t. inp t w1 = (if t = peer fd then inp t w @ b else inp t w)"
    by (intro exI [of _ "if pc_IsClosed (opened fd now q1 (sd_conn X)) then [] else bs"]) auto
  have "session_ok (past inp s n) peer (?X\<lparr>sd_conn := c1\<rparr>) Y w1" by (rule acting_end [OF emit_acting [OF acting_start [OF S] peer_neq E]])
  then have S1: "session_ok (past inp s n) peer (X\<lparr>sd_conn := c1\<rparr>) Y w1" by simp
  have P': "pc_SendPending os ?cf (opened fd now q1 (sd_conn X)) w = Some (b, c1, w1)" using P by simp
  note run = pc_Open_opened [OF q ack P']
  show ?thesis
  proof (cases "pc_recvbuf_size c1 = 0")
    case False
    then show ?thesis using that [of c1 w1] run S1 fd sent by simp
  next
    case True
    obtain buf w2 where new: "sys_new os (unat (TcpRecvBufInitSize ?cf)) w1 = (buf, w2)" by fastforce
    have "length buf = unat (TcpRecvBufInitSize ?cf)" using recv(2) new unfolding new_ok_def by (metis fst_conv)
    moreover have "unat (TcpRecvBufInitSize ?cf) \<le> unat (TcpRecvBufMaxSize ?cf)"
      using S by (simp add: session_ok_def side_ok_def recv_conf_def word_le_nat_alt)
    moreover have w2: "inp t w2 = inp t w1" for t using new_inp [of t "unat (TcpRecvBufInitSize ?cf)" w1] new by simp
    moreover have "past inp s n t w2 = past inp s n t w1" for t by (simp add: past_def w2)
    ultimately have "session_ok (past inp s n) peer (X\<lparr>sd_conn := c1\<lparr>pc_recvbuf_size := TcpRecvBufInitSize ?cf, pc_recvbuf := buf\<rparr>\<rparr>) Y w2"
      using buffer_session [OF S1, of buf "TcpRecvBufInitSize ?cf" w2] True by simp
    then show ?thesis using that run True new fd sent by (simp add: w2)
  qed
qed

text \<open>
  What both sides present at a login; and the two calls of \<open>Open\<close> when the other bytes on the new connection are the
  server's response \<open>R\<close>: the server's comes first, and sends the bytes \<open>b\<close> behind the response; the client's comes when
  the client has read the response.
\<close>

lemma open_both:
  assumes S: "session_ok inp peer A B w" and closed: "\<not> sd_open A" "\<not> sd_open B"
    and net: "fd \<noteq> INVALID_TCP_SOCKET" "peer fd \<noteq> INVALID_TCP_SOCKET"
  obtains qA qB msA msB where "pc_q (sd_conn A) = Some qA" and "pc_q (sd_conn B) = Some qB"
    and "sd_rel A qA msA" and "sd_rel B qB msB"
    and "acks_ok (ToLittleEndian (sd_cf A)) (HostLittle (sd_cf A)) qA msA" and "acks_ok (ToLittleEndian (sd_cf B)) (HostLittle (sd_cf B)) qB msB"
    and "CheckAckInQueue (pq_ack_seq_num qA) (pq_read_seq_num qB) (pq_read_seq_num qB + word_of_nat (length msB))"
    and "CheckAckInQueue (pq_ack_seq_num qB) (pq_read_seq_num qA) (pq_read_seq_num qA + word_of_nat (length msA))"
    and "\<And>wa R now. inp fd wa = R \<Longrightarrow> inp (peer fd) wa = [] \<Longrightarrow>
      \<exists>cB wb b. pc_Open os (sd_cf B) (peer fd) (pq_ack_seq_num qA) now (sd_conn B) wa = Some (cB, wb) \<and> inp fd wb = R @ b \<and>
        (\<forall>wc nowA. (\<forall>t. inp t wc = (if t = fd then b else inp t wb)) \<longrightarrow>
           (\<exists>cA w'. pc_Open os (sd_cf A) fd (pq_ack_seq_num qB) nowA (sd_conn A) wc = Some (cA, w') \<and>
              session_ok inp peer (A\<lparr>sd_conn := cA\<rparr>) (B\<lparr>sd_conn := cB\<rparr>) w'))"
proof -
  obtain qA qB msA msB qA1 qB1 where q: "pc_q (sd_conn A) = Some qA" "pc_q (sd_conn B) = Some qB" and rel: "sd_rel A qA msA" "sd_rel B qB msB"
    and acks: "acks_ok (ToLittleEndian (sd_cf A)) (HostLittle (sd_cf A)) qA msA" "acks_ok (ToLittleEndian (sd_cf B)) (HostLittle (sd_cf B)) qB msB"
    and chk: "CheckAckInQueue (pq_ack_seq_num qA) (pq_read_seq_num qB) (pq_read_seq_num qB + word_of_nat (length msB))"
      "CheckAckInQueue (pq_ack_seq_num qB) (pq_read_seq_num qA) (pq_read_seq_num qA + word_of_nat (length msA))"
    and qA1: "ptcp_LoginAck (ToLittleEndian (sd_cf A)) (HostLittle (sd_cf A)) (pq_ack_seq_num qB) qA = Some qA1"
    and qB1: "ptcp_LoginAck (ToLittleEndian (sd_cf B)) (HostLittle (sd_cf B)) (pq_ack_seq_num qA) qB = Some qB1"
    and opened: "\<And>inp' (w' :: 'w) nowA nowB. inp' fd w' = [] \<Longrightarrow> inp' (peer fd) w' = [] \<Longrightarrow>
      session_ok inp' peer (A\<lparr>sd_conn := opened fd nowA qA1 (sd_conn A)\<rparr>) (B\<lparr>sd_conn := opened (peer fd) nowB qB1 (sd_conn B)\<rparr>) w'"
    by (rule login_opened [OF S closed net, where ?'v = 'w]) blast
  show ?thesis
  proof (rule that [OF q rel acks chk])
    fix wa R now assume R: "inp fd wa = R" and e: "inp (peer fd) wa = []"
    let ?past = "past inp fd (length R)" and ?A = "\<lambda>now. A\<lparr>sd_conn := opened fd now qA1 (sd_conn A)\<rparr>"
    have len: "length R \<le> length (inp fd wa)" using R by simp
    have S0: "session_ok ?past peer (?A 0) (B\<lparr>sd_conn := opened (peer fd) now qB1 (sd_conn B)\<rparr>) wa"
      by (rule opened) (use R e peer_neq [of fd] in \<open>simp_all add: past_def\<close>)
    obtain cB wb where oB: "pc_Open os (sd_cf B) (peer fd) (pq_ack_seq_num qA) now (sd_conn B) wa = Some (cB, wb)"
      and sB: "session_ok ?past peer (B\<lparr>sd_conn := cB\<rparr>) (?A 0) wb" and sent: "\<exists>b. \<forall>t. inp t wb = (if t = fd then inp t wa @ b else inp t wa)"
      using Open_session [OF session_sym [OF S0 peer_peer] q(2) len qB1] unfolding peer_peer by metis
    obtain b where b: "\<And>t. inp t wb = (if t = fd then inp t wa @ b else inp t wa)" using sent by blast
    have "\<exists>cA w'. pc_Open os (sd_cf A) fd (pq_ack_seq_num qB) nowA (sd_conn A) wc = Some (cA, w') \<and>
        session_ok inp peer (A\<lparr>sd_conn := cA\<rparr>) (B\<lparr>sd_conn := cB\<rparr>) w'"
      if wc: "\<forall>t. inp t wc = (if t = fd then b else inp t wb)" for wc nowA
    proof -
      have "inp t wc = ?past t wb" for t using wc b [of t] R by (cases "t = fd") (simp_all add: past_def)
      then have "session_ok inp peer (B\<lparr>sd_conn := cB\<rparr>) (?A 0) wc" by (rule session_cong [OF sB])
      then have "session_ok inp peer (?A 0) (B\<lparr>sd_conn := cB\<rparr>) wc" by (rule session_sym [OF _ peer_peer])
      then have sA: "session_ok (past inp fd 0) peer (?A nowA) (B\<lparr>sd_conn := cB\<rparr>) wc"
        by (simp only: past_0 session_now [where now = 0 and now' = nowA])
      show ?thesis using Open_session [OF sA q(1) _ qA1] by (metis past_0 le0)
    qed
    then show "\<exists>cB wb b. pc_Open os (sd_cf B) (peer fd) (pq_ack_seq_num qA) now (sd_conn B) wa = Some (cB, wb) \<and> inp fd wb = R @ b \<and>
        (\<forall>wc nowA. (\<forall>t. inp t wc = (if t = fd then b else inp t wb)) \<longrightarrow>
           (\<exists>cA w'. pc_Open os (sd_cf A) fd (pq_ack_seq_num qB) nowA (sd_conn A) wc = Some (cA, w') \<and>
              session_ok inp peer (A\<lparr>sd_conn := cA\<rparr>) (B\<lparr>sd_conn := cB\<rparr>) w'))"
      using oB b [of fd] R by auto
  qed
qed

lemma login_session:
  assumes S: "session_ok inp peer A B w" and closed: "\<not> sd_open A" "\<not> sd_open B"
    and net: "fd \<noteq> INVALID_TCP_SOCKET" "peer fd \<noteq> INVALID_TCP_SOCKET" "inp fd w = []" "inp (peer fd) w = []"
  obtains A' B' w' where "sd_login os fd (peer fd) now A B w = Some (Some (A', B', w'))" and "session_ok inp peer A' B' w'"
    and "sd_cf A' = sd_cf A" "sd_cf B' = sd_cf B" "sd_written A' = sd_written A" "sd_written B' = sd_written B"
    and "sd_received A' = sd_received A" "sd_received B' = sd_received B"
proof -
  obtain qA qB msA msB where q: "pc_q (sd_conn A) = Some qA" "pc_q (sd_conn B) = Some qB" and rel: "sd_rel A qA msA" "sd_rel B qB msB"
    and acks: "acks_ok (ToLittleEndian (sd_cf A)) (HostLittle (sd_cf A)) qA msA" "acks_ok (ToLittleEndian (sd_cf B)) (HostLittle (sd_cf B)) qB msB"
    and chk: "CheckAckInQueue (pq_ack_seq_num qA) (pq_read_seq_num qB) (pq_read_seq_num qB + word_of_nat (length msB))"
      "CheckAckInQueue (pq_ack_seq_num qB) (pq_read_seq_num qA) (pq_read_seq_num qA + word_of_nat (length msA))"
    and opens: "\<And>wa R now. inp fd wa = R \<Longrightarrow> inp (peer fd) wa = [] \<Longrightarrow>
      \<exists>cB wb b. pc_Open os (sd_cf B) (peer fd) (pq_ack_seq_num qA) now (sd_conn B) wa = Some (cB, wb) \<and> inp fd wb = R @ b \<and>
        (\<forall>wc nowA. (\<forall>t. inp t wc = (if t = fd then b else inp t wb)) \<longrightarrow>
           (\<exists>cA w'. pc_Open os (sd_cf A) fd (pq_ack_seq_num qB) nowA (sd_conn A) wc = Some (cA, w') \<and>
              session_ok inp peer (A\<lparr>sd_conn := cA\<rparr>) (B\<lparr>sd_conn := cB\<rparr>) w'))"
    by (rule open_both [OF S closed net(1,2)]) blast
  obtain cB w1 b where OB: "pc_Open os (sd_cf B) (peer fd) (pq_ack_seq_num qA) now (sd_conn B) w = Some (cB, w1)" "inp fd w1 = b"
    and OA: "\<forall>wc nowA. (\<forall>t. inp t wc = (if t = fd then b else inp t w1)) \<longrightarrow>
      (\<exists>cA w'. pc_Open os (sd_cf A) fd (pq_ack_seq_num qB) nowA (sd_conn A) wc = Some (cA, w') \<and>
         session_ok inp peer (A\<lparr>sd_conn := cA\<rparr>) (B\<lparr>sd_conn := cB\<rparr>) w')"
    using opens [OF net(3,4), of now] by auto
  have "\<forall>t. inp t w1 = (if t = fd then b else inp t w1)" using OB(2) by simp
  then obtain cA w2 where "pc_Open os (sd_cf A) fd (pq_ack_seq_num qB) now (sd_conn A) w1 = Some (cA, w2)"
    "session_ok inp peer (A\<lparr>sd_conn := cA\<rparr>) (B\<lparr>sd_conn := cB\<rparr>) w2" using OA by blast
  then show ?thesis
    by (intro that [of "A\<lparr>sd_conn := cA\<rparr>" "B\<lparr>sd_conn := cB\<rparr>" w2])
      (use GetSeq_rel [OF q(1) rel(1) acks(1)] GetSeq_rel [OF q(2) rel(2) acks(2)] chk OB in \<open>simp_all add: sd_login_def\<close>)
qed

end

end
