(* ===== verification/Session_Props.thy ===== *)
theory Session_Props
  imports Session_Steps
begin

text \<open>
  Sessions as sequences of these steps, and their properties: every message is received once and in order
  through any number of connections, and no state is stuck. The locale \<open>duplex\<close> is interpreted on a
  network of two sockets, over which the witnesses run a session with a lost connection.
\<close>

section \<open>Sessions\<close>

text \<open>
  A session starts with both queue files newly created, that is zero, and no connection. Then both sides
  write, poll and close in any order; the network loses what was under way on a broken
  connection; and whenever both sides are closed they may log in again over a new pair of sockets.
  Application messages are typed differently from heartbeats, fit the peer's buffer, and are fewer
  than \<open>2\<^sup>3\<^sup>1\<close> in each direction.
\<close>

definition side_new :: "conf \<Rightarrow> side" where
  "side_new cf = \<lparr>sd_cf = cf, sd_conn = (PTCPConnection cf)\<lparr>pc_q := Some (ptcp_zeroed (TcpQueueSize cf))\<rparr>, sd_written = [], sd_received = []\<rparr>"

definition session_confs :: "conf \<Rightarrow> conf \<Rightarrow> bool" where
  "session_confs cfA cfB \<longleftrightarrow>
     ToLittleEndian cfA = ToLittleEndian cfB \<and> recv_conf cfA \<and> recv_conf cfB \<and>
     8 \<le> unat (TcpRecvBufMaxSize cfA) \<and> 8 \<le> unat (TcpRecvBufMaxSize cfB)"

definition may_send :: "side \<Rightarrow> side \<Rightarrow> u16 \<Rightarrow> u8 list \<Rightarrow> bool" where
  "may_send X Y mt body \<longleftrightarrow>
     mt \<noteq> HeartbeatMsg_msg_type \<and> length body + 8 < 65536 \<and> 8 * blocks 8 (length body + 8) \<le> unat (TcpRecvBufMaxSize (sd_cf Y)) \<and>
     Suc (length (sd_written X)) < 2 ^ 31"

definition new_sockets :: "(int \<Rightarrow> 'w \<Rightarrow> u8 list) \<Rightarrow> (int \<Rightarrow> int) \<Rightarrow> int \<Rightarrow> 'w \<Rightarrow> bool" where
  "new_sockets inp peer fd w \<longleftrightarrow>
     fd \<noteq> INVALID_TCP_SOCKET \<and> peer fd \<noteq> INVALID_TCP_SOCKET \<and> inp fd w = [] \<and> inp (peer fd) w = []"

inductive sess_step :: "'w os \<Rightarrow> (int \<Rightarrow> 'w \<Rightarrow> u8 list) \<Rightarrow> (int \<Rightarrow> int) \<Rightarrow> side \<times> side \<times> 'w \<Rightarrow> side \<times> side \<times> 'w \<Rightarrow> bool"
  for os inp peer where
  poll_A: "sess_step os inp peer (A, B, w) (A', B, w')" if "sd_poll os now pop A w = Some (A', w')"
| poll_B: "sess_step os inp peer (A, B, w) (A, B', w')" if "sd_poll os now pop B w = Some (B', w')"
| send_A: "sess_step os inp peer (A, B, w) (A', B, w')" if "may_send A B mt body" and "sd_send os mt body A w = Some (A', w')"
| send_B: "sess_step os inp peer (A, B, w) (A, B', w')" if "may_send B A mt body" and "sd_send os mt body B w = Some (B', w')"
| close_A: "sess_step os inp peer (A, B, w) (A\<lparr>sd_conn := pc_Close reason e (sd_conn A)\<rparr>, B, w)"
| close_B: "sess_step os inp peer (A, B, w) (A, B\<lparr>sd_conn := pc_Close reason e (sd_conn B)\<rparr>, w)"
| net: "sess_step os inp peer (A, B, w) (A, B, w')" if "net_step inp A B w w'"
| login: "sess_step os inp peer (A, B, w) (A', B', w')"
    if "\<not> sd_open A" and "\<not> sd_open B" and "new_sockets inp peer fd w" and "sd_login os fd (peer fd) now A B w = Some (Some (A', B', w'))"

lemma new_files_ok: "files_ok (side_new cfA) (side_new cfB) (ptcp_zeroed (TcpQueueSize cfA)) (ptcp_zeroed (TcpQueueSize cfB)) [] 0"
  using ptcp_zeroed_rel by (simp add: files_ok_def side_new_def ptcp_zeroed_def)

lemma new_session:
  assumes "session_confs cfA cfB"
  shows "session_ok inp peer (side_new cfA) (side_new cfB) w"
proof -
  have "\<not> sd_open (side_new cf)" "reads (side_new cf) = None" for cf
    by (simp_all add: side_new_def pc_IsClosed_def PTCPConnection_def reads_def)
  moreover have "side_ok (side_new cf)" if "cf \<in> {cfA, cfB}" for cf
    using assms that hb_inv_init [of cf] by (auto simp: side_ok_def side_new_def session_confs_def hb_inv_def PTCPConnection_def)
  moreover have "flow inp (side_new cf) (side_new cf') w False None" for cf cf'
    by (rule flowI [OF new_files_ok]) simp_all
  moreover have "sd_cf (side_new cf) = cf" for cf by (simp add: side_new_def)
  ultimately show ?thesis using assms by (simp add: session_ok_def linked_def session_confs_def)
qed

context duplex
begin

lemma poll_session:
  assumes S: "session_ok inp peer X Y w"
  obtains X' w' where "sd_poll os now pop X w = Some (X', w')" and "session_ok inp peer X' Y w'"
    and "sd_cf X' = sd_cf X" and "sd_written X' = sd_written X"
proof (cases "sd_open X")
  case True
  then have "acting inp peer (Some (pc_sockfd (sd_conn X))) X Y w" using acting_start [OF S] by (simp add: reads_def)
  from poll_acting [OF this True, of now pop] that show ?thesis by (metis acting_end)
next
  case False
  then have "sd_poll os now pop X w = Some (X, w)" by (simp add: sd_poll_def pc_poll_def)
  then show ?thesis using that S by blast
qed

lemma send_session:
  assumes S: "session_ok inp peer X Y w" and may: "may_send X Y mt body"
  obtains X' w' where "sd_send os mt body X w = Some (X', w')" and "session_ok inp peer X' Y w'"
    and "sd_cf X' = sd_cf X" and "sd_received X' = sd_received X"
  using send_acting [OF acting_start [OF S]] may unfolding may_send_def by (metis acting_end)

lemma step_session:
  assumes S: "session_ok inp peer A B w" and step: "sess_step os inp peer (A, B, w) (A', B', w')"
  shows "session_ok inp peer A' B' w'"
  using step
proof cases
  case (poll_A now pop)
  then show ?thesis using poll_session [OF S, of now pop] by (metis option.inject prod.inject)
next
  case (poll_B now pop)
  then show ?thesis using poll_session [OF session_sym [OF S peer_peer], of now pop] session_sym [OF _ peer_peer] by (metis option.inject prod.inject)
next
  case (send_A mt body)
  then show ?thesis using send_session [OF S, of mt body] by (metis option.inject prod.inject)
next
  case (send_B mt body)
  then show ?thesis using send_session [OF session_sym [OF S peer_peer], of mt body] session_sym [OF _ peer_peer] by (metis option.inject prod.inject)
next
  case close_A
  then show ?thesis using close_session [OF S peer_neq] by simp
next
  case close_B
  then show ?thesis using session_sym [OF close_session [OF session_sym [OF S peer_peer] peer_neq] peer_peer] by simp
next
  case net
  then show ?thesis using net_session [OF S] by simp
next
  case (login fd now)
  then have n: "fd \<noteq> INVALID_TCP_SOCKET" "peer fd \<noteq> INVALID_TCP_SOCKET" "inp fd w = []" "inp (peer fd) w = []" by (simp_all add: new_sockets_def)
  obtain A1 B1 w1 where "sd_login os fd (peer fd) now A B w = Some (Some (A1, B1, w1))" "session_ok inp peer A1 B1 w1"
    by (rule login_session [OF S login(1,2) n, of now])
  then show ?thesis using login(4) by simp
qed

lemma reach_session:
  assumes S: "session_ok inp peer A0 B0 w0" and reach: "(sess_step os inp peer)\<^sup>*\<^sup>* (A0, B0, w0) (A, B, w)"
  shows "session_ok inp peer A B w"
  using reach
proof (induction "(A, B, w)" arbitrary: A B w rule: rtranclp_induct)
  case base
  then show ?case using S by simp
next
  case (step y)
  then show ?case using step_session by (cases y) blast
qed

end

lemma flow_prefix: "flow inp X Y w live r \<Longrightarrow> sd_received Y = take (length (sd_received Y)) (sd_written X)"
  by (auto simp: flow_def files_ok_def)

section \<open>A network\<close>

text \<open>One connection between the sockets 4 and 5, the world being the bytes on the way to each.\<close>

definition pipe_peer :: "int \<Rightarrow> int" where
  "pipe_peer s = (if even s then s + 1 else s - 1)"

definition pipe_inp :: "int \<Rightarrow> u8 list \<times> u8 list \<Rightarrow> u8 list" where
  "pipe_inp t w = (if t = 4 then fst w else if t = 5 then snd w else [])"

definition pipe_recv :: "int \<Rightarrow> nat \<Rightarrow> u8 list \<times> u8 list \<Rightarrow> (int \<times> u8 list) \<times> (u8 list \<times> u8 list)" where
  "pipe_recv s n w =
     (let b = take n (pipe_inp s w)
      in if b = [] then ((- 1, []), w)
         else ((int (length b), b), (if s = 4 then drop n (fst w) else fst w, if s = 5 then drop n (snd w) else snd w)))"

definition pipe_os :: "(u8 list \<times> u8 list) os" where
  "pipe_os =
     \<lparr>sys_send = (\<lambda>s buf w. if s = 4 then (int (length buf), (fst w, snd w @ buf)) else if s = 5 then (int (length buf), (fst w @ buf, snd w))
                    else (- 1, w)),
      sys_recv = pipe_recv, sys_readv = (\<lambda>s ns. pipe_recv s (sum_list ns)), sys_errno = (\<lambda>w. TCP_ERR_AGAIN),
      sys_close = (\<lambda>s w. (0, w)), sys_new = (\<lambda>n w. (replicate n 0, w)),
      sys_open = (\<lambda>f b w. (8, w)), sys_shm_open = (\<lambda>f b w. (9, w)), sys_ftruncate = (\<lambda>fd n w. (0, w)),
      sys_shm_unlink = (\<lambda>f w. (0, w)), sys_mkdir = (\<lambda>f w. (0, w)), sys_socket = (\<lambda>w. (4, w)),
      sys_accept = (\<lambda>s w. ((5, (0, 0)), w)), sys_bind = (\<lambda>s a w. (0, w)), sys_listen = (\<lambda>s n w. (0, w)),
      sys_connect = (\<lambda>s a w. (0, w)), sys_setsockopt = (\<lambda>s opt w. (0, w)), sys_getfl = (\<lambda>s w. (0, w)),
      sys_setfl = (\<lambda>s n w. (0, w)), sys_inet_pton = (\<lambda>s. Some 1)\<rparr>"

lemma pipe_recv_inp:
  assumes "pipe_recv s n w = ((ret, data), w')"
  shows "pipe_inp t w = (if t = s \<and> 0 < ret then data else []) @ pipe_inp t w'" and "0 < ret \<Longrightarrow> ret \<le> int n \<and> length data = nat ret"
  using assms by (auto simp: pipe_recv_def pipe_inp_def Let_def split: if_split_asm)

interpretation pipe: duplex pipe_os pipe_inp pipe_peer
proof unfold_locales
  show "send_ok pipe_os" "send_progress pipe_os" "recv_ok pipe_os" "new_ok pipe_os"
    using pipe_recv_inp(2) by (auto simp: send_ok_def send_progress_def recv_ok_def new_ok_def pipe_os_def split: prod.split)
  show "pipe_inp t w' = (if t = pipe_peer s then pipe_inp t w @ take (nat ret) buf else pipe_inp t w)"
    if "sys_send pipe_os s buf w = (ret, w')" for s buf w ret w' t
    using that by (auto simp: pipe_os_def pipe_inp_def pipe_peer_def split: if_split_asm)
  show "pipe_inp t w = (if t = s \<and> 0 < ret then data else []) @ pipe_inp t w'" if "sys_recv pipe_os s n w = ((ret, data), w')" for s n w ret data w' t
    using that pipe_recv_inp(1) by (simp add: pipe_os_def)
  show "pipe_inp t w = (if t = s \<and> 0 < ret then data else []) @ pipe_inp t w'" if "sys_readv pipe_os s ns w = ((ret, data), w')" for s ns w ret data w' t
    using that pipe_recv_inp(1) by (simp add: pipe_os_def)
qed (auto simp: pipe_os_def pipe_recv_def pipe_inp_def pipe_peer_def INVALID_TCP_SOCKET_def)

definition little_conf :: conf where
  "little_conf = sample_conf\<lparr>HostLittle := True\<rparr>"

lemma pipe_confs: "session_confs little_conf sample_conf"
  using sample_recv_conf by (simp add: session_confs_def little_conf_def recv_conf_def sample_conf_def)

text \<open>
  A little-endian client and a big-endian server over the pipe. The client writes a message that is lost with
  the connection; after a second login the server receives it, and answers.
\<close>

definition pipe_login :: "side \<Rightarrow> side \<Rightarrow> (side \<times> side \<times> (u8 list \<times> u8 list)) option" where
  "pipe_login A B = Option.bind (sd_login pipe_os 4 5 0 A B ([], [])) id"

definition sd_Close :: "side \<Rightarrow> side" where
  "sd_Close X = X\<lparr>sd_conn := pc_Close ''test'' 0 (sd_conn X)\<rparr>"

definition pipe_lost :: "(side \<times> side) option" where
  "pipe_lost = do {
     (A, B, w) \<leftarrow> pipe_login (side_new little_conf) (side_new sample_conf);
     (A1, w1) \<leftarrow> sd_send pipe_os 7 [1, 2, 3] A w;
     Some (sd_Close A1, sd_Close B)
   }"

definition pipe_run :: "(side \<times> side \<times> (u8 list \<times> u8 list)) option" where
  "pipe_run = do {
     (A, B) \<leftarrow> pipe_lost;
     (A1, B1, w1) \<leftarrow> pipe_login A B;
     (B2, w2) \<leftarrow> sd_poll pipe_os 1 True B1 w1;
     (B3, w3) \<leftarrow> sd_send pipe_os 8 [] B2 w2;
     (A2, w4) \<leftarrow> sd_poll pipe_os 1 True A1 w3;
     Some (A2, B3, w4)
   }"

lemma pipe_run_result:
  "map_option (\<lambda>(A, B, w). (sd_written A, sd_received B, sd_written B, sd_received A, w)) pipe_run =
     Some ([(7, [1, 2, 3])], [(7, [1, 2, 3])], [(8, [])], [(8, [])], ([], []))"
  by code_simp

lemma pipe_login_step:
  assumes "pipe_login A B = Some (A', B', w')" and "\<not> sd_open A" and "\<not> sd_open B"
  shows "sess_step pipe_os pipe_inp pipe_peer (A, B, ([], [])) (A', B', w')"
proof -
  have "sd_login pipe_os 4 (pipe_peer 4) 0 A B ([], []) = Some (Some (A', B', w'))"
    using assms(1) by (auto simp: pipe_login_def pipe_peer_def split: bind_split_asm)
  moreover have "new_sockets pipe_inp pipe_peer 4 ([], [])" by (simp add: new_sockets_def pipe_inp_def pipe_peer_def INVALID_TCP_SOCKET_def)
  ultimately show ?thesis by (intro sess_step.login [OF assms(2,3)])
qed

lemma sd_Close_closed: "\<not> sd_open (sd_Close X)"
  by (simp add: sd_Close_def pc_Close_def pc_IsClosed_def)


lemma sd_login_keeps:
  assumes "sd_login os fdA fdB now A B w = Some (Some (A', B', w'))"
  shows "sd_cf A' = sd_cf A \<and> sd_written A' = sd_written A \<and> sd_cf B' = sd_cf B \<and> sd_written B' = sd_written B"
  using assms by (auto simp: sd_login_def split: bind_split_asm option.split_asm if_split_asm)

lemma sd_poll_keeps: "sd_poll os now pop X w = Some (X', w') \<Longrightarrow> sd_cf X' = sd_cf X \<and> sd_written X' = sd_written X"
  by (auto simp: sd_poll_def split: bind_split_asm)

lemma sess_step_conf:
  assumes "(sess_step os inp peer)\<^sup>*\<^sup>* (A0, B0, w0) (A, B, w)"
  shows "sd_cf A = sd_cf A0 \<and> sd_cf B = sd_cf B0"
  using assms
proof (induction "(A, B, w)" arbitrary: A B w rule: rtranclp_induct)
  case (step y)
  then obtain A1 B1 w1 where y: "y = (A1, B1, w1)" by (cases y)
  have send: "sd_cf X' = sd_cf X" if "sd_send os mt body X v = Some (X', v')" for mt body X v X' v'
    using that by (auto simp: sd_send_def split: bind_split_asm)
  from step(2) [unfolded y] have "sd_cf A = sd_cf A1 \<and> sd_cf B = sd_cf B1" by cases (auto dest: sd_poll_keeps sd_login_keeps send)
  then show ?case using step(3) [OF y] by simp
qed simp

lemma pipe_login_keeps:
  "pipe_login A B = Some (A', B', w') \<Longrightarrow> sd_cf A' = sd_cf A \<and> sd_written A' = sd_written A \<and> sd_cf B' = sd_cf B \<and> sd_written B' = sd_written B"
  by (rule sd_login_keeps [where w = "([], [])"]) (auto simp: pipe_login_def split: bind_split_asm)

abbreviation pipe_reach :: "side \<times> side \<times> (u8 list \<times> u8 list) \<Rightarrow> bool" where
  "pipe_reach \<equiv> (sess_step pipe_os pipe_inp pipe_peer)\<^sup>*\<^sup>* (side_new little_conf, side_new sample_conf, ([], []))"

lemma pipe_lost_reach:
  assumes "pipe_lost = Some (A, B)"
  shows "pipe_reach (A, B, ([], [])) \<and> \<not> sd_open A \<and> \<not> sd_open B \<and> sd_cf A = little_conf \<and> sd_written B = []"
proof -
  obtain A0 B0 w0 A1 w1 where run: "pipe_login (side_new little_conf) (side_new sample_conf) = Some (A0, B0, w0)"
    "sd_send pipe_os 7 [1, 2, 3] A0 w0 = Some (A1, w1)" "A = sd_Close A1" "B = sd_Close B0"
    using assms by (auto simp: pipe_lost_def split: bind_split_asm)
  have k: "sd_cf A0 = little_conf" "sd_written A0 = []" "sd_cf B0 = sample_conf" "sd_written B0 = []"
    using pipe_login_keeps [OF run(1)] by (simp_all add: side_new_def)
  have new: "\<not> sd_open (side_new cf)" for cf by (simp add: side_new_def pc_IsClosed_def PTCPConnection_def)
  have may: "may_send A0 B0 7 [1, 2, 3]" using k by (simp add: may_send_def sample_conf_def HeartbeatMsg_msg_type_def blocks_def)
  have "pipe_reach (A0, B0, w0)" using pipe_login_step [OF run(1) new new] by (rule r_into_rtranclp)
  then have "pipe_reach (A1, B0, w1)" using sess_step.send_A [OF may run(2)] by (rule rtranclp.rtrancl_into_rtrancl)
  then have "pipe_reach (A, B0, w1)" using sess_step.close_A unfolding run(3) sd_Close_def by (rule rtranclp.rtrancl_into_rtrancl)
  then have "pipe_reach (A, B, w1)" using sess_step.close_B unfolding run(4) sd_Close_def by (rule rtranclp.rtrancl_into_rtrancl)
  moreover have "net_step pipe_inp A B w1 ([], [])"
    using run(3,4) sd_Close_closed by (auto simp: net_step_def pipe_inp_def intro!: exI [of _ "0 :: nat"])
  ultimately have "pipe_reach (A, B, ([], []))" by (blast intro: rtranclp.rtrancl_into_rtrancl sess_step.net)
  moreover have "sd_cf A1 = sd_cf A0" using run(2) by (auto simp: sd_send_def split: bind_split_asm)
  ultimately show ?thesis using run(3,4) sd_Close_closed k by (simp add: sd_Close_def)
qed

lemma pipe_run_reach:
  assumes "pipe_run = Some (A, B, w)"
  shows "pipe_reach (A, B, w)"
proof -
  obtain A0 B0 A1 B1 w1 B2 w2 w3 where run: "pipe_lost = Some (A0, B0)" "pipe_login A0 B0 = Some (A1, B1, w1)"
    "sd_poll pipe_os 1 True B1 w1 = Some (B2, w2)" "sd_send pipe_os 8 [] B2 w2 = Some (B, w3)" "sd_poll pipe_os 1 True A1 w3 = Some (A, w)"
    using assms by (auto simp: pipe_run_def split: bind_split_asm)
  note l = pipe_lost_reach [OF run(1)]
  have "may_send B2 A1 8 []" using l pipe_login_keeps [OF run(2)] sd_poll_keeps [OF run(3)]
    by (simp add: may_send_def little_conf_def sample_conf_def HeartbeatMsg_msg_type_def blocks_def)
  note steps = sess_step.poll_B [OF run(3)] sess_step.send_B [OF this run(4)] sess_step.poll_A [OF run(5)]
  have "pipe_reach (A1, B1, w1)" using l pipe_login_step [OF run(2)] by (blast intro: rtranclp.rtrancl_into_rtrancl)
  with steps show ?thesis by (meson rtranclp.rtrancl_into_rtrancl)
qed

lemma pipe_run_state:
  obtains A B where "pipe_run = Some (A, B, ([], []))" and "sd_written A = [(7, [1, 2, 3])]" "sd_received B = [(7, [1, 2, 3])]"
    and "sd_written B = [(8, [])]" "sd_received A = [(8, [])]"
  using pipe_run_result by auto

section \<open>Properties\<close>

text \<open>C1: in every state a session reaches, each side has received exactly the messages the other side wrote, in
  order, each of them once, up to some point: through any interleaving of writes, polls and closes, partial
  sends and receives, lost connections and new logins that resume the queues.
\<close>

theorem session_exactly_once:
  assumes "duplex os inp peer" and "session_confs cfA cfB"
    and "(sess_step os inp peer)\<^sup>*\<^sup>* (side_new cfA, side_new cfB, w0) (A, B, w)"
  shows "sd_received B = take (length (sd_received B)) (sd_written A) \<and> sd_received A = take (length (sd_received A)) (sd_written B)"
proof -
  have "session_ok inp peer A B w" by (rule duplex.reach_session [OF assms(1) new_session [OF assms(2)] assms(3)])
  then show ?thesis by (auto simp: session_ok_def dest: flow_prefix)
qed

theorem session_exactly_once_witness:
  "\<exists>A B. pipe_run = Some (A, B, ([], [])) \<and> sd_written A = [(7, [1, 2, 3])] \<and>
     sd_received B = take (length (sd_received B)) (sd_written A) \<and> sd_received A = take (length (sd_received A)) (sd_written B)"
proof -
  obtain A B where r: "pipe_run = Some (A, B, ([], []))" "sd_written A = [(7, [1, 2, 3])]" by (rule pipe_run_state)
  show ?thesis using r session_exactly_once [OF pipe.duplex_axioms pipe_confs pipe_run_reach [OF r(1)]] by blast
qed

text \<open>C2: no session gets stuck. In every state it reaches, a poll and a write of a message return on either
  side, whatever the system calls answer; and when both sides are closed, the queues they kept are compatible:
  a login over new sockets succeeds and changes neither what was written nor what was received.
\<close>

theorem session_never_stuck:
  assumes "duplex os inp peer" and "session_confs cfA cfB"
    and "(sess_step os inp peer)\<^sup>*\<^sup>* (side_new cfA, side_new cfB, w0) (A, B, w)"
  shows "(\<exists>r. sd_poll os now pop A w = Some r) \<and> (\<exists>r. sd_poll os now pop B w = Some r) \<and>
    (may_send A B mt body \<longrightarrow> (\<exists>r. sd_send os mt body A w = Some r)) \<and> (may_send B A mt body \<longrightarrow> (\<exists>r. sd_send os mt body B w = Some r)) \<and>
    (\<not> sd_open A \<and> \<not> sd_open B \<and> new_sockets inp peer fd w \<longrightarrow>
       (\<exists>A' B' w'. sd_login os fd (peer fd) now A B w = Some (Some (A', B', w')) \<and>
          sd_written A' = sd_written A \<and> sd_written B' = sd_written B \<and> sd_received A' = sd_received A \<and> sd_received B' = sd_received B))"
proof -
  note d = assms(1)
  have S: "session_ok inp peer A B w" by (rule duplex.reach_session [OF d new_session [OF assms(2)] assms(3)])
  have S': "session_ok inp peer B A w" by (rule session_sym [OF S duplex.peer_peer [OF d]])
  have login: "\<exists>A' B' w'. sd_login os fd (peer fd) now A B w = Some (Some (A', B', w')) \<and>
      sd_written A' = sd_written A \<and> sd_written B' = sd_written B \<and> sd_received A' = sd_received A \<and> sd_received B' = sd_received B"
    if "\<not> sd_open A \<and> \<not> sd_open B \<and> new_sockets inp peer fd w"
    by (rule duplex.login_session [OF d S, of fd now]) (use that in \<open>auto simp: new_sockets_def\<close>)
  show ?thesis using duplex.poll_session [OF d S, of now pop] duplex.poll_session [OF d S', of now pop]
      duplex.send_session [OF d S, of mt body] duplex.send_session [OF d S', of mt body] login by metis
qed

theorem session_never_stuck_witness:
  "\<exists>A B A' B' w' r. pipe_lost = Some (A, B) \<and> sd_poll pipe_os 1 True A ([], []) = Some r \<and>
     sd_login pipe_os 4 (pipe_peer 4) 2 A B ([], []) = Some (Some (A', B', w'))"
proof -
  obtain A B where l: "pipe_lost = Some (A, B)" using pipe_run_result by (auto simp: pipe_run_def split: bind_split_asm)
  note r = pipe_lost_reach [OF l]
  have n: "new_sockets pipe_inp pipe_peer 4 ([], [])" by (simp add: new_sockets_def pipe_inp_def pipe_peer_def INVALID_TCP_SOCKET_def)
  from session_never_stuck [OF pipe.duplex_axioms pipe_confs conjunct1 [OF r], where now = 1 and pop = True]
    session_never_stuck [OF pipe.duplex_axioms pipe_confs conjunct1 [OF r], where now = 2 and fd = 4] r n l
  show ?thesis by blast
qed

end
