(* ===== verification/String_Apps.thy ===== *)
theory String_Apps
  imports Session_Props
begin

text \<open>
  The example programs, \<^verbatim>\<open>client.cpp\<close> and \<^verbatim>\<open>server.cpp\<close>, with the message types of \<^verbatim>\<open>common.h\<close>. The classes
  \<open>StringClient\<close> and \<open>StringServer\<close> are values of the callback records of the client and the server;
  what the callbacks print is an event on a console (without the addresses and numbers beside the text), and the conversion between messages and bytes,
  which the vendored serialisation library does, is a parameter (\<open>pb\<close>; \<open>None\<close> when \<open>from_pb\<close> throws).
\<close>

section \<open>Messages and configurations\<close>

text \<open>\<open>double\<close> is its 64-bit representation: no program computes with a price.\<close>

record order =
  od_id :: u32
  od_price :: u64
  od_volume :: u64

record trade =
  td_order_id :: u32
  td_trade_id :: u32
  td_price :: u64
  td_volume :: u64

record login =
  lg_name :: string
  lg_password :: string

record login_response =
  lp_error_code :: u32
  lp_error_message :: string

datatype request = Request_Login login | Request_Order order

datatype response = Response_Login login_response | Response_Trade trade

record pb =
  to_pb_request :: "request \<Rightarrow> u8 list"
  from_pb_request :: "u8 list \<Rightarrow> request option"
  to_pb_response :: "response \<Rightarrow> u8 list"
  from_pb_response :: "u8 list \<Rightarrow> response option"

datatype event = Text string | Client_login string string | Answer u32 string

definition ClientConf :: "bool \<Rightarrow> conf" where
  "ClientConf hl =
     \<lparr>NameSize = 16, ShmQueueSize = 1024 * 1024, ToLittleEndian = True, TcpQueueSize = 2000, TcpRecvBufInitSize = 1000,
      TcpRecvBufMaxSize = 2000, TcpNoDelay = True, ConnectionTimeout = 10 * 1000000000, HeartBeatInverval = 3 * 1000000000,
      LoginUserDataSize = 1, LoginRspUserDataSize = 1, HostLittle = hl\<rparr>"

definition ServerConf :: "bool \<Rightarrow> conf" where
  "ServerConf hl =
     \<lparr>NameSize = 16, ShmQueueSize = 1024 * 1024, ToLittleEndian = True, TcpQueueSize = 3000, TcpRecvBufInitSize = 1000,
      TcpRecvBufMaxSize = 2000, TcpNoDelay = True, ConnectionTimeout = 10 * 1000000000, HeartBeatInverval = 3 * 1000000000,
      LoginUserDataSize = 1, LoginRspUserDataSize = 1, HostLittle = hl\<rparr>"

definition ServerConf_limits :: srv_conf where
  "ServerConf_limits =
     \<lparr>MaxNewConnections = 5, MaxShmConnsPerGrp = 4, MaxShmGrps = 1, MaxTcpConnsPerGrp = 4, MaxTcpGrps = 1,
      NewConnectionTimeout = 3 * 1000000000\<rparr>"

section \<open>Reading and writing messages\<close>

text \<open>The type and the body behind a header pointer, in the receive buffer or in a shared queue.\<close>

definition read_ptr :: "conf \<Rightarrow> msg_ptr \<Rightarrow> tcpshm_conn \<Rightarrow> app_msg option" where
  "read_ptr cf p c =
     (case p of
        Recv_byte i \<Rightarrow> read_msg cf i (tc_ptcp_conn c)
      | Shm_cell i \<Rightarrow> do {
          q \<leftarrow> tc_recvq c;
          h \<leftarrow> array_get (vq_blk q) i;
          if unat (hdr_size h) < 8 \<or> 8 * length (vq_blk q) < 8 * i + unat (hdr_size h) then None
          else Some (hdr_msg_type h, segment (8 * i + 8) (8 * i + unat (hdr_size h)) (cells_bytes (HostLittle cf) (vq_blk q)))
        }
      | Ptcp_cell i \<Rightarrow> None)"

definition writeResponse :: "pb \<Rightarrow> 'w os \<Rightarrow> conf \<Rightarrow> response \<Rightarrow> tcpshm_conn \<Rightarrow> 'w \<Rightarrow> (tcpshm_conn \<times> 'w) option" where
  "writeResponse P os cf rsp c w = map_option fst (tc_send os cf 1 (to_pb_response P rsp) (c, w))"

definition login_answer :: "string \<Rightarrow> response" where
  "login_answer name =
     Response_Login (if name = ''gewei'' then \<lparr>lp_error_code = 0, lp_error_message = ''success''\<rparr>
                     else \<lparr>lp_error_code = - 1, lp_error_message = ''failure''\<rparr>)"

section \<open>The server\<close>

definition OnClientMsg :: "pb \<Rightarrow> (event \<Rightarrow> 'w \<Rightarrow> 'w) \<Rightarrow> 'w os \<Rightarrow> conf \<Rightarrow> msg_ptr \<Rightarrow> tcpshm_conn \<Rightarrow> 'w \<Rightarrow> (tcpshm_conn \<times> 'w) option" where
  "OnClientMsg P out os cf recv_header c w = do {
     (mt, view) \<leftarrow> read_ptr cf recv_header c;
     req \<leftarrow> from_pb_request P view;
     c1 \<leftarrow> tc_Pop cf c;
     (case req of
        Request_Login msg \<Rightarrow>
          writeResponse P os cf (login_answer (lg_name msg)) c1 (out (Client_login (lg_name msg) (lg_password msg)) w)
      | Request_Order msg \<Rightarrow> Some (c1, w))
   }"

definition StringServer :: "pb \<Rightarrow> (event \<Rightarrow> 'w \<Rightarrow> 'w) \<Rightarrow> 'w os \<Rightarrow> conf \<Rightarrow> 'w srv_cb" where
  "StringServer P out os cf =
     \<lparr>srv_OnSystemError = (\<lambda>msg err. out (Text (''System Error: '' @ msg))),
      srv_OnNewConnection = (\<lambda>addr login login_rsp w. (0, login_rsp, out (Text (''New Connection: '' @ cstr (lm_client_name login))) w)),
      srv_OnClientFileError = (\<lambda>r e c w. (c, out (Text (''OnClientFileError'' @ r)) w)),
      srv_OnSeqNumberMismatch = (\<lambda>seqs c w. (c, w)),
      srv_OnClientLogon = (\<lambda>addr c w. (c, out (Text (''Client Logged on: '' @ cstr (tc_remote_name c))) w)),
      srv_OnClientDisconnected = (\<lambda>reason err c w.
        (c, out (Text (''Client Disconnected: '' @ cstr (tc_remote_name c) @ '' Reason: '' @ reason)) w)),
      srv_OnClientMsg = OnClientMsg P out os cf\<rparr>"

text \<open>
  \<open>Run\<close>: the control loop and the polling threads, in the order a schedule gives; \<open>get_timestamp\<close> is the
  argument of a poll. The destructor then calls \<open>Stop\<close>.
\<close>

datatype srv_turn = Turn_ctl int | Turn_tcp int nat | Turn_shm nat

primrec server_turns :: "'w srv_env \<Rightarrow> conf \<Rightarrow> srv_conf \<Rightarrow> srv_turn list \<Rightarrow> server \<Rightarrow> 'w \<Rightarrow> (server \<times> 'w) option" where
  "server_turns E cf sc [] sv w = Some (sv, w)"
| "server_turns E cf sc (t # ts) sv w = do {
     (sv', w') \<leftarrow> (case t of
        Turn_ctl now \<Rightarrow> PollCtl E cf sc now sv w | Turn_tcp now i \<Rightarrow> PollTcp E cf now i sv w | Turn_shm i \<Rightarrow> PollShm E cf i sv w);
     server_turns E cf sc ts sv' w'
   }"

definition server_Run :: "'w srv_env \<Rightarrow> conf \<Rightarrow> srv_conf \<Rightarrow> string \<Rightarrow> u16 \<Rightarrow> srv_turn list \<Rightarrow> server \<Rightarrow> 'w \<Rightarrow> (server \<times> 'w) option" where
  "server_Run E cf sc ip port ts sv w =
     (case Start E cf ip port sv w of (ok, sv1, w1) \<Rightarrow> if ok then server_turns E cf sc ts sv1 w1 else Some (sv1, w1))"

section \<open>The client\<close>

definition OnServerMsg :: "pb \<Rightarrow> (event \<Rightarrow> 'w \<Rightarrow> 'w) \<Rightarrow> conf \<Rightarrow> msg_ptr \<Rightarrow> tcpshm_conn \<Rightarrow> 'w \<Rightarrow> (tcpshm_conn \<times> 'w) option" where
  "OnServerMsg P out cf header c w = do {
     (mt, view) \<leftarrow> read_ptr cf header c;
     w1 \<leftarrow> (if mt = 1
            then do {
              rsp \<leftarrow> from_pb_response P view;
              Some (case rsp of Response_Login msg \<Rightarrow> out (Answer (lp_error_code msg) (lp_error_message msg)) w | Response_Trade _ \<Rightarrow> w)
            }
            else Some w);
     c1 \<leftarrow> tc_Pop cf c;
     Some (c1, w1)
   }"

definition StringClient :: "pb \<Rightarrow> (event \<Rightarrow> 'w \<Rightarrow> 'w) \<Rightarrow> ('w \<Rightarrow> int \<times> 'w) \<Rightarrow> conf \<Rightarrow> 'w cl_cb" where
  "StringClient P out get_timestamp cf =
     \<lparr>cl_OnSystemError = (\<lambda>msg err. out (Text (''System Error: '' @ msg))),
      cl_OnLoginReject = (\<lambda>rsp. out (Text (''Login Rejected: '' @ cstr (lr_error_msg rsp)))),
      cl_OnSeqNumberMismatch = (\<lambda>seqs. out (Text ''Sequence mismatch detected.'')),
      cl_OnLoginSuccess = (\<lambda>rsp c w. case get_timestamp (out (Text ''Login Success'') w) of (now, w') \<Rightarrow> (now, c, w')),
      cl_OnServerMsg = OnServerMsg P out cf,
      cl_OnDisconnected = (\<lambda>reason err c w. (c, out (Text (''Disconnected: '' @ reason)) w))\<rparr>"

definition login_request :: "string \<Rightarrow> request" where
  "login_request s = Request_Login \<lparr>lg_name = s, lg_password = ''123456''\<rparr>"

definition client_Send :: "pb \<Rightarrow> (event \<Rightarrow> 'w \<Rightarrow> 'w) \<Rightarrow> 'w os \<Rightarrow> conf \<Rightarrow> string \<Rightarrow> tcpshm_conn \<Rightarrow> 'w \<Rightarrow> (tcpshm_conn \<times> 'w) option" where
  "client_Send P out os cf s c w = do {
     ((c', w'), ok) \<leftarrow> tc_send os cf 1 (to_pb_request P (login_request s)) (c, w);
     Some (c', if ok then w' else out (Text ''Send buffer full!'') w')
   }"

text \<open>
  \<open>Run\<close>: after a successful \<open>Connect\<close>, turns of the polling thread, which ends when the connection is
  closed, and lines of input sent by the main thread; then \<open>Close\<close> and \<open>Stop\<close>.
\<close>

datatype cl_turn = Turn_poll int | Turn_line string

primrec client_turns :: "'w cl_env \<Rightarrow> pb \<Rightarrow> (event \<Rightarrow> 'w \<Rightarrow> 'w) \<Rightarrow> conf \<Rightarrow> bool \<Rightarrow> cl_turn list \<Rightarrow> client \<Rightarrow> 'w \<Rightarrow> (client \<times> 'w) option" where
  "client_turns E P out cf use_shm [] cl w = Some (cl, w)"
| "client_turns E P out cf use_shm (t # ts) cl w = do {
     (cl', w') \<leftarrow> (case t of
        Turn_poll now \<Rightarrow>
          if tc_IsClosed (cl_conn cl) then Some (cl, w)
          else do {
            (cl1, w1) \<leftarrow> (if use_shm then cl_PollShm E cf cl w else Some (cl, w));
            cl_PollTcp E cf now cl1 w1
          }
      | Turn_line s \<Rightarrow> do { (c, w1) \<leftarrow> client_Send P out (ce_os E) cf s (cl_conn cl) w; Some (cl\<lparr>cl_conn := c\<rparr>, w1) });
     client_turns E P out cf use_shm ts cl' w'
   }"

definition client_Run :: "'w cl_env \<Rightarrow> pb \<Rightarrow> (event \<Rightarrow> 'w \<Rightarrow> 'w) \<Rightarrow> conf \<Rightarrow> string \<Rightarrow> u16 \<Rightarrow> bool \<Rightarrow> u8 list \<Rightarrow> u8 list \<Rightarrow> cl_turn list \<Rightarrow>
    client \<Rightarrow> 'w \<Rightarrow> (client \<times> 'w) option" where
  "client_Run E P out cf ip port use_shm user_data pad ts cl w = do {
     (ok, cl1, w1) \<leftarrow> Connect E cf use_shm ip port user_data pad cl w;
     if ok
     then do {
       (cl2, w2) \<leftarrow> client_turns E P out cf use_shm ts cl1 w1;
       Some (cl_Stop E (cl2\<lparr>cl_conn := tc_Close (cl_conn cl2)\<rparr>) w2)
     }
     else Some (cl1, w1)
   }"

section \<open>The programs\<close>

text \<open>
  \<open>main\<close> of both programs, the destructor at its end included; \<open>argv\<close> are the arguments. The classes pass their two
  constructor arguments on in the order (directory, name), which the base classes take as (name, directory).
\<close>

definition client_main :: "'w cl_env \<Rightarrow> pb \<Rightarrow> (event \<Rightarrow> 'w \<Rightarrow> 'w) \<Rightarrow> ('w \<Rightarrow> int \<times> 'w) \<Rightarrow> bool \<Rightarrow> string \<Rightarrow> u8 list \<Rightarrow> cl_turn list \<Rightarrow>
    string list \<Rightarrow> 'w \<Rightarrow> (int \<times> 'w) option" where
  "client_main E P out clock hl junk pad ts argv w =
     (if length argv < 3 then Some (- 1, out (Text ''usage: ./client name use_shm[0|1]'') w)
      else let cf = ClientConf hl; E' = E\<lparr>ce_cb := StringClient P out clock cf\<rparr>;
               (cl, w1) = TcpShmClient (ce_os E) cf (argv ! 1) (argv ! 1) junk w;
               use_shm = (take 1 (argv ! 2) \<noteq> ''0'')
           in do {
             (cl', w2) \<leftarrow> client_Run E' P out cf ''127.0.0.1'' 12345 use_shm [0] pad ts cl w1;
             Some (0, snd (cl_Stop E' cl' w2))
           })"

definition server_main :: "'w srv_env \<Rightarrow> pb \<Rightarrow> (event \<Rightarrow> 'w \<Rightarrow> 'w) \<Rightarrow> bool \<Rightarrow> string \<Rightarrow> new_conn \<Rightarrow> srv_turn list \<Rightarrow> 'w \<Rightarrow> (int \<times> 'w) option" where
  "server_main E P out hl junk mem ts w =
     (let cf = ServerConf hl; sc = ServerConf_limits; E' = E\<lparr>se_cb := StringServer P out (se_os E) cf\<rparr>;
          (sv, w1) = TcpShmServer (se_os E) cf sc ''server_ptcp'' ''server01'' junk mem w
      in do {
        (sv', w2) \<leftarrow> server_Run E' cf sc ''127.0.0.1'' 12345 ts sv w1;
        Some (0, snd (Stop E' sv' w2))
      })"

end
