(* ===== verification/String_Session.thy ===== *)
theory String_Session
  imports String_Apps "HOL-Library.Sublist"
begin

text \<open>
  The example programs at the two ends of a session: what a poll of the server and a poll or a line of
  input of the client do to a side, that the server's poll is \<open>PollTcp\<close> with \<open>OnClientMsg\<close> (\<open>poll_serve\<close>), and the
  invariant of a conversation (\<open>talk_ok\<close>), proved in the locale \<open>duplex\<close>.
\<close>

section \<open>The programs over a session\<close>

text \<open>
  What one poll of the server's program does to a side of a session: the poll, and the answer to the
  message it took; what a line of input and a poll of the client's program do to the other side.
\<close>

definition sd_serve :: "pb \<Rightarrow> (event \<Rightarrow> 'w \<Rightarrow> 'w) \<Rightarrow> 'w os \<Rightarrow> int \<Rightarrow> side \<Rightarrow> 'w \<Rightarrow> (side \<times> 'w) option" where
  "sd_serve P out os now X w = do {
     (X1, w1) \<leftarrow> sd_poll os now True X w;
     if length (sd_received X) < length (sd_received X1)
     then do {
       req \<leftarrow> from_pb_request P (snd (last (sd_received X1)));
       (case req of
          Request_Login msg \<Rightarrow>
            sd_send os 1 (to_pb_response P (login_answer (lg_name msg))) X1 (out (Client_login (lg_name msg) (lg_password msg)) w1)
        | Request_Order msg \<Rightarrow> Some (X1, w1))
     }
     else Some (X1, w1)
   }"

definition sd_line :: "pb \<Rightarrow> (event \<Rightarrow> 'w \<Rightarrow> 'w) \<Rightarrow> 'w os \<Rightarrow> string \<Rightarrow> side \<Rightarrow> 'w \<Rightarrow> (side \<times> 'w) option" where
  "sd_line P out os s X w = do {
     (X', w') \<leftarrow> sd_send os 1 (to_pb_request P (login_request s)) X w;
     Some (X', if length (sd_written X) < length (sd_written X') then w' else out (Text ''Send buffer full!'') w')
   }"

definition sd_hear :: "pb \<Rightarrow> (event \<Rightarrow> 'w \<Rightarrow> 'w) \<Rightarrow> 'w os \<Rightarrow> int \<Rightarrow> side \<Rightarrow> 'w \<Rightarrow> (side \<times> 'w) option" where
  "sd_hear P out os now X w = do {
     (X1, w1) \<leftarrow> sd_poll os now True X w;
     if length (sd_received X) < length (sd_received X1) \<and> fst (last (sd_received X1)) = 1
     then do {
       rsp \<leftarrow> from_pb_response P (snd (last (sd_received X1)));
       Some (X1, case rsp of Response_Login msg \<Rightarrow> out (Answer (lp_error_code msg) (lp_error_message msg)) w1 | Response_Trade _ \<Rightarrow> w1)
     }
     else Some (X1, w1)
   }"

text \<open>A connection over TCP only.\<close>

definition tc_over :: "tcpshm_conn \<Rightarrow> side \<Rightarrow> tcpshm_conn" where
  "tc_over c X = c\<lparr>tc_ptcp_conn := sd_conn X, tc_sendq := None, tc_recvq := None\<rparr>"

lemma tc_over_ghost [simp]:
  "tc_over c (Y\<lparr>sd_received := a\<rparr>) = tc_over c Y" "tc_over c (Y\<lparr>sd_written := b\<rparr>) = tc_over c Y"
  "tc_over c (Y\<lparr>sd_conn := pc, sd_received := a\<rparr>) = tc_over c (Y\<lparr>sd_conn := pc\<rparr>)"
  "tc_over c (Y\<lparr>sd_conn := pc, sd_written := b\<rparr>) = tc_over c (Y\<lparr>sd_conn := pc\<rparr>)"
  "tc_over c (Y\<lparr>sd_conn := pc, sd_written := b, sd_received := a\<rparr>) = tc_over c (Y\<lparr>sd_conn := pc\<rparr>)"
  "tc_over c (Y\<lparr>sd_received := a, sd_conn := pc\<rparr>) = tc_over c (Y\<lparr>sd_conn := pc\<rparr>)"
  by (simp_all add: tc_over_def)

lemma tc_send_over:
  "tc_send os (sd_cf X) mt body (tc_over c X, w) =
     map_option (\<lambda>(ok, pc, w'). ((tc_over c (X\<lparr>sd_conn := pc\<rparr>), w'), ok)) (pc_send os (sd_cf X) mt body (sd_conn X) w)"
  by (auto simp: tc_send_def pc_send_def tc_over_def tc_Alloc_def tc_Push_def
      split: Option.bind_split option.split prod.split)

lemma pc_poll_front:
  assumes "\<not> pc_IsClosed c"
  shows "pc_poll os cf now True c w = do {
     (p, c', w') \<leftarrow> do { (c1, w1) \<leftarrow> pc_SendHB os cf now c w; pc_Front os cf c1 w1 };
     (case p of None \<Rightarrow> Some (None, c', w') | Some i \<Rightarrow> do { m \<leftarrow> read_msg cf i c'; c3 \<leftarrow> pc_Pop cf c'; Some (Some m, c3, w') })
   }"
  using assms by (cases "pc_SendHB os cf now c w") (auto simp: pc_poll_def split: prod.split intro!: Option.bind_cong option.case_cong)

lemma poll_serve:
  assumes "sd_open X" and "p < length pool" and "pool ! p = tc_over c X"
  shows "poll_conns (tc_TcpFront os (sd_cf X) now) (OnClientMsg P out os (sd_cf X)) [p] pool w =
    map_option (\<lambda>(X', w'). (pool[p := tc_over c X'], w')) (sd_serve P out os now X w)"
proof -
  let ?cf = "sd_cf X"
  obtain r where r: "do { (c1, w1) \<leftarrow> pc_SendHB os ?cf now (sd_conn X) w; pc_Front os ?cf c1 w1 } = r" by simp
  have front: "tc_TcpFront os ?cf now (tc_over c X) w =
      map_option (\<lambda>(q, pc, w2). (map_option Recv_byte q, tc_over c (X\<lparr>sd_conn := pc\<rparr>), w2)) r"
    unfolding r [symmetric] by (auto simp: tc_TcpFront_def tc_over_def split: Option.bind_split prod.split)
  show ?thesis
  proof (cases r)
    case None
    then show ?thesis using front assms(3) r by (simp add: sd_serve_def sd_poll_def pc_poll_front [OF assms(1)])
  next
    case (Some t)
    obtain q pc w2 where t: "t = (q, pc, w2)" by (cases t)
    have pop: "tc_Pop ?cf (tc_over c (X\<lparr>sd_conn := pc\<rparr>)) = map_option (\<lambda>pc'. tc_over c (X\<lparr>sd_conn := pc'\<rparr>)) (pc_Pop ?cf pc)"
      by (auto simp: tc_Pop_def tc_over_def split: Option.bind_split)
    have snd: "tc_send os ?cf 1 b (tc_over c (X\<lparr>sd_conn := pc'\<rparr>), v) =
        map_option (\<lambda>(ok, pc, w'). ((tc_over c (X\<lparr>sd_conn := pc\<rparr>), w'), ok)) (pc_send os ?cf 1 b pc' v)" for b pc' v
      using tc_send_over [of os "X\<lparr>sd_conn := pc'\<rparr>" 1 b c v] by simp
    show ?thesis
    proof (cases q)
      case None
      then show ?thesis using front Some t assms(2,3) r
        by (simp add: sd_serve_def sd_poll_def pc_poll_front [OF assms(1)] tc_over_def)
    next
      case q: (Some i)
      have read: "read_ptr ?cf (Recv_byte i) (tc_over c (X\<lparr>sd_conn := pc\<rparr>)) = read_msg ?cf i pc" by (simp add: read_ptr_def tc_over_def)
      note run = front Some t q assms(2,3) r read
      note defs = sd_serve_def sd_poll_def pc_poll_front [OF assms(1)] OnClientMsg_def
      consider "read_msg ?cf i pc = None \<or> pc_Pop ?cf pc = None" | m pc' where "read_msg ?cf i pc = Some m" "pc_Pop ?cf pc = Some pc'"
        by (cases "read_msg ?cf i pc", blast, cases "pc_Pop ?cf pc", blast, blast)
      then show ?thesis
      proof cases
        case 1
        then show ?thesis using run by (auto simp: defs pop split: Option.bind_split)
      next
        case 2
        then show ?thesis using run
          by (cases m, cases "from_pb_request P (snd m)")
            (auto simp: defs pop writeResponse_def sd_send_def snd split: request.split Option.bind_split)
      qed
    qed
  qed
qed

section \<open>A conversation\<close>

text \<open>
  The two programs over TCP, from new queue files: lines of input, polls, closed and lost connections, and
  new logins, in any order. A line is short enough that its request fits the peer's buffer, and
  there are fewer than \<open>2\<^sup>3\<^sup>1\<close> messages.
\<close>

definition request_msg :: "pb \<Rightarrow> string \<Rightarrow> app_msg" where
  "request_msg P s = (1, to_pb_request P (login_request s))"

definition answer_msg :: "pb \<Rightarrow> string \<Rightarrow> app_msg" where
  "answer_msg P s = (1, to_pb_response P (login_answer s))"

text \<open>What the programs rely on of the serialisation library.\<close>

definition pb_ok :: "pb \<Rightarrow> bool" where
  "pb_ok P \<longleftrightarrow> (\<forall>s. from_pb_request P (to_pb_request P (login_request s)) = Some (login_request s)) \<and>
     (\<forall>s. from_pb_response P (to_pb_response P (login_answer s)) = Some (login_answer s)) \<and>
     (\<forall>s. length (to_pb_response P (login_answer s)) \<le> 1984)"

inductive talk :: "pb \<Rightarrow> (event \<Rightarrow> 'w \<Rightarrow> 'w) \<Rightarrow> 'w os \<Rightarrow> (int \<Rightarrow> 'w \<Rightarrow> u8 list) \<Rightarrow> (int \<Rightarrow> int) \<Rightarrow> side \<times> side \<times> 'w \<Rightarrow> side \<times> side \<times> 'w \<Rightarrow> bool"
  for P out os inp peer where
  line: "talk P out os inp peer (A, B, w) (A', B, w')"
    if "length (to_pb_request P (login_request s)) \<le> 1984" and "Suc (length (sd_written A)) < 2 ^ 31" and "sd_line P out os s A w = Some (A', w')"
| serve: "talk P out os inp peer (A, B, w) (A, B', w')" if "Suc (length (sd_written B)) < 2 ^ 31" and "sd_serve P out os now B w = Some (B', w')"
| hear: "talk P out os inp peer (A, B, w) (A', B, w')" if "sd_hear P out os now A w = Some (A', w')"
| close_A: "talk P out os inp peer (A, B, w) (A\<lparr>sd_conn := pc_Close reason e (sd_conn A)\<rparr>, B, w)"
| close_B: "talk P out os inp peer (A, B, w) (A, B\<lparr>sd_conn := pc_Close reason e (sd_conn B)\<rparr>, w)"
| net: "talk P out os inp peer (A, B, w) (A, B, w')" if "net_step inp A B w w'"
| login: "talk P out os inp peer (A, B, w) (A', B', w')"
    if "\<not> sd_open A" and "\<not> sd_open B" and "new_sockets inp peer fd w" and "sd_login os fd (peer fd) now A B w = Some (Some (A', B', w'))"

definition talk_ok :: "pb \<Rightarrow> (int \<Rightarrow> 'w \<Rightarrow> u8 list) \<Rightarrow> (int \<Rightarrow> int) \<Rightarrow> side \<times> side \<times> 'w \<Rightarrow> bool" where
  "talk_ok P inp peer = (\<lambda>(A, B, w). session_ok inp peer A B w \<and> 2000 \<le> unat (TcpRecvBufMaxSize (sd_cf A)) \<and> 2000 \<le> unat (TcpRecvBufMaxSize (sd_cf B)) \<and>
     (\<exists>names. sd_written A = map (request_msg P) names \<and>
        subseq (sd_written B) (map (answer_msg P) (take (length (sd_received B)) names))))"

definition talk_confs :: "conf \<Rightarrow> conf \<Rightarrow> bool" where
  "talk_confs cfA cfB \<longleftrightarrow> session_confs cfA cfB \<and> 2000 \<le> unat (TcpRecvBufMaxSize cfA) \<and> 2000 \<le> unat (TcpRecvBufMaxSize cfB)"

lemma app_confs: "talk_confs (ClientConf hlA) (ServerConf hlB)"
  by (simp add: talk_confs_def session_confs_def recv_conf_def ClientConf_def ServerConf_def)

lemma talk_start: "talk_confs cfA cfB \<Longrightarrow> talk_ok P inp peer (side_new cfA, side_new cfB, w)"
  using new_session by (auto simp: talk_confs_def talk_ok_def side_new_def)

text \<open>A message of up to 1984 bytes may be sent.\<close>

lemma may_send_short:
  assumes "length body \<le> 1984" and "2000 \<le> unat (TcpRecvBufMaxSize (sd_cf Y))" and "Suc (length (sd_written X)) < 2 ^ 31"
  shows "may_send X Y 1 body"
proof -
  have "blocks 8 (length body + 8) \<le> blocks 8 1992" using assms(1) by (intro blocks_mono) simp
  also have "\<dots> = 249" by (simp add: blocks_def)
  finally have "8 * blocks 8 (length body + 8) \<le> unat (TcpRecvBufMaxSize (sd_cf Y))" using assms(2) by linarith
  then show ?thesis using assms by (simp add: may_send_def HeartbeatMsg_msg_type_def)
qed

lemma received_grows:
  assumes "sd_poll os now pop X w = Some (X', w')"
  shows "sd_received X' = sd_received X \<or> (\<exists>m. sd_received X' = sd_received X @ [m])"
  using assms by (auto simp: sd_poll_def split: bind_split_asm option.split_asm)

lemma written_grows:
  assumes "sd_send os mt body X w = Some (X', w')"
  shows "sd_cf X' = sd_cf X \<and> sd_received X' = sd_received X \<and> sd_written X' = sd_written X @ (if length (sd_written X) < length (sd_written X') then [(mt, body)] else [])"
  using assms by (auto simp: sd_send_def split: bind_split_asm if_split_asm)

lemma session_prefix:
  assumes "session_ok inp peer A B w"
  shows "sd_received B = take (length (sd_received B)) (sd_written A)" "sd_received A = take (length (sd_received A)) (sd_written B)"
  using assms by (auto simp: session_ok_def dest: flow_prefix)

context duplex
begin

lemma out_session:
  assumes "session_ok inp peer A B w" and "\<And>t. inp t w' = inp t w"
  shows "session_ok inp peer A B w'"
  by (rule net_session [OF assms(1)]) (simp add: net_step_def assms(2))

lemma talk_line:
  assumes T: "talk_ok P inp peer (A, B, w)" and out: "\<And>e t w. inp t (out e w) = inp t w"
    and s: "length (to_pb_request P (login_request s)) \<le> 1984" "Suc (length (sd_written A)) < 2 ^ 31"
  obtains A' w' where "sd_line P out os s A w = Some (A', w')" and "talk_ok P inp peer (A', B, w')"
proof -
  obtain names where T': "session_ok inp peer A B w" "2000 \<le> unat (TcpRecvBufMaxSize (sd_cf A))" "2000 \<le> unat (TcpRecvBufMaxSize (sd_cf B))"
    "sd_written A = map (request_msg P) names" "subseq (sd_written B) (map (answer_msg P) (take (length (sd_received B)) names))"
    using T by (auto simp: talk_ok_def)
  obtain A' w1 where send: "sd_send os 1 (to_pb_request P (login_request s)) A w = Some (A', w1)" and S: "session_ok inp peer A' B w1"
    by (rule send_session [OF T'(1) may_send_short [OF s(1) T'(3) s(2)]])
  note G = written_grows [OF send]
  let ?names = "names @ (if length (sd_written A) < length (sd_written A') then [s] else [])"
  let ?w = "if length (sd_written A) < length (sd_written A') then w1 else out (Text ''Send buffer full!'') w1"
  have "length (sd_received B) \<le> length names" using session_prefix(1) [OF T'(1)] T'(4) by (metis length_map length_take min.absorb_iff2 min.commute)
  then have "subseq (sd_written B) (map (answer_msg P) (take (length (sd_received B)) ?names))" using T'(5) by simp
  moreover have "sd_written A' = map (request_msg P) ?names" using G T'(4) by (auto simp: request_msg_def)
  moreover have "session_ok inp peer A' B ?w" using S out by (auto intro: out_session)
  ultimately have "talk_ok P inp peer (A', B, ?w)" using T'(2,3) G unfolding talk_ok_def prod.case by metis
  then show thesis by (intro that [of A' ?w]) (simp_all add: sd_line_def send)
qed

lemma talk_serve:
  assumes T: "talk_ok P inp peer (A, B, w)" and out: "\<And>e t w. inp t (out e w) = inp t w" and P: "pb_ok P"
    and few: "Suc (length (sd_written B)) < 2 ^ 31"
  obtains B' w' where "sd_serve P out os now B w = Some (B', w')" and "talk_ok P inp peer (A, B', w')"
proof -
  obtain names where T': "session_ok inp peer A B w" "2000 \<le> unat (TcpRecvBufMaxSize (sd_cf A))" "2000 \<le> unat (TcpRecvBufMaxSize (sd_cf B))"
    "sd_written A = map (request_msg P) names" "subseq (sd_written B) (map (answer_msg P) (take (length (sd_received B)) names))"
    using T by (auto simp: talk_ok_def)
  obtain B1 w1 where poll: "sd_poll os now True B w = Some (B1, w1)" and S: "session_ok inp peer B1 A w1"
    and B1: "sd_cf B1 = sd_cf B" "sd_written B1 = sd_written B"
    by (rule poll_session [OF session_sym [OF T'(1) peer_peer], of now True])
  have S1: "session_ok inp peer A B1 w1" by (rule session_sym [OF S peer_peer])
  from received_grows [OF poll] show thesis
  proof
    assume same: "sd_received B1 = sd_received B"
    have "talk_ok P inp peer (A, B1, w1)" unfolding talk_ok_def prod.case using S1 T' B1 same by auto
    then show thesis by (intro that [of B1 w1]) (simp_all add: sd_serve_def poll same)
  next
    assume "\<exists>m. sd_received B1 = sd_received B @ [m]"
    then obtain m where m: "sd_received B1 = sd_received B @ [m]" ..
    let ?n = "length (sd_received B)"
    have pre: "sd_received B @ [m] = take (Suc ?n) (map (request_msg P) names)" using session_prefix(1) [OF S1] m T'(4) by simp
    then have "length (sd_received B @ [m]) = min (length names) (Suc ?n)" by (metis length_map length_take)
    then have n: "?n < length names" by simp
    have "m = (sd_received B @ [m]) ! ?n" by simp
    also have "\<dots> = request_msg P (names ! ?n)" unfolding pre using n by simp
    finally have m': "m = request_msg P (names ! ?n)" .
    have dec: "from_pb_request P (snd (last (sd_received B1))) = Some (login_request (names ! ?n))"
      using P m m' by (simp add: pb_ok_def request_msg_def)
    let ?s = "names ! ?n" and ?w = "out (Client_login (names ! ?n) ''123456'') w1"
    have S2: "session_ok inp peer B1 A ?w" by (rule session_sym [OF out_session [OF S1 out] peer_peer])
    have short: "length (to_pb_response P (login_answer ?s)) \<le> 1984" using P by (simp add: pb_ok_def)
    obtain B2 w2 where send: "sd_send os 1 (to_pb_response P (login_answer ?s)) B1 ?w = Some (B2, w2)" and S3: "session_ok inp peer B2 A w2"
      by (rule send_session [OF S2 may_send_short [OF short T'(2)]]) (use few B1(2) in auto)
    note G = written_grows [OF send]
    have take: "take (Suc ?n) names = take ?n names @ [?s]" using n by (rule take_Suc_conv_app_nth)
    have "subseq (sd_written B2) (map (answer_msg P) (take (length (sd_received B2)) names))"
    proof -
      have "subseq (sd_written B2) (map (answer_msg P) (take ?n names) @ [answer_msg P ?s])"
        using G B1(2) list_emb_append_mono [OF T'(5), of "if length (sd_written B) < length (sd_written B2) then [answer_msg P ?s] else []" "[answer_msg P ?s]"]
        unfolding answer_msg_def by simp
      then show ?thesis using G m take by simp
    qed
    then have "talk_ok P inp peer (A, B2, w2)" unfolding talk_ok_def prod.case using session_sym [OF S3 peer_peer] T'(2-4) G B1 by auto
    moreover have "sd_serve P out os now B w = Some (B2, w2)"
      using dec send m by (simp add: sd_serve_def poll login_request_def)
    ultimately show thesis by (rule that [rotated])
  qed
qed

lemma talk_hear:
  assumes T: "talk_ok P inp peer (A, B, w)" and out: "\<And>e t w. inp t (out e w) = inp t w" and P: "pb_ok P"
  obtains A' w' where "sd_hear P out os now A w = Some (A', w')" and "talk_ok P inp peer (A', B, w')"
proof -
  obtain names where T': "session_ok inp peer A B w" "2000 \<le> unat (TcpRecvBufMaxSize (sd_cf A))" "2000 \<le> unat (TcpRecvBufMaxSize (sd_cf B))"
    "sd_written A = map (request_msg P) names" "subseq (sd_written B) (map (answer_msg P) (take (length (sd_received B)) names))"
    using T by (auto simp: talk_ok_def)
  obtain A1 w1 where poll: "sd_poll os now True A w = Some (A1, w1)" and S: "session_ok inp peer A1 B w1"
    and A1: "sd_cf A1 = sd_cf A" "sd_written A1 = sd_written A"
    by (rule poll_session [OF T'(1), of now True])
  have ok: "talk_ok P inp peer (A1, B, v)" if "\<And>t. inp t v = inp t w1" for v
    unfolding talk_ok_def prod.case using out_session [OF S that] T' A1 by auto
  show thesis
  proof (cases "length (sd_received A) < length (sd_received A1) \<and> fst (last (sd_received A1)) = 1")
    case True
    then obtain m where m: "sd_received A1 = sd_received A @ [m]" using received_grows [OF poll] by auto
    then have "m \<in> set (sd_written B)" using session_prefix(2) [OF S] by (metis in_set_conv_decomp in_set_takeD)
    then have "m \<in> set (map (answer_msg P) (take (length (sd_received B)) names))" by (rule list_emb_set [OF T'(5)]) simp
    then obtain s where "m = answer_msg P s" by auto
    then have "from_pb_response P (snd (last (sd_received A1))) = Some (login_answer s)" using m P by (simp add: pb_ok_def answer_msg_def)
    moreover obtain r where r: "login_answer s = Response_Login r" by (simp add: login_answer_def)
    ultimately have "sd_hear P out os now A w = Some (A1, out (Answer (lp_error_code r) (lp_error_message r)) w1)"
      using True by (simp add: sd_hear_def poll)
    then show thesis by (rule that) (rule ok [OF out])
  next
    case False
    then show thesis using ok [of w1] poll by (intro that [of A1 w1]) (auto simp: sd_hear_def)
  qed
qed

lemma talk_step:
  assumes out: "\<And>e t w. inp t (out e w) = inp t w" and P: "pb_ok P" and T: "talk_ok P inp peer s" and step: "talk P out os inp peer s s'"
  shows "talk_ok P inp peer s'"
  using step
proof cases
  case (line s A w A' w' B)
  obtain A1 w1 where "sd_line P out os s A w = Some (A1, w1)" "talk_ok P inp peer (A1, B, w1)"
    by (rule talk_line [OF _ out line(3,4)]) (use T line(1) in simp)
  then show ?thesis using line by simp
next
  case (serve B now w B' w' A)
  obtain B1 w1 where "sd_serve P out os now B w = Some (B1, w1)" "talk_ok P inp peer (A, B1, w1)"
    by (rule talk_serve [OF _ out P serve(3)]) (use T serve(1) in simp)
  then show ?thesis using serve by simp
next
  case (hear now A w A' w' B)
  obtain A1 w1 where "sd_hear P out os now A w = Some (A1, w1)" "talk_ok P inp peer (A1, B, w1)"
    by (rule talk_hear [OF _ out P]) (use T hear(1) in simp)
  then show ?thesis using hear by simp
next
  case (close_A A B w reason e)
  then show ?thesis using T close_session [of inp peer A B w reason e] peer_neq by (auto simp: talk_ok_def)
next
  case (close_B A B w reason e)
  then show ?thesis using T session_sym [OF close_session [of inp peer B A w reason e] peer_peer] session_sym [of inp peer A B w] peer_peer peer_neq
    by (auto simp: talk_ok_def)
next
  case (net A B w w')
  then show ?thesis using T net_session [of inp peer A B w w'] by (auto simp: talk_ok_def)
next
  case (login A B fd w now A' B' w')
  have S: "session_ok inp peer A B w" using T login(1) by (simp add: talk_ok_def)
  have n: "fd \<noteq> INVALID_TCP_SOCKET" "peer fd \<noteq> INVALID_TCP_SOCKET" "inp fd w = []" "inp (peer fd) w = []" using login(5) by (simp_all add: new_sockets_def)
  from login_session [OF S login(3,4) n, of now] login(6)
  have "session_ok inp peer A' B' w'" "sd_cf A' = sd_cf A" "sd_cf B' = sd_cf B" "sd_written A' = sd_written A" "sd_written B' = sd_written B"
    "sd_received B' = sd_received B" by (metis option.inject prod.inject)+
  then show ?thesis using T login(1,2) by (auto simp: talk_ok_def)
qed

lemma talk_reach:
  assumes "\<And>e t w. inp t (out e w) = inp t w" and "pb_ok P" and "talk_ok P inp peer s" and "(talk P out os inp peer)\<^sup>*\<^sup>* s s'"
  shows "talk_ok P inp peer s'"
  using assms(4) by (induction rule: rtranclp_induct) (use assms(1-3) talk_step in blast)+

end

end
