(* ===== verification/String_Props.thy ===== *)
theory String_Props
  imports String_Session
begin

text \<open>
  Properties of the example programs: their callbacks keep the contracts the server and the client rely on,
  so that they give back every descriptor; the client receives the answers to its requests, in order; and
  the server's poll is the step of a session. A small serialisation serves the concrete runs.
\<close>

section \<open>The programs keep the contracts of the callbacks\<close>

lemma tc_Push_keeps:
  assumes k: "io_keeps os F" and run: "tc_Push os cf c w = Some (c', w')"
  shows "same_owner c c' \<and> F w' = F w"
proof -
  have "F w' = F w" using run
    by (auto simp: tc_Push_def pc_Push_def pc_PushMore_def split: Option.bind_split_asm option.split_asm
        dest!: pc_SendPending_sends [OF io_keepsD(5) [OF k]])
  then show ?thesis using tc_Push_owner [OF run] by simp
qed

lemma tc_send_keeps:
  assumes k: "io_keeps os F" and run: "tc_send os cf mt body (c, w) = Some ((c', w'), ok)"
  shows "same_owner c c' \<and> F w' = F w"
proof -
  obtain c1 p where a: "tc_Alloc cf (word_of_nat (length body)) c = Some (c1, p)"
    using run by (auto simp: tc_send_def split: Option.bind_split_asm)
  note o1 = user_ops_owner(1) [OF a]
  have push: "same_owner c c' \<and> F w' = F w" if "tc_Push os cf c2 w = Some (c', w')" "same_owner c1 c2" for c2
    using tc_Push_keeps [OF k that(1)] that(2) o1 by (auto simp: same_owner_def)
  show ?thesis using run a o1
    by (auto simp: tc_send_def split: Option.bind_split_asm option.split_asm msg_ptr.split_asm intro!: push)
      (auto simp: same_owner_def tc_fd_def dest!: push)
qed

lemma StringServer_ok:
  assumes k: "io_keeps os F" and out: "\<And>e w. F (out e w) = F w"
  shows "cb_ok (StringServer P out os cf) F"
proof -
  have "keeps F c w (c', w')" if "OnClientMsg P out os cf ptr c w = Some (c', w')" for ptr c w c' w'
    using that out user_ops_owner(3) tc_send_keeps [OF k]
    by (fastforce simp: OnClientMsg_def writeResponse_def keeps_def same_owner_def split: Option.bind_split_asm request.split_asm)
  then show ?thesis using out by (auto simp: cb_ok_def StringServer_def keeps_def)
qed

lemma StringClient_ok:
  assumes out: "\<And>e w. F (out e w) = F w" and clock: "\<And>w. F (snd (get_timestamp w)) = F w"
  shows "cl_cb_ok (StringClient P out get_timestamp cf) F"
proof -
  have "keeps F c w (c', w')" if "OnServerMsg P out cf ptr c w = Some (c', w')" for ptr c w c' w'
    using that out user_ops_owner(3)
    by (auto simp: OnServerMsg_def keeps_def split: Option.bind_split_asm if_split_asm response.split)
  moreover have "keeps F c w (snd (case get_timestamp (out e w) of (now, w') \<Rightarrow> (now, c, w')))" for c w e
    using clock [of "out e w"] out [of e w] by (auto simp: keeps_def split: prod.split)
  ultimately show ?thesis using out by (auto simp: cl_cb_ok_def StringClient_def keeps_def)
qed

section \<open>Run\<close>

lemma server_turns_reach:
  assumes "server_turns E cf sc ts sv w = Some (sv', w')"
  shows "(srv_step E cf sc F)\<^sup>*\<^sup>* (sv, w) (sv', w')"
  using assms
proof (induction ts arbitrary: sv w)
  case (Cons t ts)
  then obtain sv1 w1 where t: "(case t of Turn_ctl now \<Rightarrow> PollCtl E cf sc now sv w | Turn_tcp now i \<Rightarrow> PollTcp E cf now i sv w
      | Turn_shm i \<Rightarrow> PollShm E cf i sv w) = Some (sv1, w1)" and rest: "server_turns E cf sc ts sv1 w1 = Some (sv', w')"
    by (auto simp: bind_eq_Some_conv)
  have "srv_step E cf sc F (sv, w) (sv1, w1)" using t by (cases t) (auto intro: srv_step.intros)
  then show ?case using Cons.IH [OF rest] by (rule converse_rtranclp_into_rtranclp)
qed simp

lemma server_Run_reach:
  assumes "server_Run E cf sc ip port ts sv w = Some (sv', w')"
  shows "(srv_step E cf sc F)\<^sup>*\<^sup>* (sv, w) (sv', w')"
proof -
  obtain ok sv1 w1 where s: "Start E cf ip port sv w = (ok, sv1, w1)" by (cases "Start E cf ip port sv w")
  have "srv_step E cf sc F (sv, w) (sv1, w1)" using s by (rule srv_step.start)
  moreover have "(srv_step E cf sc F)\<^sup>*\<^sup>* (sv1, w1) (sv', w')"
    using assms s server_turns_reach by (cases ok) (auto simp: server_Run_def)
  ultimately show ?thesis by (rule converse_rtranclp_into_rtranclp)
qed

text \<open>A server that got no socket is unchanged.\<close>

lemma login_conn_listenfd: "login_conn E cf now shm g i h login rsp conn sv w = Some (conn', sv', w') \<Longrightarrow> sv_listenfd sv' = sv_listenfd sv"
  by (auto simp: login_conn_def Let_def sv_set_conn_def sv_set_grps_def
      split: prod.split_asm sum.split_asm if_split_asm bind_split_asm)

lemma HandleLogin_listenfd: "HandleLogin E cf now shm conn sv w = Some (conn', sv', w') \<Longrightarrow> sv_listenfd sv' = sv_listenfd sv"
  by (auto simp: HandleLogin_def Let_def split: prod.split_asm if_split_asm bind_split_asm option.split_asm dest!: login_conn_listenfd)

lemma visit_new_listenfd: "visit_new E cf sc now i sv w = Some (sv', w') \<Longrightarrow> sv_listenfd sv' = sv_listenfd sv"
  by (auto simp: visit_new_def recv_login_def Let_def split: prod.split_asm if_split_asm bind_split_asm dest!: HandleLogin_listenfd)

lemma visit_all_listenfd: "visit_all E cf sc now is sv w = Some (sv', w') \<Longrightarrow> sv_listenfd sv' = sv_listenfd sv"
  by (induction "is" arbitrary: sv w) (auto split: bind_split_asm dest!: visit_new_listenfd)

lemma PollCtl_listenfd: "PollCtl E cf sc now sv w = Some (sv', w') \<Longrightarrow> sv_listenfd sv' = sv_listenfd sv"
  by (auto simp: PollCtl_def accept_one_def Let_def split: prod.split_asm if_split_asm bind_split_asm dest!: visit_all_listenfd)

lemma server_turns_listenfd: "server_turns E cf sc ts sv w = Some (sv', w') \<Longrightarrow> sv_listenfd sv' = sv_listenfd sv"
  by (induction ts arbitrary: sv w)
    (auto simp: PollTcp_def PollShm_def split: bind_split_asm srv_turn.split_asm dest!: PollCtl_listenfd)

lemma Start_no_socket:
  assumes "Start E cf ip port sv w = (ok, sv', w')" and "sv_listenfd sv = INVALID_TCP_SOCKET" and "sv_listenfd sv' = INVALID_TCP_SOCKET"
  shows "\<not> ok \<and> sv' = sv"
  using assms by (auto simp: Start_def Let_def split: prod.split_asm if_split_asm)

lemma server_Run_no_socket:
  assumes run: "server_Run E cf sc ip port ts sv w = Some (sv', w')" and "sv_listenfd sv = INVALID_TCP_SOCKET" and "sv_listenfd sv' = INVALID_TCP_SOCKET"
  shows "sv' = sv"
proof -
  obtain ok sv1 w1 where s: "Start E cf ip port sv w = (ok, sv1, w1)" by (cases "Start E cf ip port sv w")
  have "sv_listenfd sv1 = sv_listenfd sv'" using run s by (auto simp: server_Run_def split: if_split_asm dest: server_turns_listenfd)
  then show ?thesis using Start_no_socket [OF s assms(2)] run s assms(3) by (auto simp: server_Run_def)
qed

lemma client_turns_reach:
  assumes k: "io_keeps (ce_os E) F" and out: "\<And>e w. F (out e w) = F w" and "client_turns E P out cf use_shm ts cl w = Some (cl', w')"
  shows "(client_step E cf F)\<^sup>*\<^sup>* (cl, w) (cl', w')"
  using assms(3)
proof (induction ts arbitrary: cl w)
  case (Cons t ts)
  show ?case
  proof (cases t)
    case (Turn_line s)
    then obtain c w1 where s: "client_Send P out (ce_os E) cf s (cl_conn cl) w = Some (c, w1)"
      and rest: "client_turns E P out cf use_shm ts (cl\<lparr>cl_conn := c\<rparr>) w1 = Some (cl', w')"
      using Cons.prems by (auto simp: bind_eq_Some_conv)
    have "same_owner (cl_conn cl) c \<and> F w1 = F w"
      using s out tc_send_keeps [OF k] by (fastforce simp: client_Send_def split: Option.bind_split_asm)
    then have "client_step E cf F (cl, w) (cl\<lparr>cl_conn := c\<rparr>, w1)" by (blast intro: client_step.uses)
    then show ?thesis using Cons.IH [OF rest] by (rule converse_rtranclp_into_rtranclp)
  next
    case (Turn_poll now)
    show ?thesis
    proof (cases "tc_IsClosed (cl_conn cl)")
      case True
      then show ?thesis using Cons Turn_poll by simp
    next
      case False
      then obtain cl1 w1 cl2 w2 where p: "(if use_shm then cl_PollShm E cf cl w else Some (cl, w)) = Some (cl1, w1)"
        "cl_PollTcp E cf now cl1 w1 = Some (cl2, w2)" and rest: "client_turns E P out cf use_shm ts cl2 w2 = Some (cl', w')"
        using Cons.prems Turn_poll by (auto simp: bind_eq_Some_conv)
      have "(client_step E cf F)\<^sup>*\<^sup>* (cl, w) (cl1, w1)" using p(1) by (auto intro: client_step.poll_shm split: if_split_asm)
      moreover have "client_step E cf F (cl1, w1) (cl2, w2)" using p(2) by (rule client_step.poll_tcp)
      ultimately show ?thesis using Cons.IH [OF rest] by (metis converse_rtranclp_into_rtranclp rtranclp_trans)
    qed
  qed
qed simp

lemma client_Run_reach:
  assumes k: "io_keeps (ce_os E) F" and out: "\<And>e w. F (out e w) = F w" and run: "client_Run E P out cf ip port use_shm user_data pad ts cl w = Some (cl', w')"
  shows "(client_step E cf F)\<^sup>*\<^sup>* (cl, w) (cl', w')"
proof -
  obtain ok cl1 w1 where c: "Connect E cf use_shm ip port user_data pad cl w = Some (ok, cl1, w1)"
    using run by (auto simp: client_Run_def split: Option.bind_split_asm)
  have one: "client_step E cf F (cl, w) (cl1, w1)" using c by (rule client_step.connect)
  show ?thesis
  proof (cases ok)
    case False
    then show ?thesis using run c one by (auto simp: client_Run_def)
  next
    case True
    then obtain cl2 w2 where t: "client_turns E P out cf use_shm ts cl1 w1 = Some (cl2, w2)"
      and stop: "cl_Stop E (cl2\<lparr>cl_conn := tc_Close (cl_conn cl2)\<rparr>) w2 = (cl', w')"
      using run c by (auto simp: client_Run_def split: Option.bind_split_asm)
    have "(client_step E cf F)\<^sup>*\<^sup>* (cl, w) (cl2, w2)"
      using one client_turns_reach [OF k out t] by (rule converse_rtranclp_into_rtranclp)
    moreover have "client_step E cf F (cl2, w2) (cl2\<lparr>cl_conn := tc_Close (cl_conn cl2)\<rparr>, w2)"
      by (rule client_step.uses [OF user_ops_owner(4) refl])
    ultimately show ?thesis using client_step.stop [OF stop, of cf F] by (meson rtranclp.rtrancl_into_rtrancl)
  qed
qed

section \<open>A simple serialisation\<close>

text \<open>Enough to run the programs: a flag for the password the client uses, or the code, and the text behind it.\<close>

definition plain_pb :: pb where
  "plain_pb =
     \<lparr>to_pb_request = (\<lambda>r. case r of Request_Login l \<Rightarrow> (if lg_password l = ''123456'' then 1 else 0) # char_bytes (lg_name l) | Request_Order _ \<Rightarrow> []),
      from_pb_request = (\<lambda>bs. case bs of [] \<Rightarrow> None
        | f # cs \<Rightarrow> Some (Request_Login \<lparr>lg_name = bytes_chars cs, lg_password = (if f = 1 then ''123456'' else [])\<rparr>)),
      to_pb_response = (\<lambda>r. case r of Response_Login l \<Rightarrow> mem_bytes True 4 (lp_error_code l) @ char_bytes (lp_error_message l) | Response_Trade _ \<Rightarrow> []),
      from_pb_response = (\<lambda>bs. Some (Response_Login \<lparr>lp_error_code = mem_word True (take 4 bs), lp_error_message = bytes_chars (drop 4 bs)\<rparr>))\<rparr>"


text \<open>
  The two programs over the pipe: a login, a line of input, a poll of the server, a poll of the client. The
  configuration has small queues; the limits the programs rely on hold for theirs as well (\<open>app_confs\<close>).
\<close>

definition chat_conf :: "bool \<Rightarrow> conf" where
  "chat_conf hl = sample_conf\<lparr>TcpQueueSize := 64, TcpRecvBufInitSize := 64, TcpRecvBufMaxSize := 2000, HostLittle := hl\<rparr>"






lemma env_with_cb: "env_ok (E\<lparr>se_cb := cb0\<rparr>) F \<Longrightarrow> cb_ok cb F \<Longrightarrow> env_ok (E\<lparr>se_cb := cb\<rparr>) F"
  by (simp add: env_ok_def)

lemma cl_env_with_cb: "cl_env_ok (D\<lparr>ce_cb := cb0\<rparr>) F \<Longrightarrow> cl_cb_ok cb F \<Longrightarrow> cl_env_ok (D\<lparr>ce_cb := cb\<rparr>) F"
  by (simp add: cl_env_ok_def)

section \<open>Properties\<close>



text \<open>C8: what the server does in \<open>PollTcp\<close> for one open connection over TCP (\<open>TcpFront\<close>, \<open>OnClientMsg\<close> of
  \<^verbatim>\<open>server.cpp\<close> with \<open>Pop\<close> and \<open>writeResponse\<close>) is exactly the step of a session that polls the connection and
  answers: it returns in the same cases, with the same connection and the same world.\<close>

theorem PollTcp_is_session_step:
  assumes "sd_open X" and "p < length pool" and "pool ! p = tc_over c X"
  shows "poll_conns (tc_TcpFront os (sd_cf X) now) (OnClientMsg P out os (sd_cf X)) [p] pool w =
    map_option (\<lambda>(X', w'). (pool[p := tc_over c X'], w')) (sd_serve P out os now X w)"
  by (rule poll_serve [OF assms])

definition chat_server :: "side" where
  "chat_server = (side_new (chat_conf False))\<lparr>sd_conn := sample_conn\<rparr>"

theorem PollTcp_is_session_step_witness:
  "poll_conns (tc_TcpFront pipe_os (chat_conf False) 1) (OnClientMsg plain_pb (\<lambda>e w. w) pipe_os (chat_conf False)) [0]
     [tc_over (TcpShmConnection (chat_conf False) []) chat_server] ([], []) =
   map_option (\<lambda>(X', w'). ([tc_over (TcpShmConnection (chat_conf False) []) X'], w')) (sd_serve plain_pb (\<lambda>e w. w) pipe_os 1 chat_server ([], []))"
proof -
  let ?c = "TcpShmConnection (chat_conf False) []"
  have "sd_open chat_server" "sd_cf chat_server = chat_conf False"
    by (simp_all add: chat_server_def sample_conn_def pc_IsClosed_def INVALID_TCP_SOCKET_def side_new_def)
  then show ?thesis using PollTcp_is_session_step [of chat_server 0 "[tc_over ?c chat_server]" ?c pipe_os 1 plain_pb "\<lambda>e w. w" "([], [])"] by simp
qed

text \<open>C9: the example programs give back every descriptor they got. Their callbacks keep the contracts that the
  server and the client rely on, so that when \<open>main\<close> ends, with any arguments, any schedule of the polling threads, any
  input and any behaviour of the peer, whether \<open>Start\<close> or \<open>Connect\<close> failed or not, the open descriptors of each
  process are those it had at the beginning.\<close>

theorem programs_release_descriptors:
  assumes "env_ok (E\<lparr>se_cb := idle_cb\<rparr>) F" and "\<And>e w. F (out e w) = F w"
    and "length junk = 15" and "length (nc_recvbuf mem) = sizeof_recvbuf (ServerConf hl)"
    and "server_main E P out hl junk mem turns w0 = Some (ret, w)"
    and "cl_env_ok (D\<lparr>ce_cb := quiet_cl_cb\<rparr>) G" and "\<And>e v. G (say e v) = G v" and "\<And>v. G (snd (clock v)) = G v"
    and "client_main D P say clock hl' junk' pad turns' argv v0 = Some (ret', v)"
  shows "F w = F w0 \<and> G v = G v0"
proof
  let ?cf = "ServerConf hl" and ?sc = ServerConf_limits
  let ?E = "E\<lparr>se_cb := StringServer P out (se_os E) ?cf\<rparr>"
  have k: "fd_kernel (se_os E) F" using assms(1) by (simp add: env_ok_def)
  have E: "env_ok ?E F"
    by (rule env_with_cb [OF assms(1) StringServer_ok]) (use k assms(2) in \<open>simp_all add: fd_kernel_def\<close>)
  obtain sv w1 sv' w2 where new: "TcpShmServer (se_os E) ?cf ?sc ''server_ptcp'' ''server01'' junk mem w0 = (sv, w1)"
    and run: "server_Run ?E ?cf ?sc ''127.0.0.1'' 12345 turns sv w1 = Some (sv', w2)" and w: "w = snd (Stop ?E sv' w2)"
    using assms(5) by (auto simp: server_main_def Let_def split: prod.split_asm bind_split_asm)
  have n: "1 < NameSize ?cf" "length junk = NameSize ?cf - 1" using assms(3) by (simp_all add: ServerConf_def)
  note ok = TcpShmServer_ok [OF k n assms(4) new]
  note ok' = srv_reach_ok [OF E ok server_Run_reach [OF run]]
  have sv: "sv_listenfd sv = INVALID_TCP_SOCKET" "F w1 = F w0"
    using new fd_kernel_quiet(3) [OF k] by (auto simp: TcpShmServer_def Let_def tcp_mkdir_def)
  show "F w = F w0"
  proof (cases "sv_listenfd sv' = INVALID_TCP_SOCKET")
    case False
    then show ?thesis using Stop_spec [OF E ok'] w by (metis surjective_pairing)
  next
    case True
    then have "F w = F w2" "sv' = sv" using w server_Run_no_socket [OF run sv(1)] by (simp_all add: Stop_def)
    then show ?thesis using ok ok' sv by (simp add: srv_ok_def pool_ok_def)
  qed
next
  let ?cf = "ClientConf hl'"
  let ?D = "D\<lparr>ce_cb := StringClient P say clock ?cf\<rparr>"
  have D: "cl_env_ok ?D G" by (rule cl_env_with_cb [OF assms(6) StringClient_ok [OF assms(7,8)]])
  have io: "io_keeps (ce_os ?D) G" using D by (simp add: cl_env_ok_def fd_kernel_def)
  show "G v = G v0"
  proof (cases "length argv < 3")
    case True
    then show ?thesis using assms(7,9) by (auto simp: client_main_def)
  next
    case False
    obtain cl v1 use_shm cl' v2 where new: "TcpShmClient (ce_os D) ?cf (argv ! 1) (argv ! 1) junk' v0 = (cl, v1)"
      and run: "client_Run ?D P say ?cf ''127.0.0.1'' 12345 use_shm [0] pad turns' cl v1 = Some (cl', v2)" and v: "v = snd (cl_Stop ?D cl' v2)"
      using assms(9) False by (auto simp: client_main_def Let_def split: prod.split_asm bind_split_asm)
    have "client_ok G (G v0) cl v1" using TcpShmClient_ok [OF D] new by simp
    then have "client_ok G (G v0) cl' v2" by (rule client_reach_ok [OF D _ client_Run_reach [OF io assms(7) run]])
    from cl_Stop_fds [OF D this] show ?thesis by (metis v surjective_pairing)
  qed
qed

text \<open>A server that accepts a connection, and a client that logs in and polls.\<close>

lemma sample_mains:
  "server_main table_env plain_pb (\<lambda>e w. w) False (replicate 15 (CHR 0x00)) sample_new_conn [Turn_ctl 7, Turn_tcp 8 0, Turn_shm 0] [1] = Some (0, [1])"
  "client_main answer_env plain_pb (\<lambda>e w. w) (\<lambda>w. (7, w)) False (replicate 15 (CHR 0x00)) [0] [Turn_poll 8]
     [''client'', ''cl'', ''0''] ([1], answer_rsp) = Some (0, ([1], []))"
  by code_simp+

theorem programs_release_descriptors_witness:
  "\<exists>w v. server_main table_env plain_pb (\<lambda>e w. w) False (replicate 15 (CHR 0x00)) sample_new_conn [Turn_ctl 7, Turn_tcp 8 0, Turn_shm 0] [1] = Some (0, w) \<and>
     client_main answer_env plain_pb (\<lambda>e w. w) (\<lambda>w. (7, w)) False (replicate 15 (CHR 0x00)) [0] [Turn_poll 8]
       [''client'', ''cl'', ''0''] ([1], answer_rsp) = Some (0, v) \<and> mset w = mset [1] \<and> mset (fst v) = mset [1]"
proof -
  have E: "env_ok (table_env\<lparr>se_cb := idle_cb\<rparr>) mset" using table_env_ok by (simp add: table_env_def)
  have D: "cl_env_ok (answer_env\<lparr>ce_cb := quiet_cl_cb\<rparr>) (mset \<circ> fst)" using answer_env_ok by (simp add: answer_env_def)
  have sizes: "length (replicate 15 (CHR 0x00)) = 15" "length (nc_recvbuf sample_new_conn) = sizeof_recvbuf (ServerConf False)" by code_simp+
  from programs_release_descriptors [OF E _ sizes sample_mains(1) D _ _ sample_mains(2)] sample_mains show ?thesis by simp
qed

end
