(* ===== verification/Login_Handshake.thy ===== *)
theory Login_Handshake
  imports Delivery String_Props
begin

text \<open>
  A login over TCP with the code of both parties, from the client's \<open>Connect\<close> to the two open connections, and that it
  resumes the session between them.
\<close>

section \<open>The messages\<close>

text \<open>A name as both classes keep it: an array of \<open>NameSize\<close> characters that holds a C string, not empty.\<close>

definition name_ok :: "nat \<Rightarrow> string \<Rightarrow> bool" where
  "name_ok n s \<longleftrightarrow> client_name_ok n s \<and> s ! (n - 1) = CHR 0x00"

definition name_sent :: "nat \<Rightarrow> string \<Rightarrow> string" where
  "name_sent n s = strncpy (replicate n (CHR 0x00)) s n"

lemma name_sent:
  assumes "name_ok n s"
  shows "length (name_sent n s) = n" and "cstr (name_sent n s) = cstr s" and "name_sent n s ! 0 \<noteq> CHR 0x00"
    and "(name_sent n s)[n - 1 := CHR 0x00] = name_sent n s"
proof -
  have nm: "client_name_ok n s" "length s = n" "0 < n" using assms by (simp_all add: name_ok_def client_name_ok_def)
  show len: "length (name_sent n s) = n" and "cstr (name_sent n s) = cstr s" and "name_sent n s ! 0 \<noteq> CHR 0x00"
    using strncpy_name [OF nm(1), of "replicate n (CHR 0x00)"] by (simp_all add: name_sent_def)
  have "length (cstr s) \<noteq> n"
  proof
    assume "length (cstr s) = n"
    then have "cstr s = s" using nm(2) by (metis cstr_def takeWhile_eq_take take_all_iff order_refl)
    then have "\<forall>ch \<in> set s. ch \<noteq> CHR 0x00" by (auto simp: cstr_def dest: set_takeWhileD)
    moreover have "s ! (n - 1) \<in> set s" using nm by simp
    ultimately show False using assms by (auto simp: name_ok_def)
  qed
  then have short: "length (cstr s) < n" using length_cstr_le [of s] nm(2) by simp
  then have "\<not> n - Suc 0 < length (cstr s)" by linarith
  then have "name_sent n s ! (n - 1) = CHR 0x00" using short by (simp add: name_sent_def strncpy_def nth_append)
  then show "(name_sent n s)[n - 1 := CHR 0x00] = name_sent n s" using nm len by (simp add: list_update_same_conv)
qed

text \<open>What \<open>HandleLogin\<close> reads from the buffer after the message was converted in place.\<close>

lemma store_login_load:
  assumes "wf_login cf m"
  shows "hdr_of_bytes hl (take 8 (store_login hl h m buf)) = h" and "login_of_bytes cf hl (drop 8 (store_login hl h m buf)) = m"
  using login_of_bytes_bytes [OF assms] by (simp_all add: store_login_def Let_def)

section \<open>Connect in two parts\<close>

text \<open>
  \<open>Connect\<close> up to the login message it has sent: \<open>Inl\<close> is a result of \<open>Connect\<close>, \<open>Inr\<close> what it waits for the response with (the
  descriptor, header and message sent, the last server's name, the client).
\<close>

definition Connect_send :: "'w cl_env \<Rightarrow> conf \<Rightarrow> bool \<Rightarrow> string \<Rightarrow> u16 \<Rightarrow> u8 list \<Rightarrow> u8 list \<Rightarrow> client \<Rightarrow> 'w \<Rightarrow>
    ((bool \<times> client + int \<times> msg_header \<times> login_msg \<times> string \<times> client) \<times> 'w) option" where
  "Connect_send E cf use_shm server_ipv4 server_port user_data pad cl0 w0 =
     (if \<not> tc_IsClosed (cl_conn cl0) then Some (Inl (False, cl0), cl_error E ''already connected'' 0 w0)
      else let (_, c, w1) = tc_TryCloseFd (ce_os E) (cl_conn cl0) w0;
               (mapped, cl2, w2) = map_last_server E cf (cl0\<lparr>cl_conn := c\<rparr>) w1
           in if \<not> mapped then Some (Inl (False, cl2), w2)
              else do {
                name \<leftarrow> cl_server_name cl2;
                (r, c3, w3) \<leftarrow> login_with_seqs E cf use_shm (login_msg_init cf use_shm user_data (cl_client_name cl2) name) name
                                 (cl_conn cl2) w2;
                let cl3 = cl2\<lparr>cl_conn := c3\<rparr>;
                (case r of
                   Inr (msg, e) \<Rightarrow> Some (Inl (False, cl3), cl_error E msg e w3)
                 | Inl (h, login) \<Rightarrow>
                     (case connect_socket E cf server_ipv4 server_port w3 of
                        (None, w4) \<Rightarrow> Some (Inl (False, cl3), w4)
                      | (Some fd, w4) \<Rightarrow>
                          (case tcp_send_all (ce_os E) fd (login_buf cf h login pad) w4 of (ok, err, w5) \<Rightarrow>
                             if \<not> ok then Some (Inl (False, cl3), snd (tcp_close (ce_os E) fd (cl_error E ''send'' (err_of err) w5)))
                             else Some (Inr (fd, h, login, name, cl3), w5))))
              })"

text \<open>The rest: receive the response, judge it, open the connection.\<close>

definition Connect_recv :: "'w cl_env \<Rightarrow> conf \<Rightarrow> bool \<Rightarrow> int \<Rightarrow> msg_header \<Rightarrow> login_msg \<Rightarrow> string \<Rightarrow> client \<Rightarrow> 'w \<Rightarrow> (bool \<times> client \<times> 'w) option" where
  "Connect_recv E cf use_shm fd h login name cl w =
     (let os = ce_os E; fail = (\<lambda>v. Some (False, cl, snd (tcp_close os fd v)))
      in do {
        (r, w2) \<leftarrow> RecvLoginRsp os (ce_probe E) cf fd w;
        (case r of
           Inr (msg, e) \<Rightarrow> fail (cl_error E msg e w2)
         | Inl (rh, rsp) \<Rightarrow>
             if unat (hdr_size rh) \<noteq> 8 + sizeof_LoginRspMsg cf \<or> hdr_msg_type rh \<noteq> LoginRspMsg_msg_type \<or>
                lr_server_name rsp ! 0 = CHR 0x00
             then fail (cl_error E ''Invalid LoginRsp'' 0 w2)
             else if lr_status rsp \<noteq> 0
             then fail (if lr_status rsp = 1
                        then cl_OnSeqNumberMismatch (ce_cb E) [hdr_ack_seq h, lm_client_seq_start login, lm_client_seq_end login,
                               hdr_ack_seq rh, lr_server_seq_start rsp, lr_server_seq_end rsp] w2
                        else cl_OnLoginReject (ce_cb E) rsp w2)
             else logged_on E cf use_shm (name ! 0 \<noteq> CHR 0x00 \<and> \<not> use_shm) fd rh rsp name cl w2)
      })"

lemma Connect_split:
  "Connect E cf use_shm ip port ud pad cl w =
     Option.bind (Connect_send E cf use_shm ip port ud pad cl w)
       (\<lambda>(r, w'). case r of Inl (ok, cl') \<Rightarrow> Some (ok, cl', w')
                  | Inr (fd, h, login, name, cl') \<Rightarrow> Connect_recv E cf use_shm fd h login name cl' w')"
  unfolding Connect_def Connect_send_def Connect_recv_def exchange_login_def Let_def
  by (auto split: prod.split sum.split option.split Option.bind_split)

text \<open>The login message of a client that knows the server, with the numbers of its queue.\<close>

definition login_sent :: "conf \<Rightarrow> u8 list \<Rightarrow> string \<Rightarrow> string \<Rightarrow> ptcp_queue \<Rightarrow> u32 \<Rightarrow> login_msg" where
  "login_sent cf user_data client_name server_name q e =
     (login_msg_init cf False user_data client_name server_name)\<lparr>lm_client_seq_start := pq_read_seq_num q, lm_client_seq_end := e\<rparr>"

text \<open>The response to an accepted login: the server's name and the numbers of its queue.\<close>

definition login_reply :: "conf \<Rightarrow> string \<Rightarrow> ptcp_queue \<Rightarrow> u32 \<Rightarrow> login_rsp" where
  "login_reply cf server_name q e =
     (login_rsp_init cf server_name)\<lparr>lr_server_seq_start := pq_read_seq_num q, lr_server_seq_end := e, lr_status := 0\<rparr>"

definition reply_bytes :: "conf \<Rightarrow> string \<Rightarrow> ptcp_queue \<Rightarrow> u32 \<Rightarrow> u8 list" where
  "reply_bytes cf server_name q e = rsp_buf cf ((login_hdr cf)\<lparr>hdr_ack_seq := pq_ack_seq_num q\<rparr>) (login_reply cf server_name q e)
     (replicate (body_buf_size (sizeof_LoginRspMsg cf) - (41 + LoginRspUserDataSize cf + NameSize cf)) 0)"

text \<open>
  A server that waits for the login of client \<open>cname\<close> on socket \<open>fd\<close>, accepted into slot \<open>i\<close>: the search in group \<open>g\<close>
  finds connection \<open>p\<close> of the pool, which is not live, and whose TCP connection is \<open>c\<close>.
\<close>

definition login_slot :: "conf \<Rightarrow> nat \<Rightarrow> string \<Rightarrow> nat \<Rightarrow> int \<Rightarrow> nat \<Rightarrow> ptcp_conn \<Rightarrow> server \<Rightarrow> bool" where
  "login_slot cf g cname i fd p c sv \<longleftrightarrow>
     i < length (sv_new_conns sv) \<and> nc_fd (sv_new_conns sv ! i) = fd \<and>
     length (nc_recvbuf (sv_new_conns sv ! i)) = 8 + body_buf_size (sizeof_LoginMsg cf) \<and> g < length (sv_tcp_grps sv) \<and>
     (case find_conn (NameSize cf) cname (cg_conns (sv_tcp_grps sv ! g)) 0 (sv_conn_pool sv) of
        (None, _) \<Rightarrow> False
      | (Some j, pool) \<Rightarrow> cg_live_cnt (sv_tcp_grps sv ! g) \<le> j \<and> p = cg_conns (sv_tcp_grps sv ! g) ! j \<and> p < length pool \<and>
          tc_sendq (pool ! p) = None \<and> tc_ptcp_conn (pool ! p) = c)"

text \<open>\<open>Open\<close> does not look at the descriptor of the last connection, whether it has been closed or not.\<close>

lemma pc_Open_last_fd: "pc_Open os cf fd ack now (c\<lparr>pc_fd_to_close := u\<rparr>) w = pc_Open os cf fd ack now c w"
  by (simp add: pc_Open_def)

lemma login_sent:
  assumes "name_ok (NameSize cf) cname" and "name_ok (NameSize cf) sname" and "length ud = LoginUserDataSize cf"
  shows "wf_login cf (login_sent cf ud cname sname q e)" and "lm_use_shm (login_sent cf ud cname sname q e) = 0"
    and "lm_client_name (login_sent cf ud cname sname q e) = name_sent (NameSize cf) cname"
    and "cstr (lm_last_server_name (login_sent cf ud cname sname q e)) = cstr sname"
    and "length (lm_last_server_name (login_sent cf ud cname sname q e)) = NameSize cf"
  using name_sent(1,2) [OF assms(2)] assms(3) by (simp_all add: login_sent_def login_msg_init_def wf_login_def name_sent_def)

text \<open>
  A client that can log in again: its connection is that of side \<open>A\<close> of a session, up to the descriptor of the last
  socket, and it knows the server \<open>sname\<close> from its last login.
\<close>

definition client_for :: "conf \<Rightarrow> side \<Rightarrow> string \<Rightarrow> client \<Rightarrow> bool" where
  "client_for cf A sname cl \<longleftrightarrow>
     tc_ptcp_conn (cl_conn cl) = (sd_conn A)\<lparr>pc_fd_to_close := tc_fd (cl_conn cl)\<rparr> \<and> tc_sendq (cl_conn cl) = None \<and>
     name_ok (NameSize cf) (cl_client_name cl) \<and>
     (\<exists>name. cl_server_name cl = Some name \<and> name_ok (NameSize cf) name \<and> cstr name = cstr sname)"

section \<open>Both parties\<close>

text \<open>
  The two programs: the client's and the server's environment over one kernel, their configurations, and the group \<open>g\<close> the
  server's callback puts the client into. The callbacks of a login leave the connection and the streams alone, setting a socket
  to non-blocking does too, and the login message, which the server reads with one \<open>recv\<close>, arrives in one piece.
\<close>

locale login_parties = delivering os inp peer fd
  for os :: "'w os" and inp :: "int \<Rightarrow> 'w \<Rightarrow> u8 list" and peer :: "int \<Rightarrow> int" and fd :: int +
  fixes EC :: "'w cl_env" and ES :: "'w srv_env" and cfC cfS :: conf and g :: nat
  assumes kernel: "ce_os EC = os" "se_os ES = os"
    and sockets: "fd \<noteq> INVALID_TCP_SOCKET" "peer fd \<noteq> INVALID_TCP_SOCKET"
    and protocol: "same_protocol cfC cfS" "8 + sizeof_LoginMsg cfC < 65536" "8 + sizeof_LoginRspMsg cfC < 65536"
    and nonblocking: "inp t (snd (sys_setfl os s x w)) = inp t w"
    and one_piece: "0 < n \<Longrightarrow> n \<le> length (inp (peer fd) w) \<Longrightarrow> fst (fst (sys_recv os (peer fd) n w)) = int n"
    and OnLoginSuccess: "\<exists>now v'. cl_OnLoginSuccess (ce_cb EC) rsp c v = (now, c, v') \<and> (\<forall>t. inp t v' = inp t v)"
    and OnNewConnection: "\<exists>v'. srv_OnNewConnection (se_cb ES) addr login rsp v = (int g, rsp, v') \<and> (\<forall>t. inp t v' = inp t v)"
    and OnClientLogon: "\<exists>v'. srv_OnClientLogon (se_cb ES) addr c v = (c, v') \<and> (\<forall>t. inp t v' = inp t v)"
begin

lemma sizes: "sizeof_LoginMsg cfS = sizeof_LoginMsg cfC" "sizeof_LoginRspMsg cfS = sizeof_LoginRspMsg cfC" "NameSize cfS = NameSize cfC"
  "ToLittleEndian cfS = ToLittleEndian cfC"
  using protocol(1) by (simp_all add: same_protocol_def sizeof_LoginMsg_def sizeof_LoginRspMsg_def)

lemma nb: "inp t (snd (tcp_set_nonblocking os s w)) = inp t w"
  using nonblocking by (simp add: tcp_set_nonblocking_def split: prod.split)

text \<open>The server's single \<open>recv\<close>.\<close>

lemma recv_one:
  assumes "inp (peer fd) w = data" and "length data = n" and "0 < n" and "length buf = n"
  obtains w' where "tcp_recv os (peer fd) 0 n buf w = Some (int n, data, w')"
    and "\<And>t. inp t w' = (if t = peer fd then [] else inp t w)"
proof -
  obtain ret d w' where step: "sys_recv os (peer fd) n w = ((ret, d), w')" by (metis surj_pair)
  have ret: "ret = int n" using one_piece [of n w] assms step by simp
  then have "length d = n" using recv_okD(1) [OF recv(1) _ step] assms(3) by simp
  moreover have i: "inp t w = (if t = peer fd then d else []) @ inp t w'" for t using recv_inp [OF step, of t] ret assms(3) by simp
  ultimately have "d @ inp (peer fd) w' = data" "length d = length data" using i [of "peer fd"] assms(1,2) by simp_all
  then have "d = data" "inp (peer fd) w' = []" by auto
  then show ?thesis using that step ret assms i by (simp add: tcp_recv_def memcpy_def)
qed

lemma client_receives:
  assumes rsp: "wf_rsp cfS rsp" and hdr: "hdr_size h = word_of_nat (8 + sizeof_LoginRspMsg cfS)" "hdr_msg_type h = LoginRspMsg_msg_type"
    and pad: "length pad = body_buf_size (sizeof_LoginRspMsg cfS) - (41 + LoginRspUserDataSize cfS + NameSize cfS)"
    and inp: "inp fd w = rsp_buf cfS h rsp pad @ rest"
  obtains w' where "RecvLoginRsp os P cfC fd w = Some (Inl (h, rsp), w')" and "\<And>t. inp t w' = (if t = fd then rest else inp t w)"
proof -
  define R where "R = rsp_buf cfS h rsp pad"
  let ?n = "body_buf_size (sizeof_LoginRspMsg cfC)"
  have len: "length R = 8 + ?n" using length_rsp_buf [OF rsp pad] by (simp add: R_def sizes)
  have load: "load_hdr cfC R = h" "load_rsp cfC R = rsp" using rsp_buf_load [OF protocol(1) rsp] by (simp_all add: R_def)
  have "inp fd w = take 8 R @ drop 8 R @ rest" using inp by (simp add: R_def)
  moreover have "length (take 8 R) = 8" using len by simp
  ultimately obtain err w1 where 1: "tcp_recv_all os fd 8 (replicate 8 0) w = Some (True, err, take 8 R, w1)"
    and i1: "\<And>t. inp t w1 = (if t = fd then drop 8 R @ rest else inp t w)"
    using recv_all_gets [where s = fd, OF disjI1 [OF refl]] by metis
  have "inp fd w1 = drop 8 R @ rest" using i1 by simp
  moreover have "length (drop 8 R) = ?n" using len by simp
  ultimately obtain err2 w2 where 2: "tcp_recv_all os fd ?n (replicate ?n 0) w1 = Some (True, err2, drop 8 R, w2)"
    and i2: "\<And>t. inp t w2 = (if t = fd then rest else inp t w1)"
    using recv_all_gets [where s = fd, OF disjI1 [OF refl]] by metis
  have "load_hdr cfC (take 8 R) = h" using load(1) by (simp add: load_hdr_def)
  moreover have "unat (hdr_size h) = 8 + sizeof_LoginRspMsg cfC"
    using hdr(1) protocol(3) by (simp add: sizes unat_of_nat_exact del: of_nat_add)
  moreover have "lr_ConvertByteOrder (ToLittleEndian cfC) (HostLittle cfC) (rsp_of_bytes cfC (HostLittle cfC) (drop 8 R)) = rsp"
    using load(2) by (simp add: load_rsp_def)
  ultimately have "RecvLoginRsp os P cfC fd w = Some (Inl (h, rsp), w2)"
    using 1 2 hdr(2) by (simp add: RecvLoginRsp_def RecvHeader_def LoginRspMsg_msg_type_def ShmProbeReqMsg_msg_type_def)
  then show ?thesis using that i1 i2 by simp
qed

text \<open>The server accepts: it sends the response, then opens the connection.\<close>

lemma login_conn_accepts:
  assumes tcp: "lm_use_shm login = 0" and name: "strneq (lm_last_server_name login) (sv_server_name sv) (NameSize cfS)"
    and p: "p = cg_conns (sv_tcp_grps sv ! g) ! j" "p < length (sv_conn_pool sv)" "nc_fd conn = peer fd"
    and q: "tc_sendq (sv_conn_pool sv ! p) = None" "tc_ptcp_conn (sv_conn_pool sv ! p) = c" "pc_q c = Some q"
      "ptcp_rel (TcpQueueSize cfS) (ToLittleEndian cfS) (HostLittle cfS) q ms" "acks_ok (ToLittleEndian cfS) (HostLittle cfS) q ms"
    and e: "e = pq_read_seq_num q + word_of_nat (length ms)"
    and chk: "CheckAckInQueue (hdr_ack_seq h) (pq_read_seq_num q) e"
      "CheckAckInQueue (pq_ack_seq_num q) (lm_client_seq_start login) (lm_client_seq_end login)"
  obtains wa where "\<And>t. inp t wa = (if t = fd then inp t w @ reply_bytes cfS name q e else inp t w)"
    and "\<And>c' wb. pc_Open os cfS (peer fd) (hdr_ack_seq h) now c wa = Some (c', wb) \<Longrightarrow>
      \<exists>sv' w'. login_conn ES cfS now False g j h login (login_rsp_init cfS name) conn sv w = Some (conn\<lparr>nc_fd := INVALID_TCP_SOCKET\<rparr>, sv', w') \<and>
        tc_ptcp_conn (sv_conn_pool sv' ! p) = c' \<and> (\<forall>t. inp t w' = inp t wb)"
proof -
  let ?R = "reply_bytes cfS name q e"
  obtain err w1 where sent: "tcp_send_all os (peer fd) ?R w = (True, err, w1)" "\<And>t. inp t w1 = (if t = fd then inp t w @ ?R else inp t w)"
    using send_all_arrives [of "peer fd" ?R w] peer_peer by metis
  have pp: "p = cg_conns (sv_grps False sv ! g) ! j" using p(1) by (simp add: sv_grps_def)
  define wa where "wa = snd (tcp_set_nonblocking os (peer fd) w1)"
  have wa: "inp t wa = inp t w1" for t by (simp add: wa_def nb)
  have q': "pc_q (tc_ptcp_conn (sv_conn_pool sv ! p)) = Some q" using q by simp
  have run: "login_conn ES cfS now False g j h login (login_rsp_init cfS name) conn sv w =
      login_accepted ES cfS now False g j conn p (hdr_ack_seq h) sv w1"
    unfolding login_conn_tcp [OF tcp name pp q(1) q' q(4,5) e refl refl] using chk sent(1) p(3)
    by (simp add: kernel SendLoginRsp_def reply_bytes_def login_reply_def)
  show ?thesis
  proof (rule that)
    show "inp t wa = (if t = fd then inp t w @ ?R else inp t w)" for t using wa sent by simp
    show "\<exists>sv' w'. login_conn ES cfS now False g j h login (login_rsp_init cfS name) conn sv w = Some (conn\<lparr>nc_fd := INVALID_TCP_SOCKET\<rparr>, sv', w') \<and>
        tc_ptcp_conn (sv_conn_pool sv' ! p) = c' \<and> (\<forall>t. inp t w' = inp t wb)"
      if o: "pc_Open os cfS (peer fd) (hdr_ack_seq h) now c wa = Some (c', wb)" for c' wb
    proof -
      obtain v' where "srv_OnClientLogon (se_cb ES) (nc_addr conn) ((sv_conn_pool sv ! p)\<lparr>tc_ptcp_conn := c'\<rparr>) wb =
          ((sv_conn_pool sv ! p)\<lparr>tc_ptcp_conn := c'\<rparr>, v')" "\<forall>t. inp t v' = inp t wb"
        using OnClientLogon by metis
      then show ?thesis unfolding run login_accepted_def using o p(2,3) q(2) by (simp add: kernel tc_Open_def Let_def wa_def [symmetric] sv_set_conn_def sv_set_grps_def)
    qed
  qed
qed

lemma server_accepts:
  assumes inp: "inp (peer fd) w = login_buf cfC h login pad" and hdr: "h = (login_msg_hdr cfC)\<lparr>hdr_ack_seq := ack\<rparr>"
    and wf: "wf_login cfC login" "length pad = body_buf_size (sizeof_LoginMsg cfC) - (9 + LoginUserDataSize cfC + 2 * NameSize cfC)"
    and tcp: "lm_use_shm login = 0" and last: "strneq (lm_last_server_name login) (sv_server_name sv) (NameSize cfS)"
    and cname: "lm_client_name login ! 0 \<noteq> CHR 0x00" "(lm_client_name login)[NameSize cfC - 1 := CHR 0x00] = lm_client_name login"
    and slot: "login_slot cfS g (lm_client_name login) i (peer fd) p c sv"
    and q: "pc_q c = Some q" "ptcp_rel (TcpQueueSize cfS) (ToLittleEndian cfS) (HostLittle cfS) q ms"
      "acks_ok (ToLittleEndian cfS) (HostLittle cfS) q ms"
    and e: "e = pq_read_seq_num q + word_of_nat (length ms)"
    and chk: "CheckAckInQueue ack (pq_read_seq_num q) e"
      "CheckAckInQueue (pq_ack_seq_num q) (lm_client_seq_start login) (lm_client_seq_end login)"
  obtains wa where "\<And>t. inp t wa = (if t = fd then inp t w @ reply_bytes cfS (sv_server_name sv) q e else if t = peer fd then [] else inp t w)"
    and "\<And>c' wb. pc_Open os cfS (peer fd) ack now c wa = Some (c', wb) \<Longrightarrow>
      \<exists>sv' w'. visit_new ES cfS sc now i sv w = Some (sv', w') \<and> tc_ptcp_conn (sv_conn_pool sv' ! p) = c' \<and> (\<forall>t. inp t w' = inp t wb)"
proof -
  let ?B = "login_buf cfC h login pad" and ?n = "8 + body_buf_size (sizeof_LoginMsg cfS)" and ?conn = "sv_new_conns sv ! i"
  note load = login_buf_load [OF protocol(1) wf(1), of h pad]
  have conn: "nc_fd ?conn = peer fd" "length (nc_recvbuf ?conn) = ?n" "g < length (sv_tcp_grps sv)" using slot by (simp_all add: login_slot_def)
  obtain j pool where found: "find_conn (NameSize cfS) (lm_client_name login) (cg_conns (sv_tcp_grps sv ! g)) 0 (sv_conn_pool sv) = (Some j, pool)"
    "cg_live_cnt (sv_tcp_grps sv ! g) \<le> j" "p = cg_conns (sv_tcp_grps sv ! g) ! j" "p < length pool"
    "tc_sendq (pool ! p) = None" "tc_ptcp_conn (pool ! p) = c"
    using slot unfolding login_slot_def by (auto split: prod.split_asm option.split_asm)
  have len: "length ?B = ?n" using length_login_buf [OF wf] by (simp add: sizes)
  have "0 < ?n" by simp
  from recv_one [OF inp len this conn(2)] obtain w1 where 1: "tcp_recv os (peer fd) 0 ?n (nc_recvbuf ?conn) w = Some (int ?n, ?B, w1)"
    "\<And>t. inp t w1 = (if t = peer fd then [] else inp t w)" by blast
  have wfS: "wf_login cfS login" using wf(1) protocol(1) by (simp add: wf_login_def same_protocol_def)
  note store = store_login_load [OF wfS, of "HostLittle cfS" h]
  define buf where "buf = store_login (HostLittle cfS) h login (store_login (HostLittle cfS) h login ?B)"
  define conn' where "conn' = ?conn\<lparr>nc_recvbuf := buf\<rparr>"
  obtain w2 where cb: "srv_OnNewConnection (se_cb ES) (nc_addr ?conn) login (login_rsp_init cfS (sv_server_name sv)) w1 =
      (int g, login_rsp_init cfS (sv_server_name sv), w2)" "\<And>t. inp t w2 = inp t w1"
    using OnNewConnection by metis
  have sz: "unat (hdr_size h) = 8 + sizeof_LoginMsg cfS" "hdr_msg_type h = LoginMsg_msg_type" "hdr_ack_seq h = ack"
    using protocol(2) by (simp_all add: hdr sizes login_msg_hdr_def unat_of_nat_exact del: of_nat_add)
  have grp: "array_get (sv_grps False sv) g = Some (sv_tcp_grps sv ! g)" using conn(3) by (simp add: array_get_def sv_grps_def)
  have same: "login\<lparr>lm_client_name := (lm_client_name login)[NameSize cfS - 1 := CHR 0x00]\<rparr> = login" using cname(2) by (simp add: sizes)
  let ?sv = "sv\<lparr>sv_conn_pool := pool\<rparr>"
  have handle: "recv_login ES cfS now (?conn\<lparr>nc_recvbuf := ?B\<rparr>) sv w1 =
      login_conn ES cfS now False g j h login (login_rsp_init cfS (sv_server_name sv)) conn' ?sv w2"
    using load sz tcp cname(1) cb(1) grp found(1,2)
    by (simp add: recv_login_def HandleLogin_def Let_def store same [unfolded One_nat_def] conn'_def buf_def)
  have fd': "nc_fd conn' = peer fd" using conn(1) by (simp add: conn'_def)
  have grps: "p = cg_conns (sv_tcp_grps ?sv ! g) ! j" "p < length (sv_conn_pool ?sv)" "tc_sendq (sv_conn_pool ?sv ! p) = None"
    "tc_ptcp_conn (sv_conn_pool ?sv ! p) = c" "strneq (lm_last_server_name login) (sv_server_name ?sv) (NameSize cfS)"
    using found last by simp_all
  obtain wa where wa: "\<And>t. inp t wa = (if t = fd then inp t w2 @ reply_bytes cfS (sv_server_name sv) q e else inp t w2)"
    and opens: "\<And>c' wb. pc_Open os cfS (peer fd) (hdr_ack_seq h) now c wa = Some (c', wb) \<Longrightarrow>
      \<exists>sv' w'. login_conn ES cfS now False g j h login (login_rsp_init cfS (sv_server_name sv)) conn' ?sv w2 =
          Some (conn'\<lparr>nc_fd := INVALID_TCP_SOCKET\<rparr>, sv', w') \<and> tc_ptcp_conn (sv_conn_pool sv' ! p) = c' \<and> (\<forall>t. inp t w' = inp t wb)"
    using login_conn_accepts [OF tcp grps(5,1,2) fd' grps(3,4) q e _ chk(2), where h = h] chk(1) sz(3) by metis
  show ?thesis
  proof (rule that)
    show "inp t wa = (if t = fd then inp t w @ reply_bytes cfS (sv_server_name sv) q e else if t = peer fd then [] else inp t w)" for t
      using wa [of t] cb(2) [of t] 1(2) [of t] peer_neq [of fd] by auto
    show "\<exists>sv' w'. visit_new ES cfS sc now i sv w = Some (sv', w') \<and> tc_ptcp_conn (sv_conn_pool sv' ! p) = c' \<and> (\<forall>t. inp t w' = inp t wb)"
      if "pc_Open os cfS (peer fd) ack now c wa = Some (c', wb)" for c' wb
      using opens [of c' wb] that sz(3) 1(1) conn(1) sockets handle by (auto simp: visit_new_def Let_def kernel)
  qed
qed

text \<open>The client's first half, with a known server and the queue file mapped.\<close>

lemma client_sends:
  assumes closed: "pc_IsClosed (tc_ptcp_conn (cl_conn cl))" and tcp: "tc_sendq (cl_conn cl) = None"
    and name: "cl_server_name cl = Some name" "name ! 0 \<noteq> CHR 0x00"
    and q: "pc_q (tc_ptcp_conn (cl_conn cl)) = Some q" "ptcp_rel (TcpQueueSize cfC) (ToLittleEndian cfC) (HostLittle cfC) q ms"
      "acks_ok (ToLittleEndian cfC) (HostLittle cfC) q ms"
    and e: "e = pq_read_seq_num q + word_of_nat (length ms)"
    and sock: "connect_socket EC cfC ip port (snd (snd (tc_TryCloseFd os (cl_conn cl) w))) = (Some fd, w4)"
    and h: "h = (login_msg_hdr cfC)\<lparr>hdr_ack_seq := pq_ack_seq_num q\<rparr>" and login: "login = login_sent cfC ud (cl_client_name cl) name q e"
  obtains cl' w' u where "Connect_send EC cfC False ip port ud pad cl w = Some (Inr (fd, h, login, name, cl'), w')"
    and "tc_ptcp_conn (cl_conn cl') = (tc_ptcp_conn (cl_conn cl))\<lparr>pc_fd_to_close := u\<rparr>"
    and "\<And>t. inp t w' = (if t = peer fd then inp t w4 @ login_buf cfC h login pad else inp t w4)"
proof -
  obtain b c w1 where closing: "tc_TryCloseFd os (cl_conn cl) w = (b, c, w1)" by (metis prod_cases3)
  have c: "tc_ptcp_conn c = (tc_ptcp_conn (cl_conn cl))\<lparr>pc_fd_to_close := pc_fd_to_close (tc_ptcp_conn c)\<rparr>" "tc_sendq c = None"
    using closing tcp by (auto simp: tc_TryCloseFd_def pc_TryCloseFd_def split: if_split_asm)
  then have qc: "pc_q (tc_ptcp_conn c) = Some q" using q(1) by (metis ptcp_conn.select_convs(1) ptcp_conn.surjective ptcp_conn.update_convs(3))
  have mapped: "tc_OpenFile os (ce_maps EC) False c w1 = (Inl (), c, w1)" using c(2) qc by (simp add: tc_OpenFile_def pc_OpenFile_def)
  have seq: "tc_GetSeq cfC c (0, 0, 0) = Some (True, pq_ack_seq_num q, pq_read_seq_num q, e)"
    using GetSeq_rel [OF qc q(2,3)] c(2) e by (simp add: tc_GetSeq_def)
  obtain err w5 where sent: "tcp_send_all os fd (login_buf cfC h login pad) w4 = (True, err, w5)"
    "\<And>t. inp t w5 = (if t = peer fd then inp t w4 @ login_buf cfC h login pad else inp t w4)"
    using send_all_arrives [of fd "login_buf cfC h login pad" w4] by metis
  have "Connect_send EC cfC False ip port ud pad cl w = Some (Inr (fd, h, login, name, cl\<lparr>cl_conn := c\<rparr>), w5)"
    using closed closing name mapped seq sock sent(1)
    by (simp add: Connect_send_def tc_IsClosed_def kernel map_last_server_def login_with_seqs_def h login login_sent_def)
  then show ?thesis using that c(1) sent(2) by auto
qed

text \<open>Its second half, when the response comes from the server it knows.\<close>

lemma client_opens:
  assumes inp: "inp fd w = reply_bytes cfS sname q e @ rest"
    and names: "name_ok (NameSize cfS) sname" "length name = NameSize cfC" "name ! 0 \<noteq> CHR 0x00" "cstr name = cstr sname"
  obtains wa now where "\<And>t. inp t wa = (if t = fd then rest else inp t w)"
    and "\<And>c' wb. pc_Open os cfC fd (pq_ack_seq_num q) now (tc_ptcp_conn (cl_conn cl)) wa = Some (c', wb) \<Longrightarrow>
      Connect_recv EC cfC False fd h login name cl w =
        Some (True, cl\<lparr>cl_server_name := Some name, cl_conn := (cl_conn cl)\<lparr>tc_ptcp_conn := c'\<rparr>\<rparr>, wb)"
proof -
  define rh where "rh = (login_hdr cfS)\<lparr>hdr_ack_seq := pq_ack_seq_num q\<rparr>"
  define rsp where "rsp = login_reply cfS sname q e"
  have nm: "lr_server_name rsp = name_sent (NameSize cfS) sname" "lr_status rsp = 0"
    by (simp_all add: rsp_def login_reply_def login_rsp_init_def name_sent_def)
  note sent = name_sent [OF names(1)]
  have wf: "wf_rsp cfS rsp" using sent(1) nm by (simp add: wf_rsp_def rsp_def login_reply_def login_rsp_init_def)
  have hdr: "hdr_size rh = word_of_nat (8 + sizeof_LoginRspMsg cfS)" "hdr_msg_type rh = LoginRspMsg_msg_type" "hdr_ack_seq rh = pq_ack_seq_num q"
    by (simp_all add: rh_def login_hdr_def)
  let ?pad = "replicate (body_buf_size (sizeof_LoginRspMsg cfS) - (41 + LoginRspUserDataSize cfS + NameSize cfS)) (0 :: u8)"
  have "inp fd w = rsp_buf cfS rh rsp ?pad @ rest" using inp by (simp add: reply_bytes_def rh_def rsp_def)
  then obtain w1 where recv: "RecvLoginRsp os (ce_probe EC) cfC fd w = Some (Inl (rh, rsp), w1)" "\<And>t. inp t w1 = (if t = fd then rest else inp t w)"
    using client_receives [OF wf hdr(1,2), of ?pad w rest] by (metis length_replicate)
  have size: "unat (hdr_size rh) = 8 + sizeof_LoginRspMsg cfC"
    using hdr(1) protocol(3) by (simp add: sizes unat_of_nat_exact del: of_nat_add)
  have keep: "(lr_server_name rsp)[NameSize cfC - Suc 0 := CHR 0x00] = lr_server_name rsp" "lr_server_name rsp ! 0 \<noteq> CHR 0x00"
    using sent(3,4) by (simp_all add: nm sizes)
  have same: "strneq name (lr_server_name rsp) (NameSize cfC)" using strneq_full [of name "NameSize cfC"] names sent(1,2) by (simp add: nm sizes)
  obtain now wa where cb: "cl_OnLoginSuccess (ce_cb EC) rsp (cl_conn cl) (snd (tcp_set_nonblocking os fd w1)) = (now, cl_conn cl, wa)"
    "\<forall>t. inp t wa = inp t (snd (tcp_set_nonblocking os fd w1))"
    using OnLoginSuccess by metis
  show ?thesis
  proof (rule that)
    show "inp t wa = (if t = fd then rest else inp t w)" for t using cb(2) recv(2) by (simp add: nb)
    show "Connect_recv EC cfC False fd h login name cl w =
        Some (True, cl\<lparr>cl_server_name := Some name, cl_conn := (cl_conn cl)\<lparr>tc_ptcp_conn := c'\<rparr>\<rparr>, wb)"
      if o: "pc_Open os cfC fd (pq_ack_seq_num q) now (tc_ptcp_conn (cl_conn cl)) wa = Some (c', wb)" for c' wb
      using o recv(1) size hdr keep nm(2) same names(3) cb(1)
      by (simp add: Connect_recv_def logged_on_def kernel Let_def tc_Open_def)
  qed
qed

text \<open>The two programs together.\<close>

lemma login_both:
  assumes S: "session_ok inp peer A B w" and closed: "\<not> sd_open A" "\<not> sd_open B" and cf: "sd_cf A = cfC" "sd_cf B = cfS"
    and cl: "client_for cfC A (sv_server_name sv) cl" and sname: "name_ok (NameSize cfS) (sv_server_name sv)"
    and ud: "length ud = LoginUserDataSize cfC"
      "length pad = body_buf_size (sizeof_LoginMsg cfC) - (9 + LoginUserDataSize cfC + 2 * NameSize cfC)"
    and sock: "connect_socket EC cfC ip port (snd (snd (tc_TryCloseFd os (cl_conn cl) w))) = (Some fd, w4)"
      "inp fd w4 = []" "inp (peer fd) w4 = []"
    and slot: "login_slot cfS g (name_sent (NameSize cfS) (cl_client_name cl)) i (peer fd) p ((sd_conn B)\<lparr>pc_fd_to_close := v\<rparr>) sv"
  obtains h login name cl1 w1 sv' w2 cl' w3 where "Connect_send EC cfC False ip port ud pad cl w = Some (Inr (fd, h, login, name, cl1), w1)"
    and "visit_new ES cfS sc now i sv w1 = Some (sv', w2)" and "Connect_recv EC cfC False fd h login name cl1 w2 = Some (True, cl', w3)"
    and "session_ok inp peer (A\<lparr>sd_conn := tc_ptcp_conn (cl_conn cl')\<rparr>) (B\<lparr>sd_conn := tc_ptcp_conn (sv_conn_pool sv' ! p)\<rparr>) w3"
proof -
  obtain name where name: "cl_server_name cl = Some name" "name_ok (NameSize cfC) name" "cstr name = cstr (sv_server_name sv)"
    using cl by (auto simp: client_for_def)
  have name': "name ! 0 \<noteq> CHR 0x00" "length name = NameSize cfC" using name(2) by (simp_all add: name_ok_def client_name_ok_def)
  have C: "tc_ptcp_conn (cl_conn cl) = (sd_conn A)\<lparr>pc_fd_to_close := tc_fd (cl_conn cl)\<rparr>" "tc_sendq (cl_conn cl) = None"
    "name_ok (NameSize cfC) (cl_client_name cl)" using cl by (simp_all add: client_for_def)
  obtain qA qB msA msB where q: "pc_q (sd_conn A) = Some qA" "pc_q (sd_conn B) = Some qB" and rel: "sd_rel A qA msA" "sd_rel B qB msB"
    and acks: "acks_ok (ToLittleEndian (sd_cf A)) (HostLittle (sd_cf A)) qA msA" "acks_ok (ToLittleEndian (sd_cf B)) (HostLittle (sd_cf B)) qB msB"
    and chk: "CheckAckInQueue (pq_ack_seq_num qA) (pq_read_seq_num qB) (pq_read_seq_num qB + word_of_nat (length msB))"
      "CheckAckInQueue (pq_ack_seq_num qB) (pq_read_seq_num qA) (pq_read_seq_num qA + word_of_nat (length msA))"
    and opens: "\<And>wa R now. inp fd wa = R \<Longrightarrow> inp (peer fd) wa = [] \<Longrightarrow>
      \<exists>cB wb b. pc_Open os (sd_cf B) (peer fd) (pq_ack_seq_num qA) now (sd_conn B) wa = Some (cB, wb) \<and> inp fd wb = R @ b \<and>
        (\<forall>wc nowA. (\<forall>t. inp t wc = (if t = fd then b else inp t wb)) \<longrightarrow>
           (\<exists>cA w'. pc_Open os (sd_cf A) fd (pq_ack_seq_num qB) nowA (sd_conn A) wc = Some (cA, w') \<and>
              session_ok inp peer (A\<lparr>sd_conn := cA\<rparr>) (B\<lparr>sd_conn := cB\<rparr>) w'))"
    by (rule open_both [OF S closed sockets]) blast
  define eA where "eA = pq_read_seq_num qA + word_of_nat (length msA)"
  define eB where "eB = pq_read_seq_num qB + word_of_nat (length msB)"
  define h where "h = (login_msg_hdr cfC)\<lparr>hdr_ack_seq := pq_ack_seq_num qA\<rparr>"
  define login where "login = login_sent cfC ud (cl_client_name cl) name qA eA"
  note L = login_sent [OF C(3) name(2) ud(1), of qA eA, folded login_def]
  note N = name_sent [OF C(3)]
  have shut: "pc_IsClosed (tc_ptcp_conn (cl_conn cl))" "pc_q (tc_ptcp_conn (cl_conn cl)) = Some qA"
    using C(1) closed(1) q(1) by (simp_all add: pc_IsClosed_def)
  obtain cl1 w1 u where sends: "Connect_send EC cfC False ip port ud pad cl w = Some (Inr (fd, h, login, name, cl1), w1)"
    "tc_ptcp_conn (cl_conn cl1) = (tc_ptcp_conn (cl_conn cl))\<lparr>pc_fd_to_close := u\<rparr>"
    "\<And>t. inp t w1 = (if t = peer fd then inp t w4 @ login_buf cfC h login pad else inp t w4)"
    by (rule client_sends [where pad = pad, OF shut(1) C(2) name(1) name'(1) shut(2) rel(1) [unfolded cf] acks(1) [unfolded cf] eA_def sock(1) h_def login_def]) blast
  let ?R = "reply_bytes cfS (sv_server_name sv) qB eB"
  have arrived: "inp (peer fd) w1 = login_buf cfC h login pad" "inp fd w1 = []" using sends(3) sock(2,3) peer_neq [of fd] by auto
  have last: "strneq (lm_last_server_name login) (sv_server_name sv) (NameSize cfS)"
    using strneq_full [of "lm_last_server_name login" "NameSize cfS"] L(4,5) name(3) sname by (simp add: sizes name_ok_def client_name_ok_def)
  have slot': "login_slot cfS g (lm_client_name login) i (peer fd) p ((sd_conn B)\<lparr>pc_fd_to_close := v\<rparr>) sv" using slot L(3) by (simp add: sizes)
  have qB': "pc_q ((sd_conn B)\<lparr>pc_fd_to_close := v\<rparr>) = Some qB" using q(2) by simp
  have seqs: "lm_client_seq_start login = pq_read_seq_num qA" "lm_client_seq_end login = eA" by (simp_all add: login_def login_sent_def)
  obtain wa where wa: "\<And>t. inp t wa = (if t = fd then inp t w1 @ ?R else if t = peer fd then [] else inp t w1)"
    and accepts: "\<And>c' wb. pc_Open os cfS (peer fd) (pq_ack_seq_num qA) now ((sd_conn B)\<lparr>pc_fd_to_close := v\<rparr>) wa = Some (c', wb) \<Longrightarrow>
      \<exists>sv' w'. visit_new ES cfS sc now i sv w1 = Some (sv', w') \<and> tc_ptcp_conn (sv_conn_pool sv' ! p) = c' \<and> (\<forall>t. inp t w' = inp t wb)"
    by (rule server_accepts [OF arrived(1) h_def L(1) ud(2) L(2) last _ _ slot' qB' rel(2) [unfolded cf] acks(2) [unfolded cf] eB_def])
      (use chk N L(3) seqs in \<open>auto simp: eA_def eB_def\<close>)
  have "inp fd wa = ?R" "inp (peer fd) wa = []" using wa arrived(2) peer_neq [of fd] by simp_all
  then obtain cB wb b where OB: "pc_Open os cfS (peer fd) (pq_ack_seq_num qA) now (sd_conn B) wa = Some (cB, wb)" "inp fd wb = ?R @ b"
    and OA: "\<And>wc nowA. (\<forall>t. inp t wc = (if t = fd then b else inp t wb)) \<Longrightarrow>
      \<exists>cA w'. pc_Open os cfC fd (pq_ack_seq_num qB) nowA (sd_conn A) wc = Some (cA, w') \<and>
         session_ok inp peer (A\<lparr>sd_conn := cA\<rparr>) (B\<lparr>sd_conn := cB\<rparr>) w'"
    using opens [of wa ?R now] unfolding cf by blast
  obtain sv' w2 where V: "visit_new ES cfS sc now i sv w1 = Some (sv', w2)" "tc_ptcp_conn (sv_conn_pool sv' ! p) = cB" "\<And>t. inp t w2 = inp t wb"
    using accepts [of cB wb] OB(1) by (auto simp: pc_Open_last_fd)
  have "inp fd w2 = ?R @ b" using V(3) OB(2) by simp
  then obtain wc nowA where wc: "\<And>t. inp t wc = (if t = fd then b else inp t w2)"
    and conn: "\<And>c' wb. pc_Open os cfC fd (pq_ack_seq_num qB) nowA (tc_ptcp_conn (cl_conn cl1)) wc = Some (c', wb) \<Longrightarrow>
      Connect_recv EC cfC False fd h login name cl1 w2 =
        Some (True, cl1\<lparr>cl_server_name := Some name, cl_conn := (cl_conn cl1)\<lparr>tc_ptcp_conn := c'\<rparr>\<rparr>, wb)"
    using client_opens [OF _ sname name'(2,1) name(3)] by metis
  have "\<forall>t. inp t wc = (if t = fd then b else inp t wb)" by (simp add: wc V(3))
  then obtain cA w3 where A: "pc_Open os cfC fd (pq_ack_seq_num qB) nowA (sd_conn A) wc = Some (cA, w3)"
    "session_ok inp peer (A\<lparr>sd_conn := cA\<rparr>) (B\<lparr>sd_conn := cB\<rparr>) w3" using OA by blast
  have "Connect_recv EC cfC False fd h login name cl1 w2 =
        Some (True, cl1\<lparr>cl_server_name := Some name, cl_conn := (cl_conn cl1)\<lparr>tc_ptcp_conn := cA\<rparr>\<rparr>, w3)"
    by (rule conn) (use A(1) sends(2) C(1) in \<open>simp add: pc_Open_last_fd\<close>)
  then show ?thesis using that [OF sends(1) V(1)] A(2) V(2) by simp
qed

end

section \<open>The example programs over the pipe\<close>

text \<open>
  The client and the server of the examples, whose callbacks log to the terminal, over the pipe between sockets 4 and 5.
  The client and its server have lost their connection with a message under way; the server has accepted the new one into
  its first slot.
\<close>

definition pipe_maps :: "(u8 list \<times> u8 list) queue_maps" where
  "pipe_maps = \<lparr>map_ptcp = plain_map 84 (ptcp_zeroed 64), map_shm = plain_map 512 (spsc_zeroed 256)\<rparr>"

definition pipe_probe :: "(u8 list \<times> u8 list) probe_mem" where
  "pipe_probe = \<lparr>pm_map = plain_map 16 0, pm_token = (\<lambda>p w. 0), pm_ack = (\<lambda>p w. 0), pm_set_token = (\<lambda>p x w. w), pm_set_ack = (\<lambda>p x w. w)\<rparr>"

definition pipe_client_env :: "pb \<Rightarrow> (u8 list \<times> u8 list) cl_env" where
  "pipe_client_env P = \<lparr>ce_os = pipe_os, ce_maps = pipe_maps, ce_name_map = plain_map 16 (replicate 16 (CHR 0x00)), ce_probe = pipe_probe,
     ce_cb = StringClient P (\<lambda>e w. w) (\<lambda>w. (7, w)) little_conf\<rparr>"

definition pipe_server_env :: "pb \<Rightarrow> (u8 list \<times> u8 list) srv_env" where
  "pipe_server_env P = \<lparr>se_os = pipe_os, se_maps = pipe_maps, se_probe = pipe_probe, se_cb = StringServer P (\<lambda>e w. w) pipe_os sample_conf,
     se_clock = (\<lambda>w. (0, w)), se_this = 4096\<rparr>"

interpretation pipe_parties: login_parties pipe_os pipe_inp pipe_peer 4 "pipe_client_env P" "pipe_server_env P" little_conf sample_conf 0 for P
proof unfold_locales
  show "0 < fst (sys_send pipe_os s buf w)" if "s = 4 \<or> s = pipe_peer 4" "buf \<noteq> []" for s buf w
    using that by (auto simp: pipe_os_def pipe_peer_def)
  show "0 < fst (fst (sys_recv pipe_os s n w))" if "s = 4 \<or> s = pipe_peer 4" "0 < n" "pipe_inp s w \<noteq> []" for s n w
    using that by (auto simp: pipe_os_def pipe_recv_def Let_def)
  show "fst (fst (sys_recv pipe_os (pipe_peer 4) n w)) = int n" if "0 < n" "n \<le> length (pipe_inp (pipe_peer 4) w)" for n w
    using that by (auto simp: pipe_os_def pipe_recv_def Let_def min_def)
  show "\<exists>now v'. cl_OnLoginSuccess (ce_cb (pipe_client_env P)) rsp c v = (now, c, v') \<and> (\<forall>t. pipe_inp t v' = pipe_inp t v)" for rsp c v
    by (simp add: pipe_client_env_def StringClient_def)
  show "\<exists>v'. srv_OnNewConnection (se_cb (pipe_server_env P)) addr login rsp v = (int 0, rsp, v') \<and> (\<forall>t. pipe_inp t v' = pipe_inp t v)" for addr login rsp v
    by (simp add: pipe_server_env_def StringServer_def)
  show "\<exists>v'. srv_OnClientLogon (se_cb (pipe_server_env P)) addr c v = (c, v') \<and> (\<forall>t. pipe_inp t v' = pipe_inp t v)" for addr c v
    by (simp add: pipe_server_env_def StringServer_def)
qed (simp_all add: pipe_client_env_def pipe_server_env_def pipe_os_def pipe_peer_def INVALID_TCP_SOCKET_def same_protocol_def little_conf_def
    sample_conf_def sizeof_LoginMsg_def sizeof_LoginRspMsg_def blocks_def)

definition pipe_client :: "side \<Rightarrow> client" where
  "pipe_client A = \<lparr>cl_client_name = strncpy (replicate 16 (CHR 0x00)) ''alice'' 15, cl_server_name = Some (sv_server_name sample_server),
     cl_ptcp_dir = ''dir'', cl_conn = (TcpShmConnection little_conf (replicate 15 (CHR 0x00)))\<lparr>tc_ptcp_conn := sd_conn A\<rparr>\<rparr>"

definition pipe_server :: "side \<Rightarrow> server" where
  "pipe_server B = sample_server\<lparr>sv_new_conns := [sample_new_conn\<lparr>nc_fd := 5\<rparr>],
     sv_conn_pool := (sv_conn_pool sample_server)[2 := (sv_conn_pool sample_server ! 2)\<lparr>tc_ptcp_conn := sd_conn B\<rparr>]\<rparr>"

section \<open>Properties\<close>

text \<open>C4: a login over TCP with the code of both parties resumes the session. When both sides of a session are closed and the
  client calls \<open>Connect\<close>, its login, the server's pass over the new connection and the rest of \<open>Connect\<close> all return, the
  client is connected, and from the two connections they opened the session goes on: whatever happens next, each side has
  received what the other wrote, in order and once.
\<close>

theorem login_handshake_resumes:
  assumes parties: "login_parties os inp peer fd EC ES cfC cfS g" and confs: "session_confs cfC cfS"
    and reach: "(sess_step os inp peer)\<^sup>*\<^sup>* (side_new cfC, side_new cfS, w0) (A, B, w)" and closed: "\<not> sd_open A" "\<not> sd_open B"
    and cl: "client_for cfC A (sv_server_name sv) cl" and sname: "name_ok (NameSize cfS) (sv_server_name sv)"
    and ud: "length ud = LoginUserDataSize cfC"
      "length pad = body_buf_size (sizeof_LoginMsg cfC) - (9 + LoginUserDataSize cfC + 2 * NameSize cfC)"
    and sock: "connect_socket EC cfC ip port (snd (snd (tc_TryCloseFd os (cl_conn cl) w))) = (Some fd, w4)" "new_sockets inp peer fd w4"
    and slot: "login_slot cfS g (name_sent (NameSize cfS) (cl_client_name cl)) i (peer fd) p ((sd_conn B)\<lparr>pc_fd_to_close := v\<rparr>) sv"
  shows "\<exists>h login name cl1 w1 sv' w2 cl' w3.
    Connect_send EC cfC False ip port ud pad cl w = Some (Inr (fd, h, login, name, cl1), w1) \<and>
    visit_new ES cfS sc now i sv w1 = Some (sv', w2) \<and> Connect_recv EC cfC False fd h login name cl1 w2 = Some (True, cl', w3) \<and>
    (\<forall>A' B' w'. (sess_step os inp peer)\<^sup>*\<^sup>* (A\<lparr>sd_conn := tc_ptcp_conn (cl_conn cl')\<rparr>, B\<lparr>sd_conn := tc_ptcp_conn (sv_conn_pool sv' ! p)\<rparr>, w3) (A', B', w') \<longrightarrow>
       sd_received B' = take (length (sd_received B')) (sd_written A') \<and> sd_received A' = take (length (sd_received A')) (sd_written B'))"
proof -
  have d: "duplex os inp peer" using parties by (simp add: login_parties_def delivering_def)
  have S: "session_ok inp peer A B w" by (rule duplex.reach_session [OF d new_session [OF confs] reach])
  have cf: "sd_cf A = cfC" "sd_cf B = cfS" using sess_step_conf [OF reach] by (simp_all add: side_new_def)
  have new: "inp fd w4 = []" "inp (peer fd) w4 = []" using sock(2) by (simp_all add: new_sockets_def)
  obtain h login name cl1 w1 sv' w2 cl' w3 where run: "Connect_send EC cfC False ip port ud pad cl w = Some (Inr (fd, h, login, name, cl1), w1)"
      "visit_new ES cfS sc now i sv w1 = Some (sv', w2)" "Connect_recv EC cfC False fd h login name cl1 w2 = Some (True, cl', w3)"
    and S': "session_ok inp peer (A\<lparr>sd_conn := tc_ptcp_conn (cl_conn cl')\<rparr>) (B\<lparr>sd_conn := tc_ptcp_conn (sv_conn_pool sv' ! p)\<rparr>) w3"
    by (rule login_parties.login_both [OF parties S closed cf cl sname ud sock(1) new slot, of sc now])
  have "sd_received B' = take (length (sd_received B')) (sd_written A') \<and> sd_received A' = take (length (sd_received A')) (sd_written B')"
    if "(sess_step os inp peer)\<^sup>*\<^sup>* (A\<lparr>sd_conn := tc_ptcp_conn (cl_conn cl')\<rparr>, B\<lparr>sd_conn := tc_ptcp_conn (sv_conn_pool sv' ! p)\<rparr>, w3) (A', B', w')" for A' B' w'
    using duplex.reach_session [OF d S' that] by (auto simp: session_ok_def dest: flow_prefix)
  then show ?thesis using run by blast
qed

theorem login_handshake_resumes_witness:
  "\<exists>A B h login name cl1 w1 sv' w2 cl' w3. pipe_lost = Some (A, B) \<and>
     Connect_send (pipe_client_env plain_pb) little_conf False ''1.2.3.4'' 80 [9] (replicate 6 0) (pipe_client A) ([], []) =
       Some (Inr (4, h, login, name, cl1), w1) \<and>
     visit_new (pipe_server_env plain_pb) sample_conf sample_srv_conf 3 0 (pipe_server B) w1 = Some (sv', w2) \<and>
     Connect_recv (pipe_client_env plain_pb) little_conf False 4 h login name cl1 w2 = Some (True, cl', w3)"
proof -
  obtain A B where l: "pipe_lost = Some (A, B)" using pipe_run_result by (auto simp: pipe_run_def split: bind_split_asm)
  note r = pipe_lost_reach [OF l]
  have n: "new_sockets pipe_inp pipe_peer 4 ([], [])" by (simp add: new_sockets_def pipe_inp_def pipe_peer_def INVALID_TCP_SOCKET_def)
  have name: "name_ok 16 (sv_server_name sample_server)" "name_ok 16 (strncpy (replicate 16 (CHR 0x00)) ''alice'' 15)" by code_simp+
  have cl: "client_for little_conf A (sv_server_name (pipe_server B)) (pipe_client A)"
    using name by (simp add: client_for_def pipe_client_def tc_fd_def pipe_server_def TcpShmConnection_def little_conf_def sample_conf_def)
  have sock: "connect_socket (pipe_client_env plain_pb) little_conf ''1.2.3.4'' 80 (snd (snd (tc_TryCloseFd pipe_os (cl_conn (pipe_client A)) ([], [])))) =
      (Some 4, ([], []))"
    by (simp add: connect_socket_def pipe_client_env_def pipe_os_def tc_TryCloseFd_def pc_TryCloseFd_def tcp_close_def tcp_socket_def
        tcp_set_timeout_def tcp_setsockopt_def tcp_connect_def Let_def INVALID_TCP_SOCKET_def)
  have found: "strneq (strncpy (CHR 0x00 # replicate 15 (CHR 0x00)) (name_sent 16 (strncpy (replicate 16 (CHR 0x00)) ''alice'' 15)) 16)
      (name_sent 16 (strncpy (replicate 16 (CHR 0x00)) ''alice'' 15)) 16" by code_simp
  have slot: "login_slot sample_conf 0 (name_sent (NameSize sample_conf) (cl_client_name (pipe_client A))) 0 (pipe_peer 4) 2
      ((sd_conn B)\<lparr>pc_fd_to_close := pc_fd_to_close (sd_conn B)\<rparr>) (pipe_server B)"
    using found by (simp add: login_slot_def pipe_server_def pipe_client_def pipe_peer_def sample_server_def TcpShmServer_def sample_srv_conf_def sample_conf_def
        sample_new_conn_def sizeof_LoginMsg_def body_buf_size_def blocks_def group_of_def Let_def tc_init_def TcpShmConnection_def)
  have sname: "name_ok (NameSize sample_conf) (sv_server_name (pipe_server B))" using name by (simp add: pipe_server_def sample_conf_def)
  have sizes: "length [9 :: u8] = LoginUserDataSize little_conf"
    "length (replicate 6 (0 :: u8)) = body_buf_size (sizeof_LoginMsg little_conf) - (9 + LoginUserDataSize little_conf + 2 * NameSize little_conf)"
    by (simp_all add: sample_conf_def little_conf_def body_buf_size_def sizeof_LoginMsg_def blocks_def)
  have closed: "\<not> sd_open A" "\<not> sd_open B" using r by simp_all
  from login_handshake_resumes [OF pipe_parties.login_parties_axioms pipe_confs conjunct1 [OF r] closed cl sname sizes sock n slot,
      of sample_srv_conf 3] l
  show ?thesis by blast
qed

end
