(* ===== verification/Session_Live.thy ===== *)
theory Session_Live
  imports Session_Props
begin

text \<open>
  Progress: while a connection is open, the bytes that arrive reach the application. A receive buffer never gets stuck, and
  polling often enough delivers every message that was sent.
\<close>

section \<open>DoRecv\<close>

text \<open>A kernel that hands over bytes that have arrived on socket \<open>s\<close>.\<close>

definition delivers :: "'w os \<Rightarrow> (int \<Rightarrow> 'w \<Rightarrow> u8 list) \<Rightarrow> int \<Rightarrow> bool" where
  "delivers os inp s \<longleftrightarrow>
     (\<forall>n w. 0 < n \<and> inp s w \<noteq> [] \<longrightarrow> 0 < fst (fst (sys_recv os s n w))) \<and>
     (\<forall>ns w. 0 < sum_list ns \<and> inp s w \<noteq> [] \<longrightarrow> 0 < fst (fst (sys_readv os s ns w)))"

lemma recv_call_progress:
  assumes "delivers os inp (pc_sockfd c)" and "inp (pc_sockfd c) w \<noteq> []" and "0 < unat writable + unat extra"
    and "recv_call os cf c writable extra w = Some (ret, buf, stack, w')"
  shows "0 < ret"
proof (cases "extra = 0")
  case True
  then have "0 < fst (fst (sys_recv os (pc_sockfd c) (unat writable) w))" using assms(1-3) by (simp add: delivers_def)
  then show ?thesis using assms(4) True by (auto simp: recv_call_def tcp_recv_def split: prod.split_asm if_split_asm)
next
  case False
  then have "0 < fst (fst (sys_readv os (pc_sockfd c) [unat writable, unat extra] w))" using assms(1-3) by (simp add: delivers_def)
  then show ?thesis using assms(4) False by (auto simp: recv_call_def tcp_readv_def split: prod.split_asm if_split_asm)
qed

text \<open>Unless the unread bytes fill a buffer of the maximal size there is room for more.\<close>

lemma pc_DoRecv_progress:
  assumes conf: "recv_conf cf" and inv: "rcv_inv cf c0" and some: "pc_recvbuf_size c0 \<noteq> 0"
    and room: "unat (pc_writeidx c0) - unat (pc_readidx c0) < unat (TcpRecvBufMaxSize cf)"
    and os: "delivers os inp (pc_sockfd c0)" "inp (pc_sockfd c0) w \<noteq> []" and run: "pc_DoRecv os cf c0 w = Some (len, c', w')"
  shows "0 < len"
proof -
  define c where "c = recv_restart c0"
  note C = recv_restart_spec [OF inv, folded c_def]
  note I = rcv_invD [OF C(1)]
  have frame: "pc_recvbuf_size c = pc_recvbuf_size c0" "pc_sockfd c = pc_sockfd c0" by (simp_all add: c_def)
  define writable where "writable = pc_recvbuf_size c - pc_writeidx c"
  define allow where "allow \<longleftrightarrow> (writable + pc_readidx c) * 2 < pc_recvbuf_size c"
  define extra where "extra = min 65536 (pc_readidx c + (if allow then TcpRecvBufMaxSize cf - pc_recvbuf_size c else 0))"
  note sizes = recv_sizes [OF conf C(1), folded writable_def]
  have pos: "0 < unat (pc_recvbuf_size c)" using some frame by (simp add: unat_gt_0)
  have "0 < unat writable + unat extra"
  proof (rule ccontr)
    assume "\<not> ?thesis"
    then have z: "unat writable = 0" "extra = 0" by (simp_all add: word_unat_eq_iff)
    then have w0: "writable = 0" by (simp add: word_unat_eq_iff)
    have r0: "pc_readidx c = 0"
    proof (rule ccontr)
      assume r: "pc_readidx c \<noteq> 0"
      have "pc_readidx c \<le> pc_readidx c + (if allow then TcpRecvBufMaxSize cf - pc_recvbuf_size c else 0)"
        using sizes(3) by (simp add: word_le_nat_alt)
      then show False using z(2) r by (auto simp: extra_def min_def split: if_split_asm)
    qed
    have "allow" using pos w0 r0 by (simp add: allow_def word_less_nat_alt)
    then have "TcpRecvBufMaxSize cf - pc_recvbuf_size c = 0" using z(2) r0 by (auto simp: extra_def min_def split: if_split_asm)
    then have "unat (TcpRecvBufMaxSize cf) = unat (pc_recvbuf_size c)" by simp
    moreover have "unat (pc_writeidx c) = unat (pc_recvbuf_size c)" using z(1) sizes(1) I by simp
    ultimately show False using room C(4) r0 by simp
  qed
  moreover from this have "writable + extra \<noteq> 0"
  proof -
    have "unat (TcpRecvBufMaxSize cf) < 2 ^ 30" using conf by (simp add: recv_conf_def)
    then have "unat writable < 2 ^ 30" using sizes(1) I(5) by linarith
    moreover have "unat extra \<le> 65536" by (simp add: extra_def min_def word_le_nat_alt)
    ultimately have "unat (writable + extra) = unat writable + unat extra" by (intro unat_add_exact) simp
    then show ?thesis using \<open>0 < unat writable + unat extra\<close> by (metis unat_0 less_irrefl)
  qed
  ultimately show ?thesis
    using run [unfolded pc_DoRecv_call Let_def, folded c_def, folded writable_def, folded allow_def, folded extra_def]
      recv_call_progress [of os inp c w writable extra cf] os frame
    by (auto split: bind_split_asm if_split_asm)
qed

section \<open>Front\<close>

lemma front_skip_size: "front_skip cf q c = Some (b, c') \<Longrightarrow> pc_recvbuf_size c' = pc_recvbuf_size c"
proof -
  have "pc_recvbuf_size (snd r) = pc_recvbuf_size c" if "front_skip cf q c = Some r" for r
  proof (induction rule: front_skip.raw_induct [where P = "\<lambda>cf q c r. pc_recvbuf_size (snd r) = pc_recvbuf_size c", OF _ that], goal_cases)
    case (1 rec cf q c r)
    from 1(2) show ?case by (auto split: if_split_asm option.split_asm dest!: 1(1))
  qed
  then show "front_skip cf q c = Some (b, c') \<Longrightarrow> pc_recvbuf_size c' = pc_recvbuf_size c" by fastforce
qed

lemma front_parse_size: "front_parse cf old c = Some (b, c') \<Longrightarrow> pc_recvbuf_size c' = pc_recvbuf_size c"
proof -
  have "pc_recvbuf_size (snd r) = pc_recvbuf_size c" if "front_parse cf old c = Some r" for r
  proof (induction rule: front_parse.raw_induct [where P = "\<lambda>cf q c r. pc_recvbuf_size (snd r) = pc_recvbuf_size c", OF _ that], goal_cases)
    case (1 rec cf old c r)
    from 1(2) show ?case by (auto simp: Let_def pc_Close_def split: if_split_asm option.split_asm dest!: 1(1))
  qed
  then show "front_parse cf old c = Some (b, c') \<Longrightarrow> pc_recvbuf_size c' = pc_recvbuf_size c" by fastforce
qed

text \<open>A buffer that has been allocated stays allocated.\<close>

definition has_buf :: "conf \<Rightarrow> ptcp_conn \<Rightarrow> bool" where
  "has_buf cf c \<longleftrightarrow> 0 < unat (pc_recvbuf_size c) \<and> unat (pc_recvbuf_size c) \<le> unat (TcpRecvBufMaxSize cf)"

lemma recv_expand_size:
  assumes "recv_conf cf" and "has_buf cf c" and "recv_expand os cf ret writable stack c w = Some (c', w')"
  shows "has_buf cf c'"
proof -
  let ?n = "min (TcpRecvBufMaxSize cf) (max (pc_recvbuf_size c * 2) ((pc_writeidx c - pc_readidx c + word_of_int ret + 7) AND - 8))"
  have "pc_recvbuf_size c' = ?n" using assms(3) by (auto simp: recv_expand_def Let_def split: prod.split_asm bind_split_asm)
  moreover have "unat (pc_recvbuf_size c * 2) = 2 * unat (pc_recvbuf_size c)"
    using assms(1,2) by (simp add: recv_conf_def has_buf_def unat_word_ariths)
  then have "0 < unat ?n" "unat ?n \<le> unat (TcpRecvBufMaxSize cf)" using assms(2) by (auto simp: has_buf_def min_def max_def word_le_nat_alt)
  ultimately show ?thesis by (simp add: has_buf_def)
qed

lemma pc_DoRecv_size:
  assumes "recv_conf cf" and "has_buf cf c" and "pc_DoRecv os cf c w = Some (len, c', w')"
  shows "has_buf cf c'"
proof -
  have [simp]: "has_buf cf (recv_restart c)" using assms(2) by (simp add: has_buf_def)
  have [simp]: "has_buf cf (d\<lparr>pc_recvbuf := b\<rparr>) = has_buf cf d" "has_buf cf (d\<lparr>pc_recv_time := x\<rparr>) = has_buf cf d"
    "has_buf cf (recv_shift d) = has_buf cf d" "has_buf cf (recv_failed os cf r d v) = has_buf cf d" for d b x r v
    by (simp_all add: has_buf_def recv_shift_def recv_failed_frame)
  show ?thesis using assms(3) unfolding pc_DoRecv_call Let_def
    by (auto simp: recv_compact_def Let_def split: bind_split_asm if_split_asm dest!: recv_expand_size [OF assms(1), rotated])
qed

lemma pc_Front_size:
  assumes "recv_conf cf" and "has_buf cf c" and "pc_Front os cf c w = Some (p, c', w')"
  shows "has_buf cf c'"
proof -
  note D = pc_DoRecv_size [OF assms(1)]
  show ?thesis
  proof (cases "pc_q c")
    case None
    then show ?thesis using assms(2,3) D by (auto simp: pc_Front_def)
  next
    case (Some q)
    then obtain b c1 where skip: "front_skip cf q c = Some (b, c1)" using assms(3) by (auto simp: pc_Front_def split: bind_split_asm)
    have 1: "has_buf cf c1" using front_skip_size [OF skip] assms(2) by (simp add: has_buf_def)
    show ?thesis
    proof (cases b)
      case True
      then show ?thesis using assms(3) Some skip 1 by (auto simp: pc_Front_def)
    next
      case False
      then obtain len c2 w2 where recv: "pc_DoRecv os cf c1 w = Some (len, c2, w2)"
        using assms(3) Some skip by (auto simp: pc_Front_def split: bind_split_asm)
      note 2 = D [OF 1 recv]
      have "c' = c2 \<or> (\<exists>b x. front_parse cf (sint (pc_writeidx c2)) (c2\<lparr>pc_writeidx := x\<rparr>) = Some (b, c'))"
        using assms(3) Some skip False recv by (auto simp: pc_Front_def split: bind_split_asm if_split_asm)
      then show ?thesis using 2 front_parse_size by (fastforce simp: has_buf_def)
    qed
  qed
qed

text \<open>An incomplete frame is shorter than the largest one.\<close>

lemma incomplete_short:
  assumes "t @ rest = concat gs" and "list_all (wf_frame cf) gs" and "incomplete cf t"
  shows "t = [] \<or> length t < unat (TcpRecvBufMaxSize cf)" and "rest = [] \<Longrightarrow> gs = []"
proof -
  have *: "length t < length g" if "gs = g # gs'" for g gs'
  proof (rule ccontr)
    assume le: "\<not> length t < length g"
    have wf: "8 \<le> length g" "length g = frame_len (ToLittleEndian cf) g" using assms(2) that by (simp_all add: wf_frame_def)
    have "take (length g) (t @ rest) = g" using assms(1) that by simp
    then have "t = g @ drop (length g) t" using le by (metis append_take_drop_id linorder_not_less take_append append_Nil2 diff_is_0_eq' take0)
    then have "wire_hdr (ToLittleEndian cf) t = wire_hdr (ToLittleEndian cf) g" using wire_hdr_prefix [OF wf(1)] by metis
    then show False using assms(3) wf le by (simp add: incomplete_def frame_len_def)
  qed
  show "t = [] \<or> length t < unat (TcpRecvBufMaxSize cf)"
  proof (cases gs)
    case (Cons g gs')
    then show ?thesis using * assms(2) by (fastforce simp: wf_frame_def)
  qed (use assms(1) in simp)
  show "gs = []" if "rest = []"
  proof (cases gs)
    case (Cons g gs')
    then have "length g \<le> length t" using assms(1) that by simp
    then show ?thesis using * [OF Cons] by simp
  qed
qed

text \<open>\<open>Front\<close> takes bytes off the stream; with no message in the buffer, at least one if there is one.\<close>

lemma Front_receives:
  assumes conf: "recv_conf cf" and os: "recv_ok os" "new_ok os" "stream_recv os inp" and max: "8 \<le> unat (TcpRecvBufMaxSize cf)"
    and rel: "front_rel cf c fs t" and q: "pc_q c = Some q" and gs: "t @ rest = concat gs" "list_all (wf_frame cf) gs"
    and buf: "has_buf cf c" and run: "pc_Front os cf c w = Some (p, c', w')"
  obtains data where "inp (pc_sockfd c) w = data @ inp (pc_sockfd c) w'"
    and "list_all (is_heartbeat (ToLittleEndian cf)) fs \<Longrightarrow> delivers os inp (pc_sockfd c) \<Longrightarrow> inp (pc_sockfd c) w \<noteq> [] \<Longrightarrow> data \<noteq> []"
proof -
  let ?fs = "dropWhile (is_heartbeat (ToLittleEndian cf)) fs"
  obtain b c1 where skip: "front_skip cf q c = Some (b, c1)" and rel1: "front_rel cf c1 ?fs t" and fd: "pc_sockfd c1 = pc_sockfd c"
    and b: "b \<longleftrightarrow> ?fs \<noteq> [] \<and> pc_last_my_ack c \<noteq> ptcp_MyAck q"
    by (rule front_skip_spec [OF rel, of q]) blast
  show ?thesis
  proof (cases b)
    case True
    then have "w' = w" "\<not> list_all (is_heartbeat (ToLittleEndian cf)) fs" using run skip q b by (auto simp: pc_Front_def list_all_iff)
    then show ?thesis using that [of "[]"] by simp
  next
    case False
    have size: "pc_recvbuf_size c1 \<noteq> 0" using front_skip_size [OF skip] buf by (auto simp: has_buf_def)
    note inv = front_relD(1) [OF rel1]
    obtain len c2 where recv: "pc_DoRecv os cf c1 w = Some (len, c2, w')"
      using run skip q False by (auto simp: pc_Front_def split: bind_split_asm if_split_asm)
    obtain data where d: "len = int (length data)" "inp (pc_sockfd c1) w = data @ inp (pc_sockfd c1) w'"
      using pc_DoRecv_spec [OF conf os(1,2) inv, of w] os(3) recv by (metis option.inject prod.inject)
    have "data \<noteq> []" if hb: "list_all (is_heartbeat (ToLittleEndian cf)) fs" and del: "delivers os inp (pc_sockfd c1)" "inp (pc_sockfd c1) w \<noteq> []"
    proof -
      have "?fs = []" using hb by (auto simp: list_all_iff)
      then have "front_rel cf c1 [] t" using rel1 by (simp only:)
      then have "unat (pc_writeidx c1) - unat (pc_readidx c1) = length t" using front_rel_length [of cf c1 "[]" t] by simp
      then have "unat (pc_writeidx c1) - unat (pc_readidx c1) < unat (TcpRecvBufMaxSize cf)"
        using incomplete_short(1) [OF gs front_relD(4) [OF rel1]] max by auto
      then show ?thesis using pc_DoRecv_progress [OF conf inv size _ del recv] d(1) by auto
    qed
    then show ?thesis by (intro that [of data] d(2) [unfolded fd]) (simp_all add: fd)
  qed
qed

section \<open>Polls\<close>

lemma poll_has_buf:
  assumes conf: "recv_conf (sd_cf X)" and buf: "has_buf (sd_cf X) (sd_conn X)" and run: "sd_poll os now pop X w = Some (X', w')"
  shows "has_buf (sd_cf X') (sd_conn X')"
proof (cases "sd_open X")
  case True
  then obtain c1 w1 p c2 w2 where H: "pc_SendHB os (sd_cf X) now (sd_conn X) w = Some (c1, w1)"
    and F: "pc_Front os (sd_cf X) c1 w1 = Some (p, c2, w2)" and X': "sd_cf X' = sd_cf X" "pc_recvbuf_size (sd_conn X') = pc_recvbuf_size c2"
    using run by (auto simp: sd_poll_def pc_poll_def pc_Pop_def split: bind_split_asm if_split_asm option.split_asm)
  have "sends (sd_conn X) c1" using pc_SendHB_sends [OF _ _ H, of "\<lambda>_. ()"] by (simp add: send_keeps_def)
  then have "has_buf (sd_cf X) c1" using buf by (simp add: has_buf_def sends_def)
  from pc_Front_size [OF conf this F] show ?thesis by (simp add: has_buf_def X')
next
  case False
  then show ?thesis using run buf by (auto simp: sd_poll_def pc_poll_def)
qed

primrec sd_polls :: "'w os \<Rightarrow> int list \<Rightarrow> side \<Rightarrow> 'w \<Rightarrow> (side \<times> 'w) option" where
  "sd_polls os [] X w = Some (X, w)"
| "sd_polls os (now # ts) X w = do { (X', w') \<leftarrow> sd_poll os now True X w; sd_polls os ts X' w' }"

context duplex
begin

text \<open>
  One poll of an open connection whose peer has sent everything: it delivers a message, or takes bytes off the stream, or
  there was nothing left.
\<close>

lemma poll_progress:
  assumes S: "session_ok inp peer X Y w" and live: "sd_open X" and s: "pc_sockfd (sd_conn X) = s"
    and buf: "has_buf (sd_cf X) (sd_conn X)" and del: "delivers os inp s"
    and Y: "sd_open Y" "pc_q (sd_conn Y) = Some qY" "unsent qY = []"
    and run: "sd_poll os now True X w = Some (X', w')" and still: "sd_open X'"
  shows "length (sd_received X') = Suc (length (sd_received X)) \<and> length (inp s w') \<le> length (inp s w) \<or>
    sd_received X' = sd_received X \<and> (length (inp s w') < length (inp s w) \<or> length (sd_received X) = length (sd_written Y))"
proof -
  let ?cf = "sd_cf X" and ?hb = "is_heartbeat (ToLittleEndian (sd_cf X))"
  have A: "acting inp peer (Some s) X Y w" using acting_start [OF S] live s by (simp add: reads_def)
  have conf: "recv_conf ?cf" "8 \<le> unat (TcpRecvBufMaxSize ?cf)" using A by (simp_all add: acting_def side_ok_def)
  obtain c1 w1 where H: "pc_SendHB os ?cf now (sd_conn X) w = Some (c1, w1)" and A1: "acting inp peer (Some s) (X\<lparr>sd_conn := c1\<rparr>) Y w1"
    and snd: "sends (sd_conn X) c1" and "\<And>t. t \<noteq> peer s \<Longrightarrow> inp t w1 = inp t w"
    using SendHB_acting [OF A live, of now] s by blast
  then have w1: "inp s w1 = inp s w" using peer_neq [of s] by metis
  obtain c2 w2 q1 msY aY q2 fs t hs ns rest where
    F: "pc_Front os ?cf c1 w1 = Some (if fs = [] then None else Some (pc_readidx c2), c2, w2)" and st2: "steady c1 c2"
    and C2: "files_ok Y (X\<lparr>sd_conn := c2\<rparr>) q1 q2 msY aY" and str: "stream inp Y (X\<lparr>sd_conn := c2\<rparr>) s w2 q1 msY aY fs t hs ns rest"
    and before: "\<exists>fs t hs' ns' gs0. stream inp Y (X\<lparr>sd_conn := c1\<rparr>) s w1 q1 msY aY fs t hs' ns' rest \<and> hs' @ ns' = gs0 @ hs @ ns"
    using Front_acting [OF A1] by simp metis
  obtain m c3 where res: "sd_received X' = sd_received X @ m" "sd_conn X' = c3" "w' = w2" "pc_sockfd c3 = pc_sockfd c2" "length m = (if fs = [] then 0 else 1)"
    using run H F live by (auto simp: sd_poll_def pc_poll_def pc_Pop_def split: bind_split_asm if_split_asm option.split_asm)
  have fd1: "pc_sockfd c1 = s" using still res(2,4) st2 snd s by (auto simp: pc_IsClosed_def sends_def steady_def)
  have buf1: "has_buf ?cf c1" using buf snd by (simp add: has_buf_def sends_def)
  obtain fs0 t0 hs0 ns0 gs0 where st0: "stream inp Y (X\<lparr>sd_conn := c1\<rparr>) s w1 q1 msY aY fs0 t0 hs0 ns0 rest" and gs0: "hs0 @ ns0 = gs0 @ hs @ ns"
    using before by blast
  have B: "front_rel ?cf c1 fs0 t0" "t0 @ inp s w1 @ rest = concat (hs0 @ ns0)" "list_all (wf_frame ?cf) (hs0 @ ns0)"
    using st0 by (simp_all add: stream_def)
  let ?left = "map (cells_bytes (HostLittle (sd_cf Y))) (drop (length (sd_received X) - aY) msY)"
  have same: "sd_cf (X\<lparr>sd_conn := c\<rparr>) = ?cf" "sd_received (X\<lparr>sd_conn := c\<rparr>) = sd_received X" for c by simp_all
  have left: "app_frames ?cf (fs0 @ hs0 @ ns0) = ?left" "app_frames ?cf (fs @ hs @ ns) = ?left"
    using st0 str unfolding stream_def same by blast+
  have "flow inp (X\<lparr>sd_conn := c1\<rparr>) Y w1 True (reads Y)" using A1 by (simp add: acting_def)
  then obtain q1' where q1': "pc_q c1 = Some q1'" using flow_queue by fastforce
  obtain data where data: "inp s w1 = data @ inp s w2" "list_all ?hb fs0 \<Longrightarrow> inp s w1 \<noteq> [] \<Longrightarrow> data \<noteq> []"
    using Front_receives [OF conf(1) recv stream_in conf(2) B(1) q1' B(2,3) buf1 F] del unfolding fd1 by metis
  have len: "length (inp s w) = length data + length (inp s w2)" using arg_cong [OF data(1), of length] w1 by simp
  show ?thesis
  proof (cases "fs = []")
    case False
    then show ?thesis using res len by simp
  next
    case True
    have "app_frames ?cf fs0 = []" using left gs0 True by (simp add: app_frames_def)
    then have hb: "list_all ?hb fs0" by (simp add: app_frames_def filter_empty_conv list_all_iff)
    show ?thesis
    proof (cases "inp s w1 = []")
      case False
      then have "data \<noteq> []" by (rule data(2) [OF hb])
      then show ?thesis using res True len by simp
    next
      case empty: True
      have "rest = []" using str Y C2 by (auto simp: stream_def files_ok_def)
      moreover have "inp s w2 = []" using data(1) empty by simp
      ultimately have t: "t @ [] = concat (hs @ ns)" "list_all (wf_frame ?cf) (hs @ ns)" using str by (simp_all add: stream_def)
      have "front_rel ?cf c2 fs t" using str by (simp add: stream_def)
      note t = t front_relD(4) [OF this]
      have "hs @ ns = []" by (rule incomplete_short(2) [OF t refl])
      then have "drop (length (sd_received X) - aY) msY = []" using left(2) True by (simp add: app_frames_def)
      moreover have le: "aY \<le> length (sd_received X)" "length (sd_received X) \<le> length (sd_written Y)" using C2 by (simp_all add: files_ok_def)
      ultimately have "length (sd_written Y) \<le> length (sd_received X)" using files_ok_length [OF C2] by simp
      with le(2) have "length (sd_received X) = length (sd_written Y)" by simp
      then show ?thesis using res True by simp
    qed
  qed
qed

text \<open>Enough polls.\<close>

lemma polls_deliver:
  assumes S: "session_ok inp peer X Y w" and del: "delivers os inp s" and Y: "sd_open Y" "pc_q (sd_conn Y) = Some qY" "unsent qY = []"
    and ready: "sd_open X \<Longrightarrow> pc_sockfd (sd_conn X) = s \<and> has_buf (sd_cf X) (sd_conn X) \<and>
      (length (inp s w) + (length (sd_written Y) - length (sd_received X)) < length ts \<or> sd_received X = sd_written Y)"
  shows "\<exists>X' w'. sd_polls os ts X w = Some (X', w') \<and> (sd_open X' \<longrightarrow> sd_received X' = sd_written Y)"
  using S ready
proof (induction ts arbitrary: X w)
  case (Cons now ts)
  note S = Cons.prems(1) and ready = Cons.prems(2)
  obtain X1 w1 where P: "sd_poll os now True X w = Some (X1, w1)" and S1: "session_ok inp peer X1 Y w1" by (rule poll_session [OF S, of now True])
  have pre: "sd_received X = take (length (sd_received X)) (sd_written Y)" "sd_received X1 = take (length (sd_received X1)) (sd_written Y)"
    using S S1 by (auto simp: session_ok_def dest: flow_prefix)
  have "pc_sockfd (sd_conn X1) = s \<and> has_buf (sd_cf X1) (sd_conn X1) \<and>
      (length (inp s w1) + (length (sd_written Y) - length (sd_received X1)) < length ts \<or> sd_received X1 = sd_written Y)" if live1: "sd_open X1"
  proof -
    have live: "sd_open X" using P live1 by (cases "sd_open X") (auto simp: sd_poll_def pc_poll_def)
    note R = ready [OF live]
    have A: "acting inp peer (Some s) X Y w" using acting_start [OF S] live R by (simp add: reads_def)
    have "acting inp peer (Some s) X1 Y w1" by (rule poll_acting [OF A live, of now True]) (use P in simp)
    then have fd: "pc_sockfd (sd_conn X1) = s" using live1 by (auto simp: acting_def reads_def split: if_split_asm)
    have conf: "recv_conf (sd_cf X)" using S by (simp add: session_ok_def side_ok_def)
    note buf = poll_has_buf [OF conf _ P] and le = arg_cong [OF pre(1), of length] arg_cong [OF pre(2), of length]
    from poll_progress [OF S live _ _ del Y P live1] R
    have "length (inp s w1) + (length (sd_written Y) - length (sd_received X1)) < length ts \<or> length (sd_received X1) = length (sd_written Y)"
      using le by auto
    then show ?thesis using fd buf R pre by auto
  qed
  from Cons.IH [OF S1 this] show ?case using P by auto
qed auto

end

section \<open>Open connections have a buffer\<close>

definition buffered :: "side \<Rightarrow> bool" where
  "buffered X \<longleftrightarrow> (sd_open X \<longrightarrow> has_buf (sd_cf X) (sd_conn X))"

lemma poll_buffered:
  assumes "side_ok X" and "buffered X" and "sd_poll os now pop X w = Some (X', w')"
  shows "buffered X'"
proof (cases "sd_open X")
  case True
  then show ?thesis using poll_has_buf [OF _ _ assms(3)] assms by (simp add: buffered_def side_ok_def)
next
  case False
  then show ?thesis using assms by (auto simp: sd_poll_def pc_poll_def buffered_def)
qed

lemma send_buffered:
  assumes "buffered X" and "sd_send os mt body X w = Some (X', w')"
  shows "buffered X'"
proof -
  have S: "sends c c'" if "pc_SendPending os cf c w = Some (ok, c', w')" for cf c w ok c' w'
    using pc_SendPending_sends [OF _ that, of "\<lambda>_. ()"] by (simp add: send_keeps_def)
  have "pc_recvbuf_size (sd_conn X') = pc_recvbuf_size (sd_conn X) \<and> sd_cf X' = sd_cf X \<and> (sd_open X' \<longrightarrow> sd_open X)"
    using assms(2)
    by (auto simp: sd_send_def pc_send_def pc_Alloc_def pc_Push_def pc_PushMore_def sends_def steady_def pc_IsClosed_def
        split: bind_split_asm option.split_asm dest!: S)
  then show ?thesis using assms(1) by (auto simp: buffered_def has_buf_def)
qed

lemma open_buffered:
  assumes "side_ok X" and "TcpRecvBufInitSize (sd_cf X) \<noteq> 0" and "pc_Open os (sd_cf X) fd ack now (sd_conn X) w = Some (c', w')"
  shows "buffered (X\<lparr>sd_conn := c'\<rparr>)"
proof -
  let ?S = "pc_recvbuf_size (sd_conn X)"
  have S: "pc_recvbuf_size c' = pc_recvbuf_size c" if "pc_SendPending os cf c w = Some (ok, c', w')" for cf c w ok c' w'
    using pc_SendPending_sends [OF _ that, of "\<lambda>_. ()"] by (simp add: send_keeps_def sends_def)
  have "pc_recvbuf_size c' = (if ?S = 0 then TcpRecvBufInitSize (sd_cf X) else ?S)"
    using assms(3) by (auto simp: pc_Open_def Let_def split: bind_split_asm option.split_asm prod.split_asm if_split_asm dest!: S)
  then show ?thesis using assms(1,2) by (auto simp: buffered_def has_buf_def side_ok_def recv_conf_def word_le_nat_alt word_unat_eq_iff)
qed

lemma login_buffered:
  assumes "side_ok A" and "side_ok B" and "TcpRecvBufInitSize (sd_cf A) \<noteq> 0" and "TcpRecvBufInitSize (sd_cf B) \<noteq> 0"
    and "sd_login os fdA fdB now A B w = Some (Some (A', B', w'))"
  shows "buffered A' \<and> buffered B'"
  using assms open_buffered [OF assms(1,3)] open_buffered [OF assms(2,4)]
  by (auto simp: sd_login_def split: bind_split_asm option.split_asm if_split_asm)

lemma step_buffered:
  assumes S: "session_ok inp peer A B w" and b: "buffered A" "buffered B"
    and init: "TcpRecvBufInitSize (sd_cf A) \<noteq> 0" "TcpRecvBufInitSize (sd_cf B) \<noteq> 0"
    and step: "sess_step os inp peer (A, B, w) (A', B', w')"
  shows "buffered A' \<and> buffered B'"
proof -
  have ok: "side_ok A" "side_ok B" using S by (simp_all add: session_ok_def)
  have closed: "buffered (X\<lparr>sd_conn := pc_Close r e (sd_conn X)\<rparr>)" for X r e by (simp add: buffered_def pc_Close_def pc_IsClosed_def)
  from step show ?thesis
    by cases (use b ok in \<open>auto dest: poll_buffered send_buffered login_buffered [OF ok init] simp: closed\<close>)
qed

lemma reach_buffered:
  assumes d: "duplex os inp peer" and confs: "session_confs cfA cfB"
    and init: "TcpRecvBufInitSize cfA \<noteq> 0" "TcpRecvBufInitSize cfB \<noteq> 0"
    and reach: "(sess_step os inp peer)\<^sup>*\<^sup>* (side_new cfA, side_new cfB, w0) (A, B, w)"
  shows "session_ok inp peer A B w \<and> buffered A \<and> buffered B"
proof -
  have "buffered A \<and> buffered B"
    using reach
  proof (induction "(A, B, w)" arbitrary: A B w rule: rtranclp_induct)
    case base
    then show ?case by (simp add: buffered_def side_new_def pc_IsClosed_def PTCPConnection_def)
  next
    case (step y)
    obtain A1 B1 w1 where y: "y = (A1, B1, w1)" by (cases y)
    have r: "(sess_step os inp peer)\<^sup>*\<^sup>* (side_new cfA, side_new cfB, w0) (A1, B1, w1)" using step(1) y by simp
    have S: "session_ok inp peer A1 B1 w1" by (rule duplex.reach_session [OF d new_session [OF confs] r])
    have "sd_cf A1 = cfA" "sd_cf B1 = cfB" using sess_step_conf [OF r] by (simp_all add: side_new_def)
    then show ?case using step_buffered [OF S] step(3) [OF y] init step(2) y by metis
  qed
  then show ?thesis using duplex.reach_session [OF d new_session [OF confs] reach] by simp
qed

section \<open>Properties\<close>

text \<open>C3: an open connection makes progress. In any state a session reaches in which both sides are open and one side has handed
  all its messages to the network, it is enough that the other side polls: after as many polls as there are bytes under way
  and messages, whatever its heartbeats and receive calls do, either it has received every message or a failure of its
  connection has closed it; no receive buffer is ever too small or too full for the message at its front.
\<close>

theorem session_delivers:
  assumes d: "duplex os inp peer" and confs: "session_confs cfA cfB"
    and init: "TcpRecvBufInitSize cfA \<noteq> 0" "TcpRecvBufInitSize cfB \<noteq> 0"
    and reach: "(sess_step os inp peer)\<^sup>*\<^sup>* (side_new cfA, side_new cfB, w0) (A, B, w)" and sides: "X = B \<and> Y = A \<or> X = A \<and> Y = B"
    and live: "sd_open X" "sd_open Y" and sent: "pc_q (sd_conn Y) = Some q" "unsent q = []"
    and del: "delivers os inp (pc_sockfd (sd_conn X))"
    and polls: "length (inp (pc_sockfd (sd_conn X)) w) + length (sd_written Y) < length ts"
  shows "\<exists>X' w'. sd_polls os ts X w = Some (X', w') \<and> (sd_open X' \<longrightarrow> sd_received X' = sd_written Y)"
proof -
  have S: "session_ok inp peer A B w" and buf: "buffered A" "buffered B"
    using reach_buffered [OF d confs init reach] by simp_all
  have "session_ok inp peer B A w" by (rule session_sym [OF S duplex.peer_peer [OF d]])
  then have S: "session_ok inp peer X Y w" and "buffered X" using sides S buf by auto
  then have "has_buf (sd_cf X) (sd_conn X)" using live(1) by (simp add: buffered_def)
  moreover have "length (inp (pc_sockfd (sd_conn X)) w) + (length (sd_written Y) - length (sd_received X)) < length ts" using polls by arith
  ultimately show ?thesis by (intro duplex.polls_deliver [OF d S del live(2) sent]) blast
qed

text \<open>The client's message is resent at the second login, and the server polls.\<close>

lemma pipe_delivers: "delivers pipe_os pipe_inp s"
  by (auto simp: delivers_def pipe_os_def pipe_recv_def Let_def)

lemma pipe_resumed:
  "map_option (\<lambda>(A, B, w). (sd_written A, sd_open A, sd_open B, pc_sockfd (sd_conn B), map_option unsent (pc_q (sd_conn A)), length (pipe_inp 5 w)))
     (Option.bind pipe_lost (\<lambda>(A, B). pipe_login A B)) = Some ([(7, [1, 2, 3])], True, True, 5, Some [], 16)"
  by code_simp

lemma pipe_stays_open:
  "map_option (\<lambda>(X, w). sd_open X)
     (Option.bind (Option.bind pipe_lost (\<lambda>(A, B). pipe_login A B)) (\<lambda>(A, B, w). sd_polls pipe_os (replicate 18 1) B w)) = Some True"
  by code_simp

theorem session_delivers_witness:
  "\<exists>A B A1 B1 w1 X' w'. pipe_lost = Some (A, B) \<and> pipe_login A B = Some (A1, B1, w1) \<and>
     sd_polls pipe_os (replicate 18 1) B1 w1 = Some (X', w') \<and> sd_open X' \<and> sd_received X' = [(7, [1, 2, 3])]"
proof -
  obtain A B A1 B1 w1 q where l: "pipe_lost = Some (A, B)" "pipe_login A B = Some (A1, B1, w1)"
    and st: "sd_written A1 = [(7, [1, 2, 3])]" "sd_open A1" "sd_open B1" "pc_sockfd (sd_conn B1) = 5" "pc_q (sd_conn A1) = Some q" "unsent q = []"
      "length (pipe_inp 5 w1) = 16"
    using pipe_resumed by (auto split: bind_split_asm)
  note r = pipe_lost_reach [OF l(1)]
  have reach: "pipe_reach (A1, B1, w1)" using r pipe_login_step [OF l(2)] by (blast intro: rtranclp.rtrancl_into_rtrancl)
  have init: "TcpRecvBufInitSize little_conf \<noteq> 0" "TcpRecvBufInitSize sample_conf \<noteq> 0" by (simp_all add: little_conf_def sample_conf_def)
  have "\<exists>X' w'. sd_polls pipe_os (replicate 18 1) B1 w1 = Some (X', w') \<and> (sd_open X' \<longrightarrow> sd_received X' = sd_written A1)"
    by (rule session_delivers [OF pipe.duplex_axioms pipe_confs init reach _ st(3,2,5,6) pipe_delivers]) (use st in simp_all)
  then obtain X' w' where X': "sd_polls pipe_os (replicate 18 1) B1 w1 = Some (X', w')" "sd_open X' \<longrightarrow> sd_received X' = [(7, [1, 2, 3])]"
    unfolding st(1) by blast
  have "sd_open X'" using pipe_stays_open unfolding l(1) bind.bind_lunit prod.case l(2) X'(1) by simp
  then show ?thesis using l X' by blast
qed

end
