(* ===== verification/Spsc_Concurrent.thy ===== *)
theory Spsc_Concurrent
  imports Spsc_Varq
begin

text \<open>
  The shared-memory queue with its single accesses interleaved. The writing thread runs \<open>Alloc\<close>, the
  application's stores into the message, and \<open>Push\<close>; the reading thread runs \<open>Front\<close> or \<open>WaitForData\<close>, the
  application's loads, and \<open>Pop\<close>. Every load or store of a shared variable is one step, and so is every byte
  the applications copy; the local computation behind it belongs to the step. The control state of a
  thread says which access is next and holds its local variables. Steps of the two threads alternate
  arbitrarily; memory is sequentially consistent.
\<close>

section \<open>The two threads\<close>

type_synonym msg_in = "u16 \<times> u8 list"

datatype w_pc =
    W_Idle
  | W_Load u16 "u8 list"
  | W_Refresh u16 "u8 list" u32
  | W_Marker u16 "u8 list" u32
  | W_Rewind u16 "u8 list" u32
  | W_Size u16 "u8 list" u32
  | W_Type u16 "u8 list" u32
  | W_Byte u16 "u8 list" u32 nat
  | W_PushLoad u16 "u8 list"
  | W_PushSize u16 "u8 list" u32
  | W_PushStore u16 "u8 list" u32

datatype r_pc =
    R_Idle
  | R_Load
  | R_LoadRead u32
  | R_Size u32 u32
  | R_Skip u32 u32
  | R_MsgSize nat
  | R_MsgType nat nat
  | R_MsgByte nat u16 nat "u8 list"
  | R_Got u16 "u8 list"
  | R_PopLoad u16 "u8 list"
  | R_PopSize u16 "u8 list" u32
  | R_PopStore u16 "u8 list" u32
  | R_WaitLoad
  | R_WaitRead u32
  | R_Wait u32

record cring =
  cr_q :: varq
  cr_w :: w_pc
  cr_r :: r_pc
  cr_sent :: "msg_in list"
  cr_recv :: "msg_in list"

text \<open>The second half of \<open>Alloc\<close> starts with the marker if the message does not fit in the round.\<close>

definition w_size :: "u8 list \<Rightarrow> u16" where
  "w_size body = word_of_nat (length body) + 8"

definition w_rewind :: "u32 \<Rightarrow> u8 list \<Rightarrow> u32 \<Rightarrow> bool" where
  "w_rewind Bytes body w \<longleftrightarrow> padding_sz Bytes w < blk_sz (w_size body)"

definition w_min_read_idx :: "u32 \<Rightarrow> u8 list \<Rightarrow> u32 \<Rightarrow> u32" where
  "w_min_read_idx Bytes body w =
     w + blk_sz (w_size body) + (if w_rewind Bytes body w then padding_sz Bytes w else 0) - SHM_BLK_CNT Bytes"

definition w_reserve :: "u32 \<Rightarrow> u16 \<Rightarrow> u8 list \<Rightarrow> u32 \<Rightarrow> w_pc" where
  "w_reserve Bytes mt body w = (if w_rewind Bytes body w then W_Marker mt body w else W_Size mt body w)"

text \<open>One step of the writing thread; \<open>x\<close> is the message it sends next when it is idle.\<close>

definition w_step :: "u32 \<Rightarrow> bool \<Rightarrow> msg_in \<Rightarrow> cring \<Rightarrow> cring option" where
  "w_step Bytes hl x s =
     (let q = cr_q s
      in case cr_w s of
        W_Idle \<Rightarrow> Some (s\<lparr>cr_w := W_Load (fst x) (snd x)\<rparr>)
      | W_Load mt body \<Rightarrow>
          (let w = vq_write_idx q
           in Some (s\<lparr>cr_w := if sdiff (vq_read_idx_cach q) (w_min_read_idx Bytes body w) < 0 then W_Refresh mt body w
                              else w_reserve Bytes mt body w\<rparr>))
      | W_Refresh mt body w \<Rightarrow>
          Some (s\<lparr>cr_q := q\<lparr>vq_read_idx_cach := vq_read_idx q\<rparr>,
                  cr_w := if sdiff (vq_read_idx q) (w_min_read_idx Bytes body w) < 0 then W_Idle else w_reserve Bytes mt body w\<rparr>)
      | W_Marker mt body w \<Rightarrow> do {
          b \<leftarrow> set_hdr_size (hdr_cell Bytes w) 0 (vq_blk q);
          Some (s\<lparr>cr_q := q\<lparr>vq_blk := b\<rparr>, cr_w := W_Rewind mt body (w + padding_sz Bytes w)\<rparr>)
        }
      | W_Rewind mt body w \<Rightarrow> Some (s\<lparr>cr_q := q\<lparr>vq_write_idx := w\<rparr>, cr_w := W_Size mt body w\<rparr>)
      | W_Size mt body w \<Rightarrow> do {
          b \<leftarrow> set_hdr_size (hdr_cell Bytes w) (w_size body) (vq_blk q);
          Some (s\<lparr>cr_q := q\<lparr>vq_blk := b\<rparr>, cr_w := W_Type mt body w\<rparr>)
        }
      | W_Type mt body w \<Rightarrow> do {
          h \<leftarrow> array_get (vq_blk q) (hdr_cell Bytes w);
          b \<leftarrow> array_set (vq_blk q) (hdr_cell Bytes w) (h\<lparr>hdr_msg_type := mt\<rparr>);
          Some (s\<lparr>cr_q := q\<lparr>vq_blk := b\<rparr>, cr_w := W_Byte mt body w 0\<rparr>)
        }
      | W_Byte mt body w k \<Rightarrow>
          if k < length body
          then do {
            b \<leftarrow> memcpy_cells hl (8 * Suc (hdr_cell Bytes w) + k) [body ! k] (vq_blk q);
            Some (s\<lparr>cr_q := q\<lparr>vq_blk := b\<rparr>, cr_w := W_Byte mt body w (Suc k)\<rparr>)
          }
          else Some (s\<lparr>cr_w := W_PushLoad mt body\<rparr>)
      | W_PushLoad mt body \<Rightarrow> Some (s\<lparr>cr_w := W_PushSize mt body (vq_write_idx q)\<rparr>)
      | W_PushSize mt body w \<Rightarrow> do {
          sz \<leftarrow> get_hdr_size (hdr_cell Bytes w) (vq_blk q);
          Some (s\<lparr>cr_w := W_PushStore mt body (w + blk_sz sz)\<rparr>)
        }
      | W_PushStore mt body w \<Rightarrow>
          Some (s\<lparr>cr_q := q\<lparr>vq_write_idx := w\<rparr>, cr_w := W_Idle, cr_sent := cr_sent s @ [(mt, body)]\<rparr>))"

text \<open>
  One step of the reading thread. When it is idle, \<open>b\<close> chooses between \<open>WaitForData\<close> and \<open>Front\<close>; when it
  has read a message, whether it pops it or leaves it for the next \<open>Front\<close>. A thread that waits
  is blocked while the value it waits on has not changed.
\<close>

definition r_step :: "u32 \<Rightarrow> bool \<Rightarrow> bool \<Rightarrow> cring \<Rightarrow> cring option" where
  "r_step Bytes hl b s =
     (let q = cr_q s
      in case cr_r s of
        R_Idle \<Rightarrow> Some (s\<lparr>cr_r := if b then R_WaitLoad else R_Load\<rparr>)
      | R_Load \<Rightarrow> Some (s\<lparr>cr_r := R_LoadRead (vq_write_idx q)\<rparr>)
      | R_LoadRead w \<Rightarrow> Some (s\<lparr>cr_r := if vq_read_idx q = w then R_Idle else R_Size w (vq_read_idx q)\<rparr>)
      | R_Size w r \<Rightarrow> do {
          sz \<leftarrow> get_hdr_size (hdr_cell Bytes r) (vq_blk q);
          Some (s\<lparr>cr_r := if sz = 0 then R_Skip w (r + padding_sz Bytes r) else R_MsgSize (hdr_cell Bytes r)\<rparr>)
        }
      | R_Skip w r \<Rightarrow>
          Some (s\<lparr>cr_q := q\<lparr>vq_read_idx := r\<rparr>, cr_r := if r = w then R_Idle else R_MsgSize (hdr_cell Bytes r)\<rparr>)
      | R_MsgSize i \<Rightarrow> do {
          sz \<leftarrow> get_hdr_size i (vq_blk q);
          Some (s\<lparr>cr_r := R_MsgType i (unat sz - 8)\<rparr>)
        }
      | R_MsgType i n \<Rightarrow> do {
          h \<leftarrow> array_get (vq_blk q) i;
          Some (s\<lparr>cr_r := R_MsgByte i (hdr_msg_type h) n []\<rparr>)
        }
      | R_MsgByte i mt n acc \<Rightarrow>
          if length acc < n
          then do {
            v \<leftarrow> array_get (cells_bytes hl (vq_blk q)) (8 * Suc i + length acc);
            Some (s\<lparr>cr_r := R_MsgByte i mt n (acc @ [v])\<rparr>)
          }
          else Some (s\<lparr>cr_r := R_Got mt acc\<rparr>)
      | R_Got mt body \<Rightarrow> Some (s\<lparr>cr_r := if b then R_PopLoad mt body else R_Idle\<rparr>)
      | R_PopLoad mt body \<Rightarrow> Some (s\<lparr>cr_r := R_PopSize mt body (vq_read_idx q)\<rparr>)
      | R_PopSize mt body r \<Rightarrow> do {
          sz \<leftarrow> get_hdr_size (hdr_cell Bytes r) (vq_blk q);
          Some (s\<lparr>cr_r := R_PopStore mt body (r + blk_sz sz)\<rparr>)
        }
      | R_PopStore mt body r \<Rightarrow>
          Some (s\<lparr>cr_q := q\<lparr>vq_read_idx := r\<rparr>, cr_r := R_Idle, cr_recv := cr_recv s @ [(mt, body)]\<rparr>)
      | R_WaitLoad \<Rightarrow> Some (s\<lparr>cr_r := R_WaitRead (vq_write_idx q)\<rparr>)
      | R_WaitRead w \<Rightarrow> Some (s\<lparr>cr_r := if w = vq_read_idx q then R_Wait w else R_Idle\<rparr>)
      | R_Wait w \<Rightarrow> Some (if vq_write_idx q = w then s else s\<lparr>cr_r := R_WaitLoad\<rparr>))"

definition cring_new :: "u32 \<Rightarrow> cring" where
  "cring_new Bytes = \<lparr>cr_q = spsc_zeroed Bytes, cr_w = W_Idle, cr_r = R_Idle, cr_sent = [], cr_recv = []\<rparr>"

inductive conc_step :: "u32 \<Rightarrow> bool \<Rightarrow> cring \<Rightarrow> cring \<Rightarrow> bool" for Bytes hl where
  writer: "length (snd x) + 8 < 65536 \<Longrightarrow> w_step Bytes hl x s = Some s' \<Longrightarrow> conc_step Bytes hl s s'"
| reader: "r_step Bytes hl b s = Some s' \<Longrightarrow> conc_step Bytes hl s s'"

text \<open>The cells of the array that the next step of a thread accesses, and whether it stores there.\<close>

definition w_cells :: "u32 \<Rightarrow> cring \<Rightarrow> nat list" where
  "w_cells Bytes s =
     (case cr_w s of
        W_Marker mt body w \<Rightarrow> [hdr_cell Bytes w] | W_Size mt body w \<Rightarrow> [hdr_cell Bytes w] | W_Type mt body w \<Rightarrow> [hdr_cell Bytes w]
      | W_Byte mt body w k \<Rightarrow> if k < length body then [(8 * Suc (hdr_cell Bytes w) + k) div 8] else []
      | _ \<Rightarrow> [])"

definition r_cells :: "u32 \<Rightarrow> cring \<Rightarrow> nat list" where
  "r_cells Bytes s =
     (case cr_r s of
        R_Size w r \<Rightarrow> [hdr_cell Bytes r] | R_MsgSize i \<Rightarrow> [i] | R_MsgType i n \<Rightarrow> [i]
      | R_MsgByte i mt n acc \<Rightarrow> if length acc < n then [(8 * Suc i + length acc) div 8] else []
      | R_PopSize mt body r \<Rightarrow> [hdr_cell Bytes r]
      | _ \<Rightarrow> [])"

section \<open>The invariant\<close>

text \<open>
  The writer's part, for the published write position \<open>W\<close> and the read position \<open>C\<close> it last saw:
  which blocks behind \<open>W\<close> it has reserved, and what it has stored there.
\<close>

definition reserved :: "nat \<Rightarrow> nat \<Rightarrow> nat \<Rightarrow> nat \<Rightarrow> bool" where
  "reserved N W C n \<longleftrightarrow> W mod N + n \<le> N \<and> W + n \<le> C + N"

definition w_room :: "nat \<Rightarrow> nat \<Rightarrow> nat \<Rightarrow> u8 list \<Rightarrow> bool" where
  "w_room N W C body \<longleftrightarrow>
     (let n = blocks 64 (length body + 8) in N - W mod N < n \<and> next_lap N W + n \<le> C + N)"

definition written :: "bool \<Rightarrow> msg_header list \<Rightarrow> nat \<Rightarrow> u16 \<Rightarrow> u8 list \<Rightarrow> nat \<Rightarrow> bool" where
  "written hl cs i mt body k \<longleftrightarrow>
     hdr_size (cs ! i) = w_size body \<and> hdr_msg_type (cs ! i) = mt \<and> k \<le> length body \<and>
     segment (8 * Suc i) (8 * Suc i + k) (cells_bytes hl cs) = take k body"

definition w_inv :: "nat \<Rightarrow> bool \<Rightarrow> msg_header list \<Rightarrow> nat \<Rightarrow> nat \<Rightarrow> w_pc \<Rightarrow> bool" where
  "w_inv N hl cs W C p \<longleftrightarrow>
     (let blks = (\<lambda>body. blocks 64 (length body + 8)); i = 8 * (W mod N); short = (\<lambda>body. length body + 8 < 65536)
      in case p of
        W_Idle \<Rightarrow> True
      | W_Load mt body \<Rightarrow> short body
      | W_Refresh mt body w \<Rightarrow> short body \<and> w = word_of_nat W
      | W_Marker mt body w \<Rightarrow> short body \<and> w = word_of_nat W \<and> w_room N W C body
      | W_Rewind mt body w \<Rightarrow> short body \<and> w = word_of_nat (next_lap N W) \<and> w_room N W C body \<and> hdr_size (cs ! i) = 0
      | W_Size mt body w \<Rightarrow> short body \<and> w = word_of_nat W \<and> reserved N W C (blks body)
      | W_Type mt body w \<Rightarrow> short body \<and> w = word_of_nat W \<and> reserved N W C (blks body) \<and> hdr_size (cs ! i) = w_size body
      | W_Byte mt body w k \<Rightarrow> short body \<and> w = word_of_nat W \<and> reserved N W C (blks body) \<and> written hl cs i mt body k
      | W_PushLoad mt body \<Rightarrow> short body \<and> reserved N W C (blks body) \<and> written hl cs i mt body (length body)
      | W_PushSize mt body w \<Rightarrow> short body \<and> w = word_of_nat W \<and> reserved N W C (blks body) \<and> written hl cs i mt body (length body)
      | W_PushStore mt body w \<Rightarrow> short body \<and> w = word_of_nat (W + blks body) \<and> reserved N W C (blks body) \<and>
          written hl cs i mt body (length body))"

text \<open>
  The reader's part, for the read position \<open>R\<close> and the messages \<open>ms\<close> that are published; \<open>ahead L\<close> is a
  write position that it loaded, which may be old.
\<close>

definition ahead :: "nat \<Rightarrow> msg_header list \<Rightarrow> nat \<Rightarrow> nat \<Rightarrow> nat \<Rightarrow> bool" where
  "ahead N cs R W L \<longleftrightarrow> L \<le> W \<and> (\<exists>ms. ring_parse N cs R L = Some ms)"

definition at_msg :: "nat \<Rightarrow> msg_header list \<Rightarrow> nat \<Rightarrow> nat \<Rightarrow> bool" where
  "at_msg N cs R W \<longleftrightarrow> R < W \<and> hdr_size (cs ! (8 * (R mod N))) \<noteq> 0"

definition r_inv :: "nat \<Rightarrow> bool \<Rightarrow> msg_header list \<Rightarrow> nat \<Rightarrow> nat \<Rightarrow> msg_in list \<Rightarrow> r_pc \<Rightarrow> bool" where
  "r_inv N hl cs W R ps p \<longleftrightarrow>
     (let i0 = 8 * (R mod N)
      in case p of
        R_LoadRead w \<Rightarrow> \<exists>L. w = word_of_nat L \<and> ahead N cs R W L
      | R_Size w r \<Rightarrow> \<exists>L. w = word_of_nat L \<and> ahead N cs R W L \<and> R < L \<and> r = word_of_nat R
      | R_Skip w r \<Rightarrow> \<exists>L. w = word_of_nat L \<and> ahead N cs R W L \<and> R < L \<and> r = word_of_nat (next_lap N R) \<and> hdr_size (cs ! i0) = 0
      | R_MsgSize i \<Rightarrow> at_msg N cs R W \<and> i = i0
      | R_MsgType i n \<Rightarrow> at_msg N cs R W \<and> i = i0 \<and> n = length (snd (hd ps))
      | R_MsgByte i mt n acc \<Rightarrow> at_msg N cs R W \<and> i = i0 \<and> n = length (snd (hd ps)) \<and> mt = fst (hd ps) \<and>
          length acc \<le> n \<and> acc = take (length acc) (snd (hd ps))
      | R_Got mt body \<Rightarrow> at_msg N cs R W \<and> (mt, body) = hd ps
      | R_PopLoad mt body \<Rightarrow> at_msg N cs R W \<and> (mt, body) = hd ps
      | R_PopSize mt body r \<Rightarrow> at_msg N cs R W \<and> (mt, body) = hd ps \<and> r = word_of_nat R
      | R_PopStore mt body r \<Rightarrow> at_msg N cs R W \<and> (mt, body) = hd ps \<and>
          r = word_of_nat (R + blocks 64 (unat (hdr_size (cs ! i0))))
      | R_Wait w \<Rightarrow> w = word_of_nat R
      | _ \<Rightarrow> True)"

definition conc_inv :: "u32 \<Rightarrow> bool \<Rightarrow> cring \<Rightarrow> nat \<Rightarrow> nat \<Rightarrow> nat \<Rightarrow> msg_header list list \<Rightarrow> msg_in list \<Rightarrow> bool" where
  "conc_inv Bytes hl s W R C ms ps \<longleftrightarrow>
     spsc_rel Bytes (cr_q s) W R C ms \<and> cr_sent s = cr_recv s @ ps \<and> list_all2 (spsc_carries hl) ps ms \<and>
     w_inv (ring_size Bytes) hl (vq_blk (cr_q s)) W C (cr_w s) \<and> r_inv (ring_size Bytes) hl (vq_blk (cr_q s)) W R ps (cr_r s)"

section \<open>Steps of the writer\<close>

text \<open>What the reader knows is stable while the writer leaves the published blocks alone and publishes more.\<close>

lemma r_inv_stable:
  assumes "r_inv N hl cs W R ps p" and "agree N R W cs ds" and "W \<le> W'" and "at_msg N cs R W \<Longrightarrow> ps \<noteq> []"
  shows "r_inv N hl ds W' R (ps @ qs) p"
proof -
  have a: "ahead N ds R W' L" if "ahead N cs R W L" for L
    using that agree_parse [OF assms(2), of L] assms(3) by (auto simp: ahead_def)
  have m: "at_msg N ds R W'" "hd (ps @ qs) = hd ps" if "at_msg N cs R W"
    using that agree_hdr [OF assms(2)] assms(3,4) by (auto simp: at_msg_def hd_append)
  have h: "hdr_size (ds ! (8 * (R mod N))) = hdr_size (cs ! (8 * (R mod N)))" if "at_msg N cs R W \<or> R < L \<and> ahead N cs R W L" for L
    using that agree_hdr [OF assms(2)] by (auto simp: at_msg_def ahead_def)
  show ?thesis using assms(1) unfolding r_inv_def Let_def
    by (cases p; use a m h in \<open>fastforce\<close>)
qed

lemma unat_w_size: "length body + 8 < 65536 \<Longrightarrow> unat (w_size body) = length body + 8"
  unfolding w_size_def by (subst unat_size_plus_header) (simp_all add: unat_exact)

lemma w_rewind_iff:
  assumes "shm_conf Bytes" and "length body + 8 < 65536"
  shows "w_rewind Bytes body (word_of_nat W) \<longleftrightarrow> ring_size Bytes - W mod ring_size Bytes < blocks 64 (length body + 8)"
  by (simp only: w_rewind_def word_less_nat_alt padding_sz_of_nat(2) [OF assms(1)] unat_blk_sz unat_w_size [OF assms(2)])

lemma w_test_iff:
  assumes conf: "shm_conf Bytes" and short: "length body + 8 < 65536" and C: "C \<le> W" "W \<le> C + ring_size Bytes"
  shows "sdiff (word_of_nat C) (w_min_read_idx Bytes body (word_of_nat W)) < 0 \<longleftrightarrow>
    C + ring_size Bytes < W + alloc_span (ring_size Bytes) W (blocks 64 (length body + 8))"
  unfolding w_min_read_idx_def w_rewind_def by (rule min_read_idx_test [OF conf C]) (simp add: unat_w_size [OF short])

lemma w_reserve_inv:
  assumes conf: "shm_conf Bytes" and short: "length body + 8 < 65536"
    and room: "W + alloc_span (ring_size Bytes) W (blocks 64 (length body + 8)) \<le> C + ring_size Bytes"
  shows "w_inv (ring_size Bytes) hl cs W C (w_reserve Bytes mt body (word_of_nat W))"
proof -
  let ?N = "ring_size Bytes"
  have lap: "W \<le> next_lap ?N W" using next_lap_bounds(1) [OF shm_confD(1) [OF conf], of W] by simp
  show ?thesis
  proof (cases "?N - W mod ?N < blocks 64 (length body + 8)")
    case True
    then have "next_lap ?N W + blocks 64 (length body + 8) \<le> C + ?N" using room lap by (simp only: alloc_span_def if_True)
    then show ?thesis using True short w_rewind_iff [OF conf short] by (simp add: w_reserve_def w_inv_def w_room_def)
  next
    case False
    then have "W mod ?N + blocks 64 (length body + 8) \<le> ?N" using mod_less_divisor [OF shm_confD(1) [OF conf], of W] by linarith
    moreover have "W + blocks 64 (length body + 8) \<le> C + ?N" using room False by (simp only: alloc_span_def if_False)
    ultimately show ?thesis using False short w_rewind_iff [OF conf short] by (simp add: w_reserve_def w_inv_def reserved_def)
  qed
qed

lemma conc_invD:
  assumes "conc_inv Bytes hl s W R C ms ps"
  shows "spsc_rel Bytes (cr_q s) W R C ms" and "cr_sent s = cr_recv s @ ps" and "list_all2 (spsc_carries hl) ps ms"
    and "w_inv (ring_size Bytes) hl (vq_blk (cr_q s)) W C (cr_w s)" and "r_inv (ring_size Bytes) hl (vq_blk (cr_q s)) W R ps (cr_r s)"
  using assms by (simp_all add: conc_inv_def)

lemma at_msg_pending:
  assumes "spsc_rel Bytes q W R C ms" and "at_msg (ring_size Bytes) (vq_blk q) R W" and "list_all2 (spsc_carries hl) ps ms"
  obtains p ps' m ms' where "ps = p # ps'" and "ms = m # ms'" and "spsc_carries hl p m" and "list_all2 (spsc_carries hl) ps' ms'"
    and "m = msg_at (8 * (R mod ring_size Bytes)) (vq_blk q)"
proof -
  have "\<exists>ms'. ms = msg_at (8 * (R mod ring_size Bytes)) (vq_blk q) # ms'"
    using ring_parse_msgD(4) [OF spsc_relD(8) [OF assms(1)] _ refl] assms(2) by (auto simp: at_msg_def)
  then show ?thesis using that assms(3) by (auto simp: list_all2_Cons2)
qed

text \<open>A step of the writer that leaves the published messages alone and may publish \<open>qs\<close>.\<close>

lemma conc_writer:
  assumes I: "conc_inv Bytes hl s W R C ms ps" and rel: "spsc_rel Bytes q' W' R C' (ms @ xs)"
    and agree: "agree (ring_size Bytes) R W (vq_blk (cr_q s)) (vq_blk q')" and W: "W \<le> W'"
    and new: "list_all2 (spsc_carries hl) qs xs" and w: "w_inv (ring_size Bytes) hl (vq_blk q') W' C' p"
    and s': "s' = s\<lparr>cr_q := q', cr_w := p, cr_sent := cr_sent s @ qs\<rparr>"
  shows "conc_inv Bytes hl s' W' R C' (ms @ xs) (ps @ qs)"
proof -
  note D = conc_invD [OF I]
  have "r_inv (ring_size Bytes) hl (vq_blk q') W' R (ps @ qs) (cr_r s)"
    by (rule r_inv_stable [OF D(5) agree W]) (use at_msg_pending [OF D(1) _ D(3)] in blast)
  then show ?thesis using D(2,3) rel new w by (simp add: s' conc_inv_def list_all2_appendI)
qed

lemma conc_writer_pc:
  assumes I: "conc_inv Bytes hl s W R C ms ps" and w: "w_inv (ring_size Bytes) hl (vq_blk (cr_q s)) W C p"
  shows "conc_inv Bytes hl (s\<lparr>cr_w := p\<rparr>) W R C ms ps"
  using I w by (simp add: conc_inv_def)

text \<open>A store into the reserved blocks.\<close>

lemma conc_store:
  assumes I: "conc_inv Bytes hl s W R C ms ps" and res: "reserved (ring_size Bytes) W C n"
    and len: "length b = 8 * ring_size Bytes"
    and keep: "\<And>k. k < 8 * ring_size Bytes \<Longrightarrow> k < 8 * (W mod ring_size Bytes) \<or> 8 * (W mod ring_size Bytes + n) \<le> k \<Longrightarrow>
      b ! k = vq_blk (cr_q s) ! k"
    and w: "w_inv (ring_size Bytes) hl b W C p"
  shows "conc_inv Bytes hl (s\<lparr>cr_q := (cr_q s)\<lparr>vq_blk := b\<rparr>, cr_w := p\<rparr>) W R C ms ps"
proof -
  note D = conc_invD [OF I] and E = spsc_relD [OF conc_invD(1) [OF I]]
  have a: "agree (ring_size Bytes) R W (vq_blk (cr_q s)) b"
    by (rule free_write_agree [OF E(7) len _ _ keep]) (use res E(4) in \<open>auto simp: reserved_def\<close>)
  have rel: "spsc_rel Bytes ((cr_q s)\<lparr>vq_blk := b\<rparr>) W R C (ms @ [])"
    using D(1) len agree_parse [OF a, of W] by (simp add: spsc_rel_def)
  have "conc_inv Bytes hl (s\<lparr>cr_q := (cr_q s)\<lparr>vq_blk := b\<rparr>, cr_w := p, cr_sent := cr_sent s @ []\<rparr>) W R C (ms @ []) (ps @ [])"
    by (rule conc_writer [OF I rel _ _ _ _ refl]) (use a w in simp_all)
  then show ?thesis by simp
qed

lemma spsc_cell:
  assumes "shm_conf Bytes" and "spsc_rel Bytes q W R C ms"
  shows "8 * (k mod ring_size Bytes) < length (vq_blk q)"
  using spsc_relD(7) [OF assms(2)] hdr_cell_less [OF assms(1)] by simp

lemma w_room_facts:
  assumes conf: "shm_conf Bytes" and room: "w_room (ring_size Bytes) W C body" and C: "C \<le> W"
  shows "W mod ring_size Bytes \<noteq> 0" and "next_lap (ring_size Bytes) W \<le> C + ring_size Bytes"
    and "reserved (ring_size Bytes) W C 1"
    and "reserved (ring_size Bytes) (next_lap (ring_size Bytes) W) C (blocks 64 (length body + 8))"
proof -
  let ?N = "ring_size Bytes" and ?n = "blocks 64 (length body + 8)"
  have N: "0 < ?N" by (rule shm_confD(1) [OF conf])
  have r: "next_lap ?N W + ?n \<le> C + ?N" "0 < ?n" using room by (simp_all add: w_room_def Let_def)
  note lap = next_lap_bounds(1) [OF N, of W]
  show "W mod ?N \<noteq> 0" using r C by (intro notI) (simp add: next_lap_def)
  show "next_lap ?N W \<le> C + ?N" using r by simp
  show "reserved ?N W C 1" using mod_less_divisor [OF N, of W] r lap unfolding reserved_def by linarith
  have "?n \<le> ?N" using r(1) C lap by linarith
  then show "reserved ?N (next_lap ?N W) C ?n" using r(1) N by (simp add: reserved_def)
qed

lemma w_step_alloc:
  assumes conf: "shm_conf Bytes" and I: "conc_inv Bytes hl s W R C ms ps"
    and pc: "cr_w s = W_Load mt body \<or> cr_w s = W_Refresh mt body w"
  obtains s' C' where "w_step Bytes hl x s = Some s'" and "conc_inv Bytes hl s' W R C' ms ps"
  using pc
proof
  note D = conc_invD [OF I] and E = spsc_relD [OF conc_invD(1) [OF I]]
  assume p: "cr_w s = W_Load mt body"
  have short: "length body + 8 < 65536" using D(4) p by (simp add: w_inv_def)
  let ?p = "if sdiff (word_of_nat C) (w_min_read_idx Bytes body (word_of_nat W)) < 0 then W_Refresh mt body (word_of_nat W)
    else w_reserve Bytes mt body (word_of_nat W)"
  have "w_inv (ring_size Bytes) hl (vq_blk (cr_q s)) W C ?p"
    using w_reserve_inv [OF conf short, of W C] w_test_iff [OF conf short, of C W] E short by (simp add: not_less w_inv_def)
  note inv = conc_writer_pc [OF I this]
  show thesis by (rule that [OF _ inv]) (use p E(1,3) in \<open>simp add: w_step_def Let_def\<close>)
next
  note D = conc_invD [OF I] and E = spsc_relD [OF conc_invD(1) [OF I]]
  assume p: "cr_w s = W_Refresh mt body w"
  have short: "length body + 8 < 65536" and w: "w = word_of_nat W" using D(4) p by (simp_all add: w_inv_def)
  let ?q = "(cr_q s)\<lparr>vq_read_idx_cach := vq_read_idx (cr_q s)\<rparr>"
  let ?p = "if sdiff (word_of_nat R) (w_min_read_idx Bytes body (word_of_nat W)) < 0 then W_Idle else w_reserve Bytes mt body (word_of_nat W)"
  have WR: "W \<le> R + ring_size Bytes" using E(4,6) by linarith
  have "w_inv (ring_size Bytes) hl (vq_blk (cr_q s)) W R ?p"
    using w_reserve_inv [OF conf short, of W R] w_test_iff [OF conf short E(5) WR] by (simp add: not_less w_inv_def)
  moreover have "spsc_rel Bytes ?q W R R ms" using D(1) WR by (simp add: spsc_rel_def)
  ultimately have inv: "conc_inv Bytes hl (s\<lparr>cr_q := ?q, cr_w := ?p\<rparr>) W R R ms ps" using I by (simp add: conc_inv_def)
  show thesis by (rule that [OF _ inv]) (use p E(2) w in \<open>simp add: w_step_def Let_def\<close>)
qed

lemma w_step_rewind:
  assumes conf: "shm_conf Bytes" and I: "conc_inv Bytes hl s W R C ms ps"
    and pc: "cr_w s = W_Marker mt body w \<or> cr_w s = W_Rewind mt body w"
  obtains s' W' where "w_step Bytes hl x s = Some s'" and "conc_inv Bytes hl s' W' R C ms ps"
  using pc
proof
  note D = conc_invD [OF I] and E = spsc_relD [OF conc_invD(1) [OF I]]
  let ?N = "ring_size Bytes" and ?i = "8 * (W mod ring_size Bytes)"
  assume p: "cr_w s = W_Marker mt body w"
  have w: "length body + 8 < 65536" "w = word_of_nat W" "w_room ?N W C body" using D(4) p by (simp_all add: w_inv_def)
  note F = w_room_facts [OF conf w(3)]
  have i: "?i < length (vq_blk (cr_q s))" by (rule spsc_cell [OF conf D(1)])
  let ?b = "(vq_blk (cr_q s))[?i := (vq_blk (cr_q s) ! ?i)\<lparr>hdr_size := 0\<rparr>]"
  have inv: "conc_inv Bytes hl (s\<lparr>cr_q := (cr_q s)\<lparr>vq_blk := ?b\<rparr>, cr_w := W_Rewind mt body (word_of_nat (next_lap ?N W))\<rparr>) W R C ms ps"
    by (rule conc_store [OF I F(3)]) (use E i w in \<open>auto simp: w_inv_def\<close>)
  show thesis by (rule that [OF _ inv]) (use p i w(2) in \<open>simp add: w_step_def Let_def hdr_cell_of_nat [OF conf] index_next_lap [OF conf]\<close>)
next
  note D = conc_invD [OF I] and E = spsc_relD [OF conc_invD(1) [OF I]]
  let ?N = "ring_size Bytes" and ?i = "8 * (W mod ring_size Bytes)"
  assume p: "cr_w s = W_Rewind mt body w"
  have w: "length body + 8 < 65536" "w = word_of_nat (next_lap ?N W)" "w_room ?N W C body" "hdr_size (vq_blk (cr_q s) ! ?i) = 0"
    using D(4) p by (simp_all add: w_inv_def)
  have CW: "C \<le> W" using E by linarith
  note F = w_room_facts [OF conf w(3) CW]
  let ?q = "(cr_q s)\<lparr>vq_write_idx := w\<rparr>"
  have rel: "spsc_rel Bytes ?q (next_lap ?N W) R C (ms @ [])" using spsc_rel_rewind [OF conf D(1) F(2) w(4) F(1)] w(2) by simp
  have inv: "conc_inv Bytes hl (s\<lparr>cr_q := ?q, cr_w := W_Size mt body w, cr_sent := cr_sent s @ []\<rparr>) (next_lap ?N W) R C (ms @ []) (ps @ [])"
    by (rule conc_writer [OF I rel _ _ _ _ refl])
      (use F(4) w E(7) next_lap_bounds(1) [OF shm_confD(1) [OF conf], of W] in \<open>simp_all add: agree_refl w_inv_def\<close>)
  show thesis by (rule that [OF _ inv [simplified]]) (use p in \<open>simp add: w_step_def Let_def\<close>)
qed

lemma w_step_header:
  assumes conf: "shm_conf Bytes" and I: "conc_inv Bytes hl s W R C ms ps"
    and pc: "cr_w s = W_Size mt body w \<or> cr_w s = W_Type mt body w"
  obtains s' where "w_step Bytes hl x s = Some s'" and "conc_inv Bytes hl s' W R C ms ps"
proof -
  note D = conc_invD [OF I] and E = spsc_relD [OF conc_invD(1) [OF I]]
  let ?N = "ring_size Bytes" and ?i = "8 * (W mod ring_size Bytes)" and ?cs = "vq_blk (cr_q s)"
  have w: "length body + 8 < 65536" "w = word_of_nat W" "reserved ?N W C (blocks 64 (length body + 8))"
    using D(4) pc by (auto simp: w_inv_def)
  have i: "?i < length ?cs" by (rule spsc_cell [OF conf D(1)])
  have n: "0 < blocks 64 (length body + 8)" by simp
  have store: "conc_inv Bytes hl (s\<lparr>cr_q := (cr_q s)\<lparr>vq_blk := ?cs[?i := h]\<rparr>, cr_w := p\<rparr>) W R C ms ps"
    if "w_inv ?N hl (?cs[?i := h]) W C p" for h p
    by (rule conc_store [OF I w(3) _ _ that]) (use E n in \<open>auto intro!: nth_list_update_neq\<close>)
  from pc show thesis
  proof
    assume p: "cr_w s = W_Size mt body w"
    have "w_inv ?N hl (?cs[?i := (?cs ! ?i)\<lparr>hdr_size := w_size body\<rparr>]) W C (W_Type mt body w)"
      using w i by (simp add: w_inv_def)
    note inv = store [OF this]
    show thesis by (rule that [OF _ inv]) (use p i w(2) in \<open>simp add: w_step_def Let_def hdr_cell_of_nat [OF conf]\<close>)
  next
    assume p: "cr_w s = W_Type mt body w"
    then have "hdr_size (?cs ! ?i) = w_size body" using D(4) by (simp add: w_inv_def)
    then have "w_inv ?N hl (?cs[?i := (?cs ! ?i)\<lparr>hdr_msg_type := mt\<rparr>]) W C (W_Byte mt body w 0)"
      using w i by (simp add: w_inv_def written_def)
    note inv = store [OF this]
    show thesis by (rule that [OF _ inv]) (use p i w(2) in \<open>simp add: w_step_def Let_def hdr_cell_of_nat [OF conf]\<close>)
  qed
qed

lemma written_Suc:
  assumes W: "written hl cs i mt body k" and k: "k < length body" and i: "i < length cs" "8 * Suc i + length body \<le> 8 * length cs"
  obtains b where "memcpy_cells hl (8 * Suc i + k) [body ! k] cs = Some b" and "written hl b i mt body (Suc k)" and "length b = length cs"
    and "\<And>j. j < length cs \<Longrightarrow> j < i \<or> 8 * Suc i + length body \<le> 8 * j \<Longrightarrow> b ! j = cs ! j"
proof -
  let ?o = "8 * Suc i + k"
  obtain b where b: "memcpy_cells hl ?o [body ! k] cs = Some b"
    using memcpy_cells_total [of ?o "[body ! k]" cs hl] k i by auto
  have len: "length b = length cs" by (rule memcpy_cells_SomeD(1) [OF b])
  have keep: "b ! j = cs ! j" if "j < length cs" "j \<le> i \<or> 8 * Suc i + length body \<le> 8 * j" for j
    using memcpy_cells_nth_outside [OF b, of j] that k by auto
  have "segment (8 * Suc i) ?o (cells_bytes hl b) = take k body"
    using segment_memcpy_before [OF memcpy_cells_SomeD(2) [OF b], of ?o] W by (simp add: written_def)
  moreover have "segment ?o (Suc ?o) (cells_bytes hl b) = [body ! k]" using memcpy_cells_inside [OF b] by simp
  moreover have "segment (8 * Suc i) (Suc ?o) (cells_bytes hl b) =
      segment (8 * Suc i) ?o (cells_bytes hl b) @ segment ?o (Suc ?o) (cells_bytes hl b)"
    by (rule segment_append [symmetric]) simp_all
  ultimately have "segment (8 * Suc i) (8 * Suc i + Suc k) (cells_bytes hl b) = take (Suc k) body"
    using k by (simp add: take_Suc_conv_app_nth)
  then have "written hl b i mt body (Suc k)" using W k keep [of i] i(1) by (simp add: written_def)
  then show thesis by (rule that [OF b _ len]) (use keep in auto)
qed

lemma w_step_byte:
  assumes conf: "shm_conf Bytes" and I: "conc_inv Bytes hl s W R C ms ps" and pc: "cr_w s = W_Byte mt body w k"
  obtains s' where "w_step Bytes hl x s = Some s'" and "conc_inv Bytes hl s' W R C ms ps"
proof -
  note D = conc_invD [OF I] and E = spsc_relD [OF conc_invD(1) [OF I]]
  let ?N = "ring_size Bytes" and ?i = "8 * (W mod ring_size Bytes)" and ?cs = "vq_blk (cr_q s)" and ?n = "blocks 64 (length body + 8)"
  have w: "length body + 8 < 65536" "w = word_of_nat W" "reserved ?N W C ?n" "written hl ?cs ?i mt body k"
    using D(4) pc by (simp_all add: w_inv_def)
  have i: "?i < length ?cs" by (rule spsc_cell [OF conf D(1)])
  have n: "length body + 8 \<le> 64 * ?n" using blocks_bounds(1) [of 64 "length body + 8"] by simp
  have last: "8 * Suc ?i + length body \<le> 8 * (8 * (W mod ?N + ?n))" using n by simp
  have "8 * (W mod ?N + ?n) \<le> length ?cs" using w(3) E(7) by (auto simp: reserved_def)
  then have top: "8 * Suc ?i + length body \<le> 8 * length ?cs" using last by linarith
  show thesis
  proof (cases "k < length body")
    case True
    obtain b where b: "memcpy_cells hl (8 * Suc ?i + k) [body ! k] ?cs = Some b" "written hl b ?i mt body (Suc k)" "length b = length ?cs"
      and keep: "\<And>j. j < length ?cs \<Longrightarrow> j < ?i \<or> 8 * Suc ?i + length body \<le> 8 * j \<Longrightarrow> b ! j = ?cs ! j"
      by (rule written_Suc [OF w(4) True i top]) blast
    have inv: "conc_inv Bytes hl (s\<lparr>cr_q := (cr_q s)\<lparr>vq_blk := b\<rparr>, cr_w := W_Byte mt body w (Suc k)\<rparr>) W R C ms ps"
    proof (rule conc_store [OF I w(3)])
      show "length b = 8 * ?N" using b(3) E(7) by simp
      show "b ! j = ?cs ! j" if "j < 8 * ?N" "j < ?i \<or> 8 * (W mod ?N + ?n) \<le> j" for j
        by (rule keep) (use that E(7) last in auto)
      show "w_inv ?N hl b W C (W_Byte mt body w (Suc k))" using w b(2) by (simp add: w_inv_def)
    qed
    show thesis by (rule that [OF _ inv]) (use pc True b(1) w(2) in \<open>simp add: w_step_def Let_def hdr_cell_of_nat [OF conf]\<close>)
  next
    case False
    then have "k = length body" using w(4) by (simp add: written_def)
    then have inv: "conc_inv Bytes hl (s\<lparr>cr_w := W_PushLoad mt body\<rparr>) W R C ms ps"
      using w by (intro conc_writer_pc [OF I]) (simp add: w_inv_def)
    show thesis by (rule that [OF _ inv]) (use pc False in \<open>simp add: w_step_def Let_def\<close>)
  qed
qed

lemma w_step_push:
  assumes conf: "shm_conf Bytes" and I: "conc_inv Bytes hl s W R C ms ps"
    and pc: "cr_w s = W_PushLoad mt body \<or> cr_w s = W_PushSize mt body w \<or> cr_w s = W_PushStore mt body w"
  obtains s' W' ms' ps' where "w_step Bytes hl x s = Some s'" and "conc_inv Bytes hl s' W' R C ms' ps'"
proof -
  note D = conc_invD [OF I] and E = spsc_relD [OF conc_invD(1) [OF I]]
  let ?N = "ring_size Bytes" and ?i = "8 * (W mod ring_size Bytes)" and ?cs = "vq_blk (cr_q s)" and ?n = "blocks 64 (length body + 8)"
  have w: "length body + 8 < 65536" "reserved ?N W C ?n" "written hl ?cs ?i mt body (length body)"
    using D(4) pc by (auto simp: w_inv_def)
  have i: "?i < length ?cs" by (rule spsc_cell [OF conf D(1)])
  have sz: "w_size body = hdr_size (?cs ! ?i)" "unat (w_size body) = length body + 8" using w unat_w_size by (simp_all add: written_def)
  have blk: "blk_sz (w_size body) = word_of_nat ?n" by (simp add: blk_sz_def sz(2))
  from pc consider "cr_w s = W_PushLoad mt body" | "cr_w s = W_PushSize mt body w" | "cr_w s = W_PushStore mt body w" by blast
  then show thesis
  proof cases
    case 1
    have inv: "conc_inv Bytes hl (s\<lparr>cr_w := W_PushSize mt body (word_of_nat W)\<rparr>) W R C ms ps"
      using w by (intro conc_writer_pc [OF I]) (simp add: w_inv_def)
    show thesis by (rule that [OF _ inv]) (use 1 E(1) in \<open>simp add: w_step_def Let_def\<close>)
  next
    case 2
    then have W: "w = word_of_nat W" using D(4) by (simp add: w_inv_def)
    have inv: "conc_inv Bytes hl (s\<lparr>cr_w := W_PushStore mt body (word_of_nat (W + ?n))\<rparr>) W R C ms ps"
      using w by (intro conc_writer_pc [OF I]) (simp add: w_inv_def)
    show thesis by (rule that [OF _ inv]) (use 2 W i sz(1) blk in \<open>simp add: w_step_def Let_def hdr_cell_of_nat [OF conf]\<close>)
  next
    case 3
    then have W: "w = word_of_nat (W + ?n)" using D(4) by (simp add: w_inv_def)
    let ?q = "(cr_q s)\<lparr>vq_write_idx := w\<rparr>" and ?m = "msg_at ?i ?cs"
    have room: "W mod ?N + ?n \<le> ?N" "W + ?n \<le> C + ?N" using w(2) by (simp_all add: reserved_def)
    have n8: "blocks 8 (length body + 8) \<le> 8 * ?n"
      using blocks_bounds [of 64 "length body + 8"] blocks_bounds [of 8 "length body + 8"] by simp
    have rel: "spsc_rel Bytes ?q (W + ?n) R C (ms @ [?m])"
      using spsc_Push_rel(2) [OF conf D(1) sz(1) _ _ room] blk E(1) W sz(2) by simp
    have fit: "?i + blocks 8 (length body + 8) \<le> length ?cs" using n8 room(1) E(7) by linarith
    have "spsc_carries hl (mt, body) ?m"
      using msg_at_body [OF _ fit, of hl] sz w(3) by (simp add: spsc_carries_def written_def w_size_def)
    then have inv: "conc_inv Bytes hl (s\<lparr>cr_q := ?q, cr_w := W_Idle, cr_sent := cr_sent s @ [(mt, body)]\<rparr>) (W + ?n) R C (ms @ [?m]) (ps @ [(mt, body)])"
      by (intro conc_writer [OF I rel _ _ _ _ refl]) (use E(7) in \<open>simp_all add: agree_refl w_inv_def\<close>)
    show thesis by (rule that [OF _ inv]) (use 3 in \<open>simp add: w_step_def Let_def\<close>)
  qed
qed

lemma w_step_inv:
  assumes conf: "shm_conf Bytes" and I: "conc_inv Bytes hl s W R C ms ps" and x: "length (snd x) + 8 < 65536"
  obtains s' W' C' ms' ps' where "w_step Bytes hl x s = Some s'" and "conc_inv Bytes hl s' W' R C' ms' ps'"
proof (cases "cr_w s")
  case W_Idle
  have inv: "conc_inv Bytes hl (s\<lparr>cr_w := W_Load (fst x) (snd x)\<rparr>) W R C ms ps"
    using x by (intro conc_writer_pc [OF I]) (simp add: w_inv_def)
  show thesis by (rule that [OF _ inv]) (use W_Idle in \<open>simp add: w_step_def Let_def\<close>)
next
  case (W_Load mt body)
  then show thesis using w_step_alloc [OF conf I, of mt body] that by metis
next
  case (W_Refresh mt body w)
  then show thesis using w_step_alloc [OF conf I, of mt body w] that by metis
next
  case (W_Marker mt body w)
  then show thesis using w_step_rewind [OF conf I, of mt body w] that by metis
next
  case (W_Rewind mt body w)
  then show thesis using w_step_rewind [OF conf I, of mt body w] that by metis
next
  case (W_Size mt body w)
  then show thesis using w_step_header [OF conf I, of mt body w] that by metis
next
  case (W_Type mt body w)
  then show thesis using w_step_header [OF conf I, of mt body w] that by metis
next
  case (W_Byte mt body w k)
  then show thesis using w_step_byte [OF conf I, of mt body w k] that by metis
next
  case (W_PushLoad mt body)
  then show thesis using w_step_push [OF conf I, of mt body] that by metis
next
  case (W_PushSize mt body w)
  then show thesis using w_step_push [OF conf I, of mt body w] that by metis
next
  case (W_PushStore mt body w)
  then show thesis using w_step_push [OF conf I, of mt body w] that by metis
qed

end
