(* ===== verification/Os_Windows.thy ===== *)
theory Os_Windows
  imports Os_Layer
begin

text \<open>
  The Windows branches of \<^verbatim>\<open>os.h\<close>. As in \<open>Os_Layer\<close> the kernel is a parameter: \<open>win\<close> is the record of the
  Win32 and Winsock calls over a type \<open>'w\<close> of worlds. Handles are numbers (\<open>NULL\<close> is 0,
  \<open>INVALID_HANDLE_VALUE\<close> is - 1), and so are addresses (\<open>nullptr\<close> is 0). The process-wide
  \<open>MMapManager\<close>, which remembers the mapping handle of every mapped address, is a map from addresses to
  handles that the mapping functions take and return; its mutex makes \<open>add\<close> and \<open>remove\<close> single steps.

  The locale \<open>win_kernel\<close> states what the mapping functions rely on: a new handle and a new view differ from
  those that exist, and \<open>CloseHandle\<close> and \<open>UnmapViewOfFile\<close> give back the one they are called with.
  \<open>toy_win\<close> is a concrete kernel that has these laws and that reuses addresses.
\<close>

section \<open>The calls\<close>

datatype win_sockopt = WIN_REUSEADDR bool | WIN_NODELAY bool | WIN_RCVTIMEO u32 | WIN_SNDTIMEO u32

record 'w win =
  WSAStartup :: "u16 \<Rightarrow> 'w \<Rightarrow> int \<times> 'w"
  WSACleanup :: "'w \<Rightarrow> int \<times> 'w"
  WSAGetLastError :: "'w \<Rightarrow> int"
  ws_socket :: "'w \<Rightarrow> int \<times> 'w"
  ws_closesocket :: "int \<Rightarrow> 'w \<Rightarrow> int \<times> 'w"
  ws_send :: "int \<Rightarrow> u8 list \<Rightarrow> 'w \<Rightarrow> int \<times> 'w"
  ws_recv :: "int \<Rightarrow> nat \<Rightarrow> 'w \<Rightarrow> (int \<times> u8 list) \<times> 'w"
  ws_accept :: "int \<Rightarrow> 'w \<Rightarrow> (int \<times> sockaddr) \<times> 'w"
  ws_bind :: "int \<Rightarrow> sockaddr \<Rightarrow> 'w \<Rightarrow> int \<times> 'w"
  ws_listen :: "int \<Rightarrow> int \<Rightarrow> 'w \<Rightarrow> int \<times> 'w"
  ws_connect :: "int \<Rightarrow> sockaddr \<Rightarrow> 'w \<Rightarrow> int \<times> 'w"
  ws_setsockopt :: "int \<Rightarrow> win_sockopt \<Rightarrow> 'w \<Rightarrow> int \<times> 'w"
  ws_ioctl_FIONBIO :: "int \<Rightarrow> u32 \<Rightarrow> 'w \<Rightarrow> int \<times> 'w"
  WSARecv :: "int \<Rightarrow> (nat \<times> u32) list \<Rightarrow> 'w \<Rightarrow> (int \<times> u32 \<times> u8 list) \<times> 'w"
  CreateFileA :: "string \<Rightarrow> bool \<Rightarrow> 'w \<Rightarrow> int \<times> 'w"
  CreateFileMappingA :: "int \<Rightarrow> u32 \<Rightarrow> string option \<Rightarrow> 'w \<Rightarrow> int \<times> 'w"
  OpenFileMappingA :: "string \<Rightarrow> 'w \<Rightarrow> int \<times> 'w"
  MapViewOfFile :: "int \<Rightarrow> nat \<Rightarrow> 'w \<Rightarrow> nat \<times> 'w"
  UnmapViewOfFile :: "nat \<Rightarrow> 'w \<Rightarrow> bool \<times> 'w"
  CloseHandle :: "int \<Rightarrow> 'w \<Rightarrow> bool \<times> 'w"
  win_mkdir :: "string \<Rightarrow> 'w \<Rightarrow> int \<times> 'w"

definition INVALID_HANDLE_VALUE :: int where
  "INVALID_HANDLE_VALUE = - 1"

text \<open>\<open>WSAInitializer\<close>: its constructor and its destructor; \<open>MAKEWORD(2, 2)\<close> is 0x202.\<close>

definition wsa_init :: "'w win \<Rightarrow> 'w \<Rightarrow> 'w" where
  "wsa_init k w = snd (WSAStartup k 0x202 w)"

definition wsa_fini :: "'w win \<Rightarrow> 'w \<Rightarrow> 'w" where
  "wsa_fini k w = snd (WSACleanup k w)"

text \<open>\<open>INVALID_SOCKET\<close> is the largest \<open>SOCKET\<close>, written - 1 here.\<close>

definition INVALID_WIN_SOCKET :: int where
  "INVALID_WIN_SOCKET = - 1"

definition WSAEWOULDBLOCK :: int where
  "WSAEWOULDBLOCK = 10035"

definition win_get_last_error :: "'w win \<Rightarrow> 'w \<Rightarrow> int" where
  "win_get_last_error k w = WSAGetLastError k w"

definition win_socket :: "'w win \<Rightarrow> 'w \<Rightarrow> int \<times> 'w" where
  "win_socket k w = ws_socket k w"

definition win_close :: "'w win \<Rightarrow> int \<Rightarrow> 'w \<Rightarrow> int \<times> 'w" where
  "win_close k s w = ws_closesocket k s w"

definition win_send :: "'w win \<Rightarrow> int \<Rightarrow> u8 list \<Rightarrow> 'w \<Rightarrow> int \<times> 'w" where
  "win_send k s buf w = ws_send k s buf w"

definition win_recv :: "'w win \<Rightarrow> int \<Rightarrow> nat \<Rightarrow> nat \<Rightarrow> u8 list \<Rightarrow> 'w \<Rightarrow> (int \<times> u8 list \<times> 'w) option" where
  "win_recv k s off len buf w =
     (case ws_recv k s len w of
        ((ret, data), w') \<Rightarrow>
          if ret \<le> 0 then Some (ret, buf, w')
          else map_option (\<lambda>buf'. (ret, buf', w')) (memcpy off data buf))"

definition win_accept :: "'w win \<Rightarrow> int \<Rightarrow> 'w \<Rightarrow> (int \<times> sockaddr) \<times> 'w" where
  "win_accept k s w = ws_accept k s w"

definition win_bind :: "'w win \<Rightarrow> int \<Rightarrow> sockaddr \<Rightarrow> 'w \<Rightarrow> int \<times> 'w" where
  "win_bind k s addr w = ws_bind k s addr w"

definition win_listen :: "'w win \<Rightarrow> int \<Rightarrow> int \<Rightarrow> 'w \<Rightarrow> int \<times> 'w" where
  "win_listen k s backlog w = ws_listen k s backlog w"

definition win_connect :: "'w win \<Rightarrow> int \<Rightarrow> sockaddr \<Rightarrow> 'w \<Rightarrow> int \<times> 'w" where
  "win_connect k s addr w = ws_connect k s addr w"

definition win_setsockopt :: "'w win \<Rightarrow> int \<Rightarrow> win_sockopt \<Rightarrow> 'w \<Rightarrow> int \<times> 'w" where
  "win_setsockopt k s opt w = ws_setsockopt k s opt w"

definition win_set_nonblocking :: "'w win \<Rightarrow> int \<Rightarrow> 'w \<Rightarrow> int \<times> 'w" where
  "win_set_nonblocking k s w = ws_ioctl_FIONBIO k s 1 w"

definition win_set_blocking :: "'w win \<Rightarrow> int \<Rightarrow> 'w \<Rightarrow> int \<times> 'w" where
  "win_set_blocking k s w = ws_ioctl_FIONBIO k s 0 w"

text \<open>The timeout is passed in milliseconds, as a \<open>DWORD\<close>; \<open>opt\<close> is \<open>SO_RCVTIMEO\<close> or \<open>SO_SNDTIMEO\<close>.\<close>

definition win_set_timeout :: "'w win \<Rightarrow> int \<Rightarrow> (u32 \<Rightarrow> win_sockopt) \<Rightarrow> int \<Rightarrow> 'w \<Rightarrow> int \<times> 'w" where
  "win_set_timeout k s opt timeout_ms w = ws_setsockopt k s (opt (word_of_int timeout_ms)) w"

text \<open>Both builds ask for the same time: milliseconds here, seconds and microseconds under POSIX.\<close>

lemma timeouts_agree:
  assumes "0 \<le> t" and "t < 2 ^ 31"
  shows "uint (word_of_int t :: u32) = (t div 1000) * 1000 + (t mod 1000 * 1000) div 1000"
proof -
  have "uint (word_of_int t :: u32) = t" using assms by (simp add: unsigned_of_int take_bit_int_eq_self)
  then show ?thesis by simp
qed

definition win_tcp_mkdir :: "'w win \<Rightarrow> string \<Rightarrow> 'w \<Rightarrow> int \<times> 'w" where
  "win_tcp_mkdir k path w = win_mkdir k path w"

definition win_shm_unlink :: "'w win \<Rightarrow> string \<Rightarrow> 'w \<Rightarrow> int \<times> 'w" where
  "win_shm_unlink k filename w = (0, w)"

section \<open>Receiving into several buffers\<close>

text \<open>
  \<open>tcp_readv\<close> copies at most 16 of the given buffers into an array of \<open>WSABUF\<close>, whose lengths have 32
  bits, and returns the number of bytes as an \<open>int\<close>. \<open>WSARecv\<close> returns its own result, the count it stores in
  \<open>received\<close>, and the bytes it put into the buffers, in their order.
\<close>

record iovec =
  iov_base :: nat
  iov_len :: nat

definition win_bufs :: "iovec list \<Rightarrow> (nat \<times> u32) list" where
  "win_bufs vecs = map (\<lambda>v. (iov_base v, of_nat (iov_len v))) (take 16 vecs)"

definition win_readv :: "'w win \<Rightarrow> int \<Rightarrow> iovec list \<Rightarrow> 'w \<Rightarrow> (int \<times> u8 list) \<times> 'w" where
  "win_readv k s vecs w =
     (case WSARecv k s (win_bufs vecs) w of
        ((ret, received, data), w') \<Rightarrow>
          if ret = 0 then ((sint received, data), w')
          else if WSAGetLastError k w' = WSAEWOULDBLOCK then ((- 1, []), w')
          else ((- 1, []), w'))"

text \<open>
  What \<open>WSARecv\<close> promises on a stream socket: when it succeeds (with 0) it has stored as many bytes as it
  reports, taken from the front of what arrives, and no more than the buffers hold; when it fails it has
  taken nothing.
\<close>

definition wsarecv_ok :: "'w win \<Rightarrow> (int \<Rightarrow> 'w \<Rightarrow> u8 list) \<Rightarrow> bool" where
  "wsarecv_ok k inp \<longleftrightarrow>
     (\<forall>s bufs w. case WSARecv k s bufs w of ((ret, received, data), w') \<Rightarrow>
        inp s w = (if ret = 0 then data else []) @ inp s w' \<and>
        (ret = 0 \<longrightarrow> length data = unat received \<and> unat received \<le> (\<Sum>b\<leftarrow>bufs. unat (snd b))))"

lemma wsarecv_okD:
  assumes "wsarecv_ok k inp" and "WSARecv k s bufs w = ((ret, received, data), w')"
  shows "inp s w = (if ret = 0 then data else []) @ inp s w'"
    and "ret = 0 \<Longrightarrow> length data = unat received \<and> unat received \<le> (\<Sum>b\<leftarrow>bufs. unat (snd b))"
  using assms(1) [unfolded wsarecv_ok_def, THEN spec [of _ s], THEN spec [of _ bufs], THEN spec [of _ w]] assms(2)
  by simp_all

text \<open>The buffers passed on are never longer than those given.\<close>

lemma win_bufs_room: "(\<Sum>b\<leftarrow>win_bufs vecs. unat (snd b)) \<le> (\<Sum>v\<leftarrow>take 16 vecs. iov_len v)"
proof -
  have "unat (of_nat n :: u32) \<le> n" for n by (simp add: unsigned_of_nat take_bit_nat_less_eq_self)
  then show ?thesis by (simp add: win_bufs_def o_def sum_list_mono)
qed

lemma sum_list_take_le: "(\<Sum>v\<leftarrow>take n vs. f v) \<le> (\<Sum>v\<leftarrow>vs. f v :: nat)"
proof -
  have "(\<Sum>v\<leftarrow>vs. f v) = (\<Sum>v\<leftarrow>take n vs. f v) + (\<Sum>v\<leftarrow>drop n vs. f v)"
    by (simp flip: sum_list_append map_append)
  then show ?thesis by simp
qed

lemma win_readv_ok:
  assumes k: "wsarecv_ok k inp" and room: "(\<Sum>v\<leftarrow>take 16 vecs. iov_len v) < 2 ^ 31"
    and step: "win_readv k s vecs w = ((ret, data), w')"
  shows "- 1 \<le> ret" "ret \<le> int (\<Sum>v\<leftarrow>vecs. iov_len v)" "length data = nat ret" "inp s w = data @ inp s w'"
proof -
  obtain r received d w1 where rec: "WSARecv k s (win_bufs vecs) w = ((r, received, d), w1)"
    by (metis surj_pair)
  note laws = wsarecv_okD [OF k rec]
  have all: "- 1 \<le> ret \<and> ret \<le> int (\<Sum>v\<leftarrow>vecs. iov_len v) \<and> length data = nat ret \<and> inp s w = data @ inp s w'"
  proof (cases "r = 0")
    case False
    then show ?thesis using step rec laws by (auto simp: win_readv_def sum_list_nonneg split: if_splits)
  next
    case True
    have le: "unat received \<le> (\<Sum>v\<leftarrow>take 16 vecs. iov_len v)"
      using laws(2) [OF True] win_bufs_room [of vecs] by linarith
    from order_le_less_trans [OF this room] have "unat received < 2 ^ 31" .
    then have "sint received = int (unat received)" by (simp only: sint_u32 if_True)
    then have "ret = int (unat received)" "data = d" "w' = w1" using step rec True by (simp_all add: win_readv_def)
    then show ?thesis using laws True le sum_list_take_le [of iov_len 16 vecs] by (simp del: of_nat_unat)
  qed
  then show "- 1 \<le> ret" "ret \<le> int (\<Sum>v\<leftarrow>vecs. iov_len v)" "length data = nat ret" "inp s w = data @ inp s w'"
    by simp_all
qed

section \<open>The table of mapping handles\<close>

text \<open>\<open>MMapManager\<close>.\<close>

type_synonym mmap_manager = "nat \<rightharpoonup> int"

definition manager_add :: "nat \<Rightarrow> int \<Rightarrow> mmap_manager \<Rightarrow> mmap_manager" where
  "manager_add addr h handles = handles(addr \<mapsto> h)"

definition manager_remove :: "nat \<Rightarrow> mmap_manager \<Rightarrow> int \<times> mmap_manager" where
  "manager_remove addr handles =
     (case handles addr of None \<Rightarrow> (0, handles) | Some h \<Rightarrow> (h, handles(addr := None)))"

definition shm_name_win :: "string \<Rightarrow> string" where
  "shm_name_win name = (case name of [] \<Rightarrow> name | c # rest \<Rightarrow> if c = CHR ''/'' then rest else name)"

text \<open>
  The two branches that open a mapping of a file, with \<open>OPEN_ALWAYS\<close> or \<open>OPEN_EXISTING\<close> (the flag \<open>create\<close>): \<open>None\<close> when
  \<open>CreateFileA\<close> fails.
\<close>

definition win_map_file :: "'w win \<Rightarrow> string \<Rightarrow> bool \<Rightarrow> nat \<Rightarrow> 'w \<Rightarrow> int option \<times> 'w" where
  "win_map_file k filename create sizeof w =
     (case CreateFileA k filename create w of
        (hFile, w1) \<Rightarrow>
          if hFile = INVALID_HANDLE_VALUE then (None, w1)
          else case CreateFileMappingA k hFile (of_nat sizeof) None w1 of
                 (hMap, w2) \<Rightarrow> (Some hMap, snd (CloseHandle k hFile w2)))"

text \<open>The part both functions share: map the view and note its handle. \<open>msg\<close> is the text for a failed \<open>hMap\<close>.\<close>

definition win_map_view ::
    "'w win \<Rightarrow> nat \<Rightarrow> string \<Rightarrow> int \<Rightarrow> mmap_manager \<Rightarrow> 'w \<Rightarrow> (nat + string) \<times> mmap_manager \<times> 'w" where
  "win_map_view k sizeof msg hMap m w =
     (if hMap = 0 then (Inr msg, m, w)
      else case MapViewOfFile k hMap sizeof w of
             (ret, w1) \<Rightarrow>
               if ret = 0 then (Inr ''MapViewOfFile'', m, snd (CloseHandle k hMap w1))
               else (Inl ret, manager_add ret hMap m, w1))"

definition win_mmap ::
    "'w win \<Rightarrow> nat \<Rightarrow> string \<Rightarrow> bool \<Rightarrow> mmap_manager \<Rightarrow> 'w \<Rightarrow> (nat + string) \<times> mmap_manager \<times> 'w" where
  "win_mmap k sizeof filename use_shm m w =
     (case (if use_shm
            then (case CreateFileMappingA k INVALID_HANDLE_VALUE (of_nat sizeof) (Some (shm_name_win filename)) w of
                    (hMap, w1) \<Rightarrow> (Some hMap, w1))
            else win_map_file k filename True sizeof w) of
        (None, w1) \<Rightarrow> (Inr ''CreateFile'', m, w1)
      | (Some hMap, w1) \<Rightarrow> win_map_view k sizeof ''CreateFileMapping'' hMap m w1)"

definition win_mmap_existing ::
    "'w win \<Rightarrow> nat \<Rightarrow> string \<Rightarrow> bool \<Rightarrow> mmap_manager \<Rightarrow> 'w \<Rightarrow> (nat + string) \<times> mmap_manager \<times> 'w" where
  "win_mmap_existing k sizeof filename use_shm m w =
     (case (if use_shm
            then (case OpenFileMappingA k (shm_name_win filename) w of (hMap, w1) \<Rightarrow> (Some hMap, w1))
            else win_map_file k filename False sizeof w) of
        (None, w1) \<Rightarrow> (Inr ''CreateFile'', m, w1)
      | (Some hMap, w1) \<Rightarrow> win_map_view k sizeof ''OpenFileMapping'' hMap m w1)"

text \<open>
  \<open>my_munmap\<close> unmaps the view and then, in a second step, takes the handle out of the table and closes
  it; the mutex of the table is not held across the two.
\<close>

definition win_drop_handle :: "'w win \<Rightarrow> nat \<Rightarrow> mmap_manager \<Rightarrow> 'w \<Rightarrow> mmap_manager \<times> 'w" where
  "win_drop_handle k addr m w =
     (case manager_remove addr m of
        (h, m1) \<Rightarrow> (m1, if h \<noteq> 0 then snd (CloseHandle k h w) else w))"

definition win_munmap :: "'w win \<Rightarrow> nat \<Rightarrow> mmap_manager \<Rightarrow> 'w \<Rightarrow> mmap_manager \<times> 'w" where
  "win_munmap k addr m w =
     (if addr \<noteq> 0 then win_drop_handle k addr m (snd (UnmapViewOfFile k addr w)) else (m, w))"

text \<open>A sequence of calls by one thread.\<close>

datatype win_call = Win_mmap nat string bool | Win_mmap_existing nat string bool | Win_munmap nat

fun win_call_step :: "'w win \<Rightarrow> win_call \<Rightarrow> mmap_manager \<times> 'w \<Rightarrow> mmap_manager \<times> 'w" where
  "win_call_step k (Win_mmap sizeof name use_shm) (m, w) = snd (win_mmap k sizeof name use_shm m w)"
| "win_call_step k (Win_mmap_existing sizeof name use_shm) (m, w) = snd (win_mmap_existing k sizeof name use_shm m w)"
| "win_call_step k (Win_munmap addr) (m, w) = win_munmap k addr m w"

definition win_calls :: "'w win \<Rightarrow> win_call list \<Rightarrow> mmap_manager \<times> 'w \<Rightarrow> mmap_manager \<times> 'w" where
  "win_calls k cs = fold (win_call_step k) cs"

section \<open>Every mapping has its handle\<close>

lemma ran_remove:
  assumes "inj_on m (dom m)" and "m a = Some h"
  shows "ran (m(a := None)) = ran m - {h}"
proof -
  have "b = a" if "m b = Some h" for b using assms that by (metis domI inj_onD)
  then have "(\<exists>b. b \<noteq> a \<and> m b = Some x) \<longleftrightarrow> (\<exists>b. m b = Some x) \<and> x \<noteq> h" for x using assms(2) by (metis option.inject)
  then show ?thesis by (simp add: ran_def set_eq_iff cong: conj_cong)
qed

locale win_kernel =
  fixes k :: "'w win" and handles :: "'w \<Rightarrow> int set" and views :: "'w \<Rightarrow> nat set"
  assumes CreateFileA: "CreateFileA k f c w = (h, w') \<Longrightarrow>
      views w' = views w \<and> handles w' = (if h = INVALID_HANDLE_VALUE then handles w else insert h (handles w)) \<and>
      (h \<noteq> INVALID_HANDLE_VALUE \<longrightarrow> h \<notin> handles w)"
    and CreateFileMappingA: "CreateFileMappingA k hf n nm w = (h, w') \<Longrightarrow>
      views w' = views w \<and> handles w' = (if h = 0 then handles w else insert h (handles w)) \<and>
      (h \<noteq> 0 \<longrightarrow> h \<notin> handles w)"
    and OpenFileMappingA: "OpenFileMappingA k name w = (h, w') \<Longrightarrow>
      views w' = views w \<and> handles w' = (if h = 0 then handles w else insert h (handles w)) \<and>
      (h \<noteq> 0 \<longrightarrow> h \<notin> handles w)"
    and MapViewOfFile: "MapViewOfFile k h sz w = (a, w') \<Longrightarrow>
      handles w' = handles w \<and> views w' = (if a = 0 then views w else insert a (views w)) \<and>
      (a \<noteq> 0 \<longrightarrow> a \<notin> views w)"
    and UnmapViewOfFile: "UnmapViewOfFile k a w = (ok, w') \<Longrightarrow> handles w' = handles w \<and> views w' = views w - {a}"
    and CloseHandle: "CloseHandle k h w = (ok, w') \<Longrightarrow> views w' = views w \<and> handles w' = handles w - {h}"
begin

text \<open>
  What a call that opens a mapping (\<open>opened\<close>) and a whole mapping function (\<open>maps\<close>) do to handles and views: a new
  handle, and a new view noted in the table with it, or no change.
\<close>

definition opened :: "'w \<Rightarrow> int option \<times> 'w \<Rightarrow> bool" where
  "opened w x \<longleftrightarrow> views (snd x) = views w \<and>
     (case fst x of None \<Rightarrow> handles (snd x) = handles w
      | Some h \<Rightarrow> if h = 0 then handles (snd x) = handles w
                  else h \<notin> handles w \<and> handles (snd x) = insert h (handles w))"

definition maps :: "mmap_manager \<Rightarrow> 'w \<Rightarrow> (nat + string) \<times> mmap_manager \<times> 'w \<Rightarrow> bool" where
  "maps m w res \<longleftrightarrow> (case res of
     (Inl a, m', w') \<Rightarrow> a \<noteq> 0 \<and> a \<notin> views w \<and> views w' = insert a (views w) \<and>
       (\<exists>h. h \<noteq> 0 \<and> h \<notin> handles w \<and> m' = m(a \<mapsto> h) \<and> handles w' = insert h (handles w))
   | (Inr e, m', w') \<Rightarrow> m' = m \<and> handles w' = handles w \<and> views w' = views w)"

lemma opened_named:
  "opened w (case CreateFileMappingA k hf n nm w of (h, w1) \<Rightarrow> (Some h, w1))"
  "opened w (case OpenFileMappingA k name w of (h, w1) \<Rightarrow> (Some h, w1))"
  by (auto simp: opened_def dest!: CreateFileMappingA OpenFileMappingA split: prod.splits)

text \<open>Opening the mapping of a file leaves no handle to the file.\<close>

lemma opened_file: "opened w (win_map_file k f c n w)"
proof -
  obtain hf w1 where cf: "CreateFileA k f c w = (hf, w1)" by fastforce
  obtain h w2 where cm: "CreateFileMappingA k hf (of_nat n) None w1 = (h, w2)" by fastforce
  obtain ok w3 where cl: "CloseHandle k hf w2 = (ok, w3)" by fastforce
  note laws = CreateFileA [OF cf] CreateFileMappingA [OF cm] CloseHandle [OF cl]
  show ?thesis
  proof (cases "hf = INVALID_HANDLE_VALUE")
    case True
    then show ?thesis using cf laws(1) by (simp add: win_map_file_def opened_def)
  next
    case False
    then have "views w3 = views w" and hs: "handles w3 = (if h = 0 then insert hf (handles w) else insert h (insert hf (handles w))) - {hf}"
      and "h \<noteq> 0 \<Longrightarrow> h \<notin> insert hf (handles w)" and "hf \<notin> handles w"
      using laws by simp_all
    then have "opened w (Some h, w3)" by (auto simp: opened_def)
    then show ?thesis using False cf cm cl by (simp add: win_map_file_def)
  qed
qed

lemma win_map_view_maps:
  assumes "opened w (Some h, w1)"
  shows "maps m w (win_map_view k n msg h m w1)"
proof -
  obtain a w2 where map: "MapViewOfFile k h n w1 = (a, w2)" by fastforce
  obtain ok w3 where close: "CloseHandle k h w2 = (ok, w3)" by fastforce
  note laws = MapViewOfFile [OF map] CloseHandle [OF close]
  show ?thesis
  proof (cases "h = 0 \<or> a = 0")
    case True
    then show ?thesis using assms map close laws by (auto simp: win_map_view_def maps_def opened_def)
  next
    case False
    then show ?thesis using assms map laws by (auto simp: win_map_view_def maps_def opened_def manager_add_def)
  qed
qed

lemma maps_opened:
  assumes "opened w x"
  shows "maps m w (case x of (None, w1) \<Rightarrow> (Inr e, m, w1) | (Some h, w1) \<Rightarrow> win_map_view k n msg h m w1)"
proof (cases x)
  case (Pair y w1)
  show ?thesis
  proof (cases y)
    case None
    then show ?thesis using assms Pair by (simp add: maps_def opened_def)
  next
    case (Some h)
    then show ?thesis using win_map_view_maps [of w h w1] assms Pair by simp
  qed
qed

lemma win_mmap_maps: "maps m w (win_mmap k n f shm m w)"
  unfolding win_mmap_def by (intro maps_opened) (simp add: opened_named opened_file)

lemma win_mmap_existing_maps: "maps m w (win_mmap_existing k n f shm m w)"
  unfolding win_mmap_existing_def by (intro maps_opened) (simp add: opened_named opened_file)

text \<open>
  The table against the kernel: apart from the handles \<open>H\<close> and views \<open>V\<close> that are not the layer's own, the open
  handles are those of the table and the mapped views are its addresses, with a handle of its own for each.
\<close>

definition owns :: "int set \<Rightarrow> nat set \<Rightarrow> mmap_manager \<times> 'w \<Rightarrow> bool" where
  "owns H V s \<longleftrightarrow> (case s of (m, w) \<Rightarrow>
     handles w = H \<union> ran m \<and> H \<inter> ran m = {} \<and> views w = V \<union> dom m \<and> V \<inter> dom m = {} \<and>
     inj_on m (dom m) \<and> 0 \<notin> ran m \<and> 0 \<notin> dom m)"

lemma owns_start: "owns (handles w) (views w) (Map.empty, w)"
  by (simp add: owns_def)

lemma owns_world: "owns H V (m, w) \<Longrightarrow> handles w' = handles w \<Longrightarrow> views w' = views w \<Longrightarrow> owns H V (m, w')"
  by (simp add: owns_def)

lemma maps_owns:
  assumes o: "owns H V (m, w)" and "maps m w res"
  shows "owns H V (snd res)"
proof -
  obtain r m' w' where res: "res = (r, m', w')" by (cases res) auto
  show ?thesis
  proof (cases r)
    case (Inr e)
    then show ?thesis using assms owns_world [OF o] by (simp add: res maps_def)
  next
    case (Inl a)
    then obtain h where h: "h \<noteq> 0" "h \<notin> handles w" "m' = m(a \<mapsto> h)" "handles w' = insert h (handles w)"
      and a: "a \<noteq> 0" "a \<notin> views w" "views w' = insert a (views w)"
      using assms(2) by (auto simp: res maps_def)
    have free: "m a = None" "h \<notin> ran m" "h \<notin> H" "a \<notin> V" using o h(2) a(2) by (auto simp: owns_def)
    then have "ran (m(a \<mapsto> h)) = insert h (ran m)" by simp
    moreover have "inj_on (m(a \<mapsto> h)) (insert a (dom m))"
      using o free by (simp add: owns_def inj_on_def) (metis ranI)
    ultimately show ?thesis using o free h a by (simp add: owns_def res del: inj_on_insert)
  qed
qed

lemma win_munmap_owns:
  assumes o: "owns H V (m, w)" and a: "a \<notin> V" and step: "win_munmap k a m w = (m', w')"
  shows "owns H V (m', w')" and "m' = m(a := None)"
proof -
  obtain ok w1 where un: "UnmapViewOfFile k a w = (ok, w1)" by fastforce
  note u = UnmapViewOfFile [OF un]
  have "owns H V (m', w') \<and> m' = m(a := None)"
  proof (cases "a = 0 \<or> m a = None")
    case True
    have none: "m a = None" using True o by (auto simp: owns_def)
    then have "a \<notin> views w" using o a by (auto simp: owns_def)
    then have "views w1 = views w" "handles w1 = handles w" using u by simp_all
    moreover have "m' = m" "w' = (if a = 0 then w else w1)"
      using step un none by (auto simp: win_munmap_def win_drop_handle_def manager_remove_def split: if_splits)
    ultimately have "m' = m" "handles w' = handles w" "views w' = views w" using none by auto
    with none
    show ?thesis using owns_world [OF o] by (simp add: fun_upd_idem)
  next
    case False
    then obtain h where h: "m a = Some h" by auto
    obtain ok2 w2 where cl: "CloseHandle k h w1 = (ok2, w2)" by fastforce
    note c = CloseHandle [OF cl]
    have "h \<noteq> 0" using h o by (auto simp: owns_def ran_def)
    then have r: "m' = m(a := None)" "w' = w2" using step un cl h False
      by (simp_all add: win_munmap_def win_drop_handle_def manager_remove_def)
    have "ran (m(a := None)) = ran m - {h}" using ran_remove [where m = m, OF _ h] o by (simp add: owns_def)
    moreover have "h \<notin> H" using h o by (auto simp: owns_def ran_def)
    moreover have "inj_on (m(a := None)) (dom m - {a})" using o by (auto simp: owns_def inj_on_def)
    ultimately have "owns H V (m(a := None), w2)" using o u c a h by (auto simp: owns_def)
    then show ?thesis using r by simp
  qed
  then show "owns H V (m', w')" "m' = m(a := None)" by blast+
qed

lemma win_call_step_owns:
  assumes o: "owns H V s" and c: "\<And>a. c = Win_munmap a \<Longrightarrow> a \<notin> V"
  shows "owns H V (win_call_step k c s)"
proof -
  obtain m w where s: "s = (m, w)" by fastforce
  show ?thesis
  proof (cases c)
    case (Win_munmap a)
    then show ?thesis using win_munmap_owns(1) [OF o [unfolded s] c, of a] by (cases "win_munmap k a m w") (simp add: s)
  qed (use maps_owns [OF o [unfolded s]] s win_mmap_maps win_mmap_existing_maps in \<open>simp_all\<close>)
qed

lemma win_calls_owns:
  "owns H V s \<Longrightarrow> (\<And>a. Win_munmap a \<in> set cs \<Longrightarrow> a \<notin> V) \<Longrightarrow> owns H V (win_calls k cs s)"
proof (induction cs arbitrary: s)
  case (Cons c cs)
  have "owns H V (win_call_step k c s)" by (rule win_call_step_owns) (use Cons.prems in auto)
  then show ?case using Cons by (simp add: win_calls_def)
qed (simp add: win_calls_def)

lemma win_calls_from_start:
  assumes "\<And>a. Win_munmap a \<in> set cs \<Longrightarrow> a \<notin> views w" and "win_calls k cs (Map.empty, w) = (m, w')"
  shows "owns (handles w) (views w) (m, w')"
  using win_calls_owns [OF owns_start assms(1)] assms(2) by metis

text \<open>
  One thread is between the two halves of \<open>my_munmap\<close> for address \<open>a\<close> when another maps a view and gets that address.
\<close>

lemma munmap_overtaken:
  assumes o: "owns H V (m, w)" and a: "m a = Some hA" "a \<notin> V"
    and un: "UnmapViewOfFile k a w = (ok, w1)" and map: "win_mmap k n f shm m w1 = (Inl a, m2, w2)"
    and drop: "win_drop_handle k a m2 w2 = (m3, w3)"
  shows "a \<in> views w3 \<and> m3 a = None \<and> hA \<in> handles w3 \<and> hA \<notin> ran m3 \<and>
         (\<exists>hB. m2 a = Some hB \<and> hB \<noteq> hA \<and> hB \<notin> handles w3)"
proof -
  note u = UnmapViewOfFile [OF un]
  have hA: "hA \<in> handles w1" using a o u by (auto simp: owns_def ran_def)
  obtain hB where hB: "hB \<noteq> 0" "hB \<notin> handles w1" "m2 = m(a \<mapsto> hB)" "handles w2 = insert hB (handles w1)"
    and v: "views w2 = insert a (views w1)"
    using win_mmap_maps [of m w1 n f shm] by (auto simp: map maps_def)
  obtain ok2 w4 where cl: "CloseHandle k hB w2 = (ok2, w4)" by fastforce
  have m3: "m3 = m(a := None)" "w3 = w4"
    using drop cl hB by (simp_all add: win_drop_handle_def manager_remove_def)
  have "hA \<notin> ran m3" using ran_remove [where m = m, OF _ a(1)] o by (simp add: m3 owns_def)
  then show ?thesis using CloseHandle [OF cl] hA hB v m3 by auto
qed

end

section \<open>A concrete kernel\<close>

text \<open>
  A world with the open handles, the mapped views, the numbers and addresses the kernel may hand out (it takes the
  first that is free, so an address that was unmapped is used again), and the bytes that arrive at the socket.
\<close>

record toy_world =
  tw_handles :: "int list"
  tw_views :: "nat list"
  tw_numbers :: "int list"
  tw_space :: "nat list"
  tw_inp :: "u8 list"

definition toy_handle :: "int \<Rightarrow> toy_world \<Rightarrow> int \<times> toy_world" where
  "toy_handle failed w =
     (case find (\<lambda>h. h \<noteq> 0 \<and> h \<noteq> - 1 \<and> h \<notin> set (tw_handles w)) (tw_numbers w) of
        None \<Rightarrow> (failed, w) | Some h \<Rightarrow> (h, w\<lparr>tw_handles := h # tw_handles w\<rparr>))"

definition toy_view :: "toy_world \<Rightarrow> nat \<times> toy_world" where
  "toy_view w =
     (case find (\<lambda>a. a \<noteq> 0 \<and> a \<notin> set (tw_views w)) (tw_space w) of
        None \<Rightarrow> (0, w) | Some a \<Rightarrow> (a, w\<lparr>tw_views := a # tw_views w\<rparr>))"

definition toy_wsarecv :: "int \<Rightarrow> (nat \<times> u32) list \<Rightarrow> toy_world \<Rightarrow> (int \<times> u32 \<times> u8 list) \<times> toy_world" where
  "toy_wsarecv s bufs w =
     (let n = min (min (\<Sum>b\<leftarrow>bufs. unat (snd b)) 1000) (length (tw_inp w))
      in if n = 0 then ((- 1, 0, []), w) else ((0, of_nat n, take n (tw_inp w)), w\<lparr>tw_inp := drop n (tw_inp w)\<rparr>))"

definition toy_win :: "toy_world win" where
  "toy_win =
     \<lparr>WSAStartup = (\<lambda>v w. (0, w)), WSACleanup = (\<lambda>w. (0, w)), WSAGetLastError = (\<lambda>w. WSAEWOULDBLOCK),
      ws_socket = (\<lambda>w. (5, w)), ws_closesocket = (\<lambda>s w. (0, w)), ws_send = (\<lambda>s buf w. (int (length buf), w)),
      ws_recv = (\<lambda>s n w. ((- 1, []), w)), ws_accept = (\<lambda>s w. ((- 1, (0, 0)), w)), ws_bind = (\<lambda>s a w. (0, w)),
      ws_listen = (\<lambda>s n w. (0, w)), ws_connect = (\<lambda>s a w. (0, w)), ws_setsockopt = (\<lambda>s opt w. (0, w)),
      ws_ioctl_FIONBIO = (\<lambda>s n w. (0, w)), WSARecv = toy_wsarecv,
      CreateFileA = (\<lambda>f c. toy_handle (- 1)), CreateFileMappingA = (\<lambda>h n nm. toy_handle 0),
      OpenFileMappingA = (\<lambda>nm. toy_handle 0), MapViewOfFile = (\<lambda>h n. toy_view),
      UnmapViewOfFile = (\<lambda>a w. (True, w\<lparr>tw_views := removeAll a (tw_views w)\<rparr>)),
      CloseHandle = (\<lambda>h w. (True, w\<lparr>tw_handles := removeAll h (tw_handles w)\<rparr>)),
      win_mkdir = (\<lambda>f w. (0, w))\<rparr>"

interpretation toy: win_kernel toy_win "\<lambda>w. set (tw_handles w)" "\<lambda>w. set (tw_views w)"
  by unfold_locales
    (auto simp: toy_win_def toy_handle_def toy_view_def INVALID_HANDLE_VALUE_def find_Some_iff split: option.splits)

lemma toy_wsarecv_ok: "wsarecv_ok toy_win (\<lambda>s. tw_inp)"
proof -
  have "unat (of_nat (min (min x 1000) y) :: u32) = min (min x 1000) y" for x y
    by (simp add: unsigned_of_nat take_bit_nat_eq_self)
  then show ?thesis by (auto simp: wsarecv_ok_def toy_win_def toy_wsarecv_def Let_def min.coboundedI1)
qed

section \<open>Properties\<close>

text \<open>C32: the table of mapping handles is exact. Whatever sequence of \<open>my_mmap\<close>, \<open>my_mmap_existing\<close> and \<open>my_munmap\<close>
  calls one thread makes, on any files and names and with any of the kernel calls failing, the handles open
  afterwards are those that were open before and the handles of the table, the views are those that
  were mapped before and the addresses of the table, and every address has a handle of its own:
  errors leak nothing, files are closed again, and when everything is unmapped the process has exactly
  the handles and views it started with.\<close>

theorem win_mappings_exact:
  assumes "win_kernel k handles views"
    and "\<And>a. Win_munmap a \<in> set cs \<Longrightarrow> a \<notin> views w"
    and "win_calls k cs (Map.empty, w) = (m, w')"
  shows "handles w' = handles w \<union> ran m \<and> handles w \<inter> ran m = {} \<and>
         views w' = views w \<union> dom m \<and> views w \<inter> dom m = {} \<and> inj_on m (dom m)"
  using win_kernel.win_calls_from_start [OF assms] by (simp add: win_kernel.owns_def [OF assms(1)])

text \<open>
  A process that has handle 4 and a view at 8: it maps a file, an existing object whose view fails, then a
  second object, and unmaps the first.
\<close>

definition toy_w0 :: toy_world where
  "toy_w0 = \<lparr>tw_handles = [4], tw_views = [8], tw_numbers = [4, 12, 16, 20], tw_space = [8, 64], tw_inp = [1, 2, 3, 4, 5]\<rparr>"

definition toy_calls :: "win_call list" where
  "toy_calls = [Win_mmap 40 ''q.ptcp'' False, Win_mmap_existing 40 ''/shm'' True, Win_munmap 64, Win_mmap 40 ''/shm'' True]"

lemmas toy_eval = toy_win_def toy_handle_def toy_view_def toy_w0_def win_map_file_def win_map_view_def
  win_munmap_def win_drop_handle_def manager_remove_def manager_add_def INVALID_HANDLE_VALUE_def

lemma toy_calls_result:
  "win_calls toy_win toy_calls (Map.empty, toy_w0) =
     ([64 \<mapsto> 12], toy_w0\<lparr>tw_handles := [12, 4], tw_views := [64, 8]\<rparr>)"
  by (simp add: win_calls_def toy_calls_def win_mmap_def win_mmap_existing_def toy_eval)

theorem win_mappings_exact_witness:
  "win_calls toy_win toy_calls (Map.empty, toy_w0) = ([64 \<mapsto> 12], toy_w0\<lparr>tw_handles := [12, 4], tw_views := [64, 8]\<rparr>) \<and>
   set [12, 4 :: int] = {4} \<union> ran [64 :: nat \<mapsto> 12] \<and> {4} \<inter> ran [64 :: nat \<mapsto> (12 :: int)] = {} \<and>
   set [64, 8 :: nat] = {8} \<union> dom [64 :: nat \<mapsto> (12 :: int)] \<and> {8} \<inter> dom [64 :: nat \<mapsto> (12 :: int)] = {} \<and>
   inj_on [64 :: nat \<mapsto> (12 :: int)] (dom [64 :: nat \<mapsto> (12 :: int)])"
  using win_mappings_exact [OF toy.win_kernel_axioms _ toy_calls_result] toy_calls_result
  by (simp add: toy_calls_def toy_w0_def)



text \<open>\<open>tcp_readv\<close> under Windows keeps the contract of \<open>readv\<close> on a stream socket for any number of buffers, with
  at most 16 of them used and less than 2 GB in these: a result of - 1 has taken nothing off the
  stream, and any other result is the number of bytes taken, in order, from its front and is no
  larger than the room in the buffers.\<close>

theorem win_readv_contract:
  assumes "wsarecv_ok k inp" and "(\<Sum>v\<leftarrow>take 16 vecs. iov_len v) < 2 ^ 31"
  shows "case win_readv k s vecs w of ((ret, data), w') \<Rightarrow>
           - 1 \<le> ret \<and> ret \<le> int (\<Sum>v\<leftarrow>vecs. iov_len v) \<and> length data = nat ret \<and> inp s w = data @ inp s w'"
  using win_readv_ok [OF assms, of s w] by (auto split: prod.splits)

theorem win_readv_contract_witness:
  "case win_readv toy_win 5 [\<lparr>iov_base = 0, iov_len = 2\<rparr>, \<lparr>iov_base = 100, iov_len = 2\<rparr>] toy_w0 of ((ret, data), w') \<Rightarrow>
     - 1 \<le> ret \<and> ret \<le> 4 \<and> length data = nat ret \<and> [1, 2, 3, 4, 5] = data @ tw_inp w'"
  using win_readv_contract [OF toy_wsarecv_ok,
      where vecs = "[\<lparr>iov_base = 0, iov_len = 2\<rparr>, \<lparr>iov_base = 100, iov_len = 2\<rparr>]" and s = 5 and w = toy_w0]
  by (simp add: toy_w0_def)

end
