(* ===== verification/Probe_Handshake.thy ===== *)
theory Probe_Handshake
  imports Session_Props Delivery
begin

text \<open>
  The shared-memory probe of a login with both parties. The server creates an object in shared memory,
  stores a token in it and sends its name and the token to the client (\<open>VerifyShmProbe\<close>); the client maps the
  object under that name, compares the token, writes the masked token into the object and answers
  over TCP (\<open>HandleShmProbe\<close>); the server compares the answer and the object. The locale \<open>probe_world\<close> states what
  this relies on: a connection that delivers, and memory in which two mappings are either the same cell or
  separate ones.
\<close>

section \<open>The handshake\<close>

text \<open>
  \<open>VerifyShmProbe\<close> up to the point where the token is in the object: the token, the object's name and address, or
  \<open>None\<close> when the object cannot be mapped.
\<close>

definition probe_publish :: "'w srv_env \<Rightarrow> string \<Rightarrow> int \<Rightarrow> string \<Rightarrow> 'w \<Rightarrow> (u64 \<times> string \<times> nat) option \<times> 'w" where
  "probe_publish E server_name fd client_name w0 =
     (let os = se_os E; P = se_probe E;
          w1 = snd (tcp_set_blocking os fd w0);
          w2 = snd (tcp_set_timeout os fd SO_RCVTIMEO 3000 w1);
          w3 = snd (tcp_set_timeout os fd SO_SNDTIMEO 3000 w2);
          (token, w4) = MakeShmProbeToken E client_name w3;
          name = probe_name server_name client_name token
      in case my_mmap os (pm_map P) name True w4 of
           (Inr _, w5) \<Rightarrow> (None, w5)
         | (Inl probe, w5) \<Rightarrow> (Some (token, name, probe), pm_set_ack P probe 0 (pm_set_token P probe token w5)))"

text \<open>
  \<open>VerifyShmProbe\<close> with what the other process does, \<open>turn\<close>, between the request and the receive, which blocks for the
  answer. With nothing in between it is the function itself.
\<close>

definition VerifyShmProbe_with ::
    "('w \<Rightarrow> 'w option) \<Rightarrow> 'w srv_env \<Rightarrow> conf \<Rightarrow> string \<Rightarrow> int \<Rightarrow> string \<Rightarrow> 'w \<Rightarrow> (bool \<times> 'w) option" where
  "VerifyShmProbe_with turn E cf server_name fd client_name w0 =
     (case probe_publish E server_name fd client_name w0 of
        (None, w5) \<Rightarrow> Some (False, w5)
      | (Some (token, name, probe), w6) \<Rightarrow> do {
          let os = se_os E;
          let P = se_probe E;
          let (sent, w7) = SendShmProbeReq os cf fd name token w6;
          (ok, w8) \<leftarrow> (if sent
                       then Option.bind (turn w7) (RecvAndCheckShmProbeRsp os P cf fd token probe)
                       else Some (False, w7));
          Some (ok, snd (my_shm_unlink os name (my_munmap (pm_map P) probe w8)))
        })"

lemma VerifyShmProbe_with_none: "VerifyShmProbe_with Some = VerifyShmProbe"
  by (intro ext) (auto simp: VerifyShmProbe_with_def VerifyShmProbe_def probe_publish_def Let_def
      split: prod.split sum.split)

text \<open>The part of the client's \<open>RecvLoginRsp\<close> that answers a probe.\<close>

definition client_turn :: "'w os \<Rightarrow> 'w probe_mem \<Rightarrow> conf \<Rightarrow> int \<Rightarrow> 'w \<Rightarrow> 'w option" where
  "client_turn os P cf fd w = do {
     (r, w1) \<leftarrow> RecvHeader os cf fd w;
     (case r of
        Inr _ \<Rightarrow> Some w1
      | Inl header \<Rightarrow>
          if hdr_msg_type header = ShmProbeReqMsg_msg_type
          then map_option snd (HandleShmProbe os P cf fd header w1)
          else Some w1)
   }"

section \<open>The name and the messages arrive\<close>

lemma hex_digits_nul: "CHR 0x00 \<notin> set (hex_digits n)"
proof (induction n rule: hex_digits.induct)
  case (1 n)
  have digit: "CHR 0x00 \<noteq> ''0123456789abcdef'' ! i" if "i < 16" for i
  proof -
    have "''0123456789abcdef'' ! i \<in> set ''0123456789abcdef''" using that by (intro nth_mem) simp
    moreover have "CHR 0x00 \<notin> set ''0123456789abcdef''" by simp
    ultimately show ?thesis by metis
  qed
  show ?case using "1.IH" digit by (subst hex_digits.simps) auto
qed

lemma probe_name_nul: "CHR 0x00 \<notin> set (probe_name s c t)"
proof -
  have "CHR 0x00 \<notin> set (cstr x)" for x by (auto simp: cstr_def dest: set_takeWhileD)
  then have "CHR 0x00 \<notin> set (''/tcpshm_probe_'' @ cstr s @ ''_'' @ cstr c @ ''_'' @ hex_digits (unat t))"
    using hex_digits_nul by simp
  then show ?thesis unfolding probe_name_def by (meson in_set_takeD)
qed

lemma length_probe_name: "length (probe_name s c t) < ShmProbeNameSize"
  by (simp add: probe_name_def ShmProbeNameSize_def)

lemma cstr_nul_free: "CHR 0x00 \<notin> set s \<Longrightarrow> cstr (s @ CHR 0x00 # rest) = s"
  by (induction s) (auto simp: cstr_def)

lemma strncpy_padded:
  assumes "CHR 0x00 \<notin> set name" and "length name < n"
  shows "strncpy (replicate n (CHR 0x00)) name (n - 1) = name @ replicate (n - length name) (CHR 0x00)"
proof -
  have "cstr name = name" using assms(1) by (auto simp: cstr_def takeWhile_eq_all_conv)
  moreover obtain k where "n = length name + Suc k" using assms(2) less_imp_Suc_add by fastforce
  ultimately show ?thesis by (simp add: strncpy_def flip: replicate_append_same)
qed

text \<open>What the client makes of the body of the server's request, on a host of any byte order.\<close>

lemma load_req:
  assumes "length (pr_shm_name m) = ShmProbeNameSize"
  shows "pr_ConvertByteOrder wl hl' (req_of_bytes hl' (req_bytes hl (pr_ConvertByteOrder wl hl m))) = m"
proof -
  have "req_bytes hl (pr_ConvertByteOrder wl hl m) = req_bytes hl' (pr_ConvertByteOrder wl hl' m)"
    by (simp add: req_bytes_convert)
  also have "req_of_bytes hl' \<dots> = pr_ConvertByteOrder wl hl' m"
    using assms by (simp add: req_of_bytes_def req_bytes_def pr_ConvertByteOrder_def mem_word_bytes_width)
  finally show ?thesis by (simp add: pr_ConvertByteOrder_def)
qed

lemma load_probe_answer:
  "ps_ConvertByteOrder wl hl' (probe_rsp_of_bytes hl' (probe_rsp_bytes hl (ps_ConvertByteOrder wl hl m) @ pad)) = m"
proof -
  have "probe_rsp_bytes hl (ps_ConvertByteOrder wl hl m) = probe_rsp_bytes hl' (ps_ConvertByteOrder wl hl' m)"
    by (simp add: probe_rsp_bytes_convert)
  then show ?thesis
    by (simp add: probe_rsp_of_bytes_def probe_rsp_bytes_def ps_ConvertByteOrder_def nth_append mem_word_bytes_width)
qed

text \<open>The requests and answers as the code fills them in.\<close>

definition req_hdr :: msg_header where
  "req_hdr = \<lparr>hdr_size = word_of_nat (8 + sizeof_ShmProbeReqMsg), hdr_msg_type = ShmProbeReqMsg_msg_type, hdr_ack_seq = 0\<rparr>"

definition rsp_hdr :: msg_header where
  "rsp_hdr = \<lparr>hdr_size = word_of_nat (8 + sizeof_ShmProbeRspMsg), hdr_msg_type = ShmProbeRspMsg_msg_type, hdr_ack_seq = 0\<rparr>"

definition probe_req :: "u64 \<Rightarrow> string \<Rightarrow> shm_probe_req" where
  "probe_req token name = \<lparr>pr_token = token, pr_shm_name = name @ replicate (ShmProbeNameSize - length name) (CHR 0x00)\<rparr>"

section \<open>Both parties\<close>

locale probe_world = delivering os inp peer fd
  for os :: "'w os" and inp :: "int \<Rightarrow> 'w \<Rightarrow> u8 list" and peer :: "int \<Rightarrow> int" and fd :: int +
  fixes PS PC :: "'w probe_mem" and same :: "nat \<Rightarrow> nat \<Rightarrow> bool"
  assumes io_mem: "io_keeps os (pm_token PS p)" "io_keeps os (pm_ack PS p)"
    and server_sets: "pm_token PS p (pm_set_token PS p x w) = x" "pm_token PS p (pm_set_ack PS p x w) = pm_token PS p w"
      "pm_ack PS p (pm_set_ack PS p x w) = x"
    and client_maps: "my_mmap_existing os (pm_map PC) name use_shm w = (r, w') \<Longrightarrow>
      pm_token PS p w' = pm_token PS p w \<and> pm_ack PS p w' = pm_ack PS p w \<and> inp t w' = inp t w"
    and client_unmaps: "pm_ack PS p (unmap (pm_map PC) p' w) = pm_ack PS p w" "inp t (unmap (pm_map PC) p' w) = inp t w"
    and client_reads: "same p p' \<Longrightarrow> pm_token PC p' w = pm_token PS p w"
    and client_sets: "pm_ack PS p (pm_set_ack PC p' x w) = (if same p p' then x else pm_ack PS p w)"
      "inp t (pm_set_ack PC p' x w) = inp t w"
begin

text \<open>Transfers leave the object alone.\<close>

lemma send_all_probe:
  assumes "s = fd \<or> s = peer fd"
  obtains err w' where "tcp_send_all os s buf w = (True, err, w')"
    and "\<And>t. inp t w' = (if t = peer s then inp t w @ buf else inp t w)"
    and "\<And>p. pm_token PS p w' = pm_token PS p w" and "\<And>p. pm_ack PS p w' = pm_ack PS p w"
  using send_all_arrives [OF assms, of buf w] tcp_send_all_keeps [OF io_mem(1)] tcp_send_all_keeps [OF io_mem(2)] that by metis

lemma recv_all_probe:
  assumes "s = fd \<or> s = peer fd" and "inp s w = data @ rest" and "length data = len"
  obtains err w' where "tcp_recv_all os s len (replicate len 0) w = Some (True, err, data, w')"
    and "\<And>t. inp t w' = (if t = s then rest else inp t w)"
    and "\<And>p. pm_token PS p w' = pm_token PS p w" and "\<And>p. pm_ack PS p w' = pm_ack PS p w"
  using recv_all_gets [OF assms] tcp_recv_all_keeps [OF io_mem(1)] tcp_recv_all_keeps [OF io_mem(2)] that by metis

text \<open>The client's answer to a request, and what it leaves in the server's object.\<close>

lemma answer_probe_result:
  assumes run: "answer_probe os PC req w = (rsp, w')" and tok: "pm_token PS p w = pr_token req"
    and sh: "\<And>w. (case fst (my_mmap_existing os (pm_map PC) (cstr (pr_shm_name req)) True w) of Inl p' \<Rightarrow> same p p' | Inr _ \<Rightarrow> False) = shared"
  shows "inp t w' = inp t w"
    and "shared \<Longrightarrow> ps_ok rsp = 1 \<and> ps_ack rsp = pr_token req XOR ShmProbeAckMask \<and> pm_ack PS p w' = pr_token req XOR ShmProbeAckMask"
    and "\<not> shared \<Longrightarrow> pm_ack PS p w' = pm_ack PS p w"
proof -
  obtain r w1 where m: "my_mmap_existing os (pm_map PC) (cstr (pr_shm_name req)) True w = (r, w1)" by fastforce
  note keep = client_maps [OF m]
  have "inp t w' = inp t w \<and> (shared \<longrightarrow> ps_ok rsp = 1 \<and> ps_ack rsp = pr_token req XOR ShmProbeAckMask \<and>
      pm_ack PS p w' = pr_token req XOR ShmProbeAckMask) \<and> (\<not> shared \<longrightarrow> pm_ack PS p w' = pm_ack PS p w)"
  proof (cases r)
    case (Inr e)
    then show ?thesis using run m keep sh [of w] by (auto simp: answer_probe_def)
  next
    case (Inl p')
    then have "shared \<longleftrightarrow> same p p'" using sh [of w] m by simp
    moreover have "pm_token PC p' w1 = pr_token req" if "same p p'"
      using client_reads [OF that, of w1] keep [of p t] tok by simp
    ultimately show ?thesis using run m Inl keep [of p t] 
      by (auto simp: answer_probe_def my_munmap_def client_unmaps client_sets Let_def split: if_split_asm)
  qed
  then show "inp t w' = inp t w"
    "shared \<Longrightarrow> ps_ok rsp = 1 \<and> ps_ack rsp = pr_token req XOR ShmProbeAckMask \<and> pm_ack PS p w' = pr_token req XOR ShmProbeAckMask"
    "\<not> shared \<Longrightarrow> pm_ack PS p w' = pm_ack PS p w" by blast+
qed

lemma client_turn_answers:
  assumes c: "c = fd \<or> c = peer fd" and wl: "ToLittleEndian cf' = ToLittleEndian cf"
    and name: "CHR 0x00 \<notin> set name" "length name < ShmProbeNameSize"
    and req: "inp c w = probe_req_buf cf req_hdr (probe_req token name)" and idle: "inp (peer c) w = []"
    and tok: "pm_token PS p w = token"
    and sh: "\<And>w. (case fst (my_mmap_existing os (pm_map PC) name True w) of Inl p' \<Rightarrow> same p p' | Inr _ \<Rightarrow> False) = shared"
  obtains rsp w' where "client_turn os PC cf' c w = Some w'" and "inp (peer c) w' = probe_rsp_buf cf' rsp_hdr rsp"
    and "shared \<Longrightarrow> ps_ok rsp = 1 \<and> ps_ack rsp = token XOR ShmProbeAckMask \<and> pm_ack PS p w' = token XOR ShmProbeAckMask"
    and "\<not> shared \<Longrightarrow> pm_ack PS p w' = pm_ack PS p w"
proof -
  let ?wl = "ToLittleEndian cf" and ?hl = "HostLittle cf" and ?hl' = "HostLittle cf'" and ?req = "probe_req token name"
  let ?h = "hdr_bytes ?hl (ConvertByteOrder ?wl ?hl req_hdr)" and ?b = "req_bytes ?hl (pr_ConvertByteOrder ?wl ?hl ?req)"
  have len: "length (pr_shm_name ?req) = ShmProbeNameSize" using name by (simp add: probe_req_def)
  have inp: "inp c w = ?h @ ?b" using req by (simp add: probe_req_buf_def)
  obtain err1 w1 where 1: "tcp_recv_all os c 8 (replicate 8 0) w = Some (True, err1, ?h, w1)"
    and i1: "\<And>t. inp t w1 = (if t = c then ?b else inp t w)" and t1: "pm_token PS p w1 = token" "pm_ack PS p w1 = pm_ack PS p w"
    by (rule recv_all_probe [OF c inp]) (use tok in auto)
  have hdr: "load_hdr cf' ?h = req_hdr" using load_hdr_bytes [of cf' ?hl req_hdr "[]"] by (simp add: wl)
  have "length ?b = 72" using len by (simp add: req_bytes_def pr_ConvertByteOrder_def ShmProbeNameSize_def)
  moreover have "inp c w1 = ?b @ []" using i1 by simp
  ultimately obtain err2 w2 where 2: "tcp_recv_all os c 72 (replicate 72 0) w1 = Some (True, err2, ?b, w2)"
    and i2: "\<And>t. inp t w2 = (if t = c then [] else inp t w1)" and t2: "pm_token PS p w2 = token" "pm_ack PS p w2 = pm_ack PS p w"
    using recv_all_probe [OF c, of w1 ?b "[]" 72] t1 by metis
  have load: "pr_ConvertByteOrder (ToLittleEndian cf') ?hl' (req_of_bytes ?hl' ?b) = ?req" by (simp add: wl load_req [OF len])
  let ?req' = "?req\<lparr>pr_shm_name := (pr_shm_name ?req)[ShmProbeNameSize - 1 := CHR 0x00]\<rparr>"
  obtain k where k: "ShmProbeNameSize - length name = Suc k" using name(2) by (metis Suc_diff_Suc)
  have "(pr_shm_name ?req)[ShmProbeNameSize - 1 := CHR 0x00] = pr_shm_name ?req"
    using len name(2) by (subst list_update_same_conv) (auto simp: probe_req_def nth_append)
  then have cname: "cstr (pr_shm_name ?req') = name" by (simp add: probe_req_def k cstr_nul_free [OF name(1)])
  obtain rsp w3 where 3: "answer_probe os PC ?req' w2 = (rsp, w3)" by fastforce
  have sh': "(case fst (my_mmap_existing os (pm_map PC) (cstr (pr_shm_name ?req')) True w) of Inl p' \<Rightarrow> same p p' | Inr _ \<Rightarrow> False) = shared" for w
    unfolding cname by (rule sh)
  have tokreq: "pr_token ?req' = token" by (simp add: probe_req_def)
  note a = answer_probe_result [OF 3, of p shared, OF _ sh', unfolded tokreq, OF t2(1)]
  obtain err4 w4 where 4: "tcp_send_all os c (probe_rsp_buf cf' rsp_hdr rsp) w3 = (True, err4, w4)"
    and i4: "\<And>t. inp t w4 = (if t = peer c then inp t w3 @ probe_rsp_buf cf' rsp_hdr rsp else inp t w3)"
    and t4: "pm_ack PS p w4 = pm_ack PS p w3"
    by (rule send_all_probe [OF c, of "probe_rsp_buf cf' rsp_hdr rsp" w3]) blast
  have "HandleShmProbe os PC cf' c req_hdr w1 = Some (Inl (), w4)"
    using 2 3 4 load by (simp add: HandleShmProbe_def req_hdr_def rsp_hdr_def sizeof_ShmProbeReqMsg_def body_buf_size_def blocks_def Let_def)
  then have "client_turn os PC cf' c w = Some w4"
    using 1 hdr by (simp add: client_turn_def RecvHeader_def) (simp add: req_hdr_def)
  moreover have "inp (peer c) w4 = probe_rsp_buf cf' rsp_hdr rsp" using i4 a(1) i2 i1 idle peer_neq [of c] by simp
  ultimately show ?thesis by (rule that) (use a t4 t2 in auto)
qed

lemma server_checks:
  assumes s: "s = fd \<or> s = peer fd" and wl: "ToLittleEndian cf' = ToLittleEndian cf"
    and inp: "inp s w = probe_rsp_buf cf' rsp_hdr rsp"
  obtains w' where "RecvAndCheckShmProbeRsp os PS cf s token p w =
    Some (ps_ok rsp \<noteq> 0 \<and> ps_ack rsp = token XOR ShmProbeAckMask \<and> pm_ack PS p w = token XOR ShmProbeAckMask, w')"
proof -
  have len: "length (probe_rsp_buf cf' rsp_hdr rsp) = 24"
    by (simp add: probe_rsp_buf_def probe_rsp_bytes_def ps_ConvertByteOrder_def)
  obtain err w' where 1: "tcp_recv_all os s 24 (replicate 24 0) w = Some (True, err, probe_rsp_buf cf' rsp_hdr rsp, w')"
    and ack: "pm_ack PS p w' = pm_ack PS p w"
    by (rule recv_all_probe [OF s _ len, of w "[]"]) (use inp in auto)
  have "load_hdr cf (probe_rsp_buf cf' rsp_hdr rsp) = rsp_hdr" using load_hdr_bytes [of cf] by (simp add: probe_rsp_buf_def wl)
  moreover have "load_probe_rsp cf (probe_rsp_buf cf' rsp_hdr rsp) = rsp"
    by (simp add: load_probe_rsp_def probe_rsp_buf_def wl load_probe_answer)
  ultimately show ?thesis using that 1 ack
    by (simp add: RecvAndCheckShmProbeRsp_def sizeof_ShmProbeRspMsg_def body_buf_size_def blocks_def rsp_hdr_def Let_def)
qed

lemma handshake:
  assumes E: "se_os E = os" "se_probe E = PS"
    and wl: "ToLittleEndian cf' = ToLittleEndian cf"
    and pub: "probe_publish E sname fd cname w0 = (Some (token, name, p), w6)"
    and idle: "inp fd w6 = []" "inp (peer fd) w6 = []" and mask: "token \<noteq> ShmProbeAckMask"
    and sh: "\<And>w. (case fst (my_mmap_existing os (pm_map PC) name True w) of Inl p' \<Rightarrow> same p p' | Inr _ \<Rightarrow> False) = shared"
  shows "\<exists>w'. VerifyShmProbe_with (client_turn os PC cf' (peer fd)) E cf sname fd cname w0 = Some (shared, w')"
proof -
  have name: "CHR 0x00 \<notin> set name" "length name < ShmProbeNameSize" and mem: "pm_token PS p w6 = token" "pm_ack PS p w6 = 0"
    using pub probe_name_nul length_probe_name by (auto simp: probe_publish_def Let_def E server_sets split: prod.split_asm sum.split_asm)
  obtain err w7 where 7: "tcp_send_all os fd (probe_req_buf cf req_hdr (probe_req token name)) w6 = (True, err, w7)"
    and i7: "\<And>t. inp t w7 = (if t = peer fd then inp t w6 @ probe_req_buf cf req_hdr (probe_req token name) else inp t w6)"
    and m7: "pm_token PS p w7 = token" "pm_ack PS p w7 = 0"
    by (rule send_all_probe [where s = fd, OF disjI1 [OF refl], of "probe_req_buf cf req_hdr (probe_req token name)" w6]) (use mem in auto)
  have sent: "SendShmProbeReq os cf fd name token w6 = (True, w7)"
    using 7 by (simp add: SendShmProbeReq_def strncpy_padded [OF name, unfolded One_nat_def] probe_req_def req_hdr_def sizeof_ShmProbeReqMsg_def)
  have req: "inp (peer fd) w7 = probe_req_buf cf req_hdr (probe_req token name)" and none: "inp (peer (peer fd)) w7 = []"
    using i7 idle peer_neq [of fd] by (simp_all add: peer_peer)
  obtain rsp w8 where 8: "client_turn os PC cf' (peer fd) w7 = Some w8" "inp fd w8 = probe_rsp_buf cf' rsp_hdr rsp"
    and yes: "shared \<Longrightarrow> ps_ok rsp = 1 \<and> ps_ack rsp = token XOR ShmProbeAckMask \<and> pm_ack PS p w8 = token XOR ShmProbeAckMask"
    and no: "\<not> shared \<Longrightarrow> pm_ack PS p w8 = pm_ack PS p w7"
    by (rule client_turn_answers [where c = "peer fd", OF disjI2 [OF refl] wl name req none m7(1) sh]) (auto simp: peer_peer)
  obtain w9 where 9: "RecvAndCheckShmProbeRsp os PS cf fd token p w8 =
      Some (ps_ok rsp \<noteq> 0 \<and> ps_ack rsp = token XOR ShmProbeAckMask \<and> pm_ack PS p w8 = token XOR ShmProbeAckMask, w9)"
    by (rule server_checks [OF disjI1 [OF refl] wl 8(2)])
  have "(token XOR ShmProbeAckMask) XOR ShmProbeAckMask = token" by (simp add: xor.assoc)
  then have "token XOR ShmProbeAckMask \<noteq> 0" using mask by auto
  then have "(ps_ok rsp \<noteq> 0 \<and> ps_ack rsp = token XOR ShmProbeAckMask \<and> pm_ack PS p w8 = token XOR ShmProbeAckMask) = shared"
    using yes no m7(2) by (cases shared) auto
  then show ?thesis using pub sent 8(1) 9 by (simp add: VerifyShmProbe_with_def E)
qed

end

section \<open>Two processes\<close>

text \<open>
  A world with the connection of \<open>pipe_os\<close> and memory cells that each hold a token and an acknowledgement. The server's
  object is cell 1. A client that maps shared memory under the server's name gets the cell \<open>c\<close>, or nothing when \<open>c\<close> is 0: on the
  server's host this is cell 1, on another host something else.
\<close>

type_synonym host_world = "(u8 list \<times> u8 list) \<times> (nat \<Rightarrow> u64) \<times> (nat \<Rightarrow> u64)"

definition host_os :: "host_world os" where
  "host_os =
     \<lparr>sys_send = (\<lambda>s buf w. apsnd (\<lambda>n. (n, snd w)) (sys_send pipe_os s buf (fst w))),
      sys_recv = (\<lambda>s k w. apsnd (\<lambda>n. (n, snd w)) (sys_recv pipe_os s k (fst w))),
      sys_readv = (\<lambda>s ks w. apsnd (\<lambda>n. (n, snd w)) (sys_readv pipe_os s ks (fst w))), sys_errno = (\<lambda>w. TCP_ERR_AGAIN),
      sys_close = (\<lambda>s w. (0, w)), sys_new = (\<lambda>n w. (replicate n 0, w)),
      sys_open = (\<lambda>f b w. (8, w)), sys_shm_open = (\<lambda>f b w. (9, w)), sys_ftruncate = (\<lambda>fd n w. (0, w)),
      sys_shm_unlink = (\<lambda>f w. (0, w)), sys_mkdir = (\<lambda>f w. (0, w)), sys_socket = (\<lambda>w. (4, w)),
      sys_accept = (\<lambda>s w. ((5, (0, 0)), w)), sys_bind = (\<lambda>s a w. (0, w)), sys_listen = (\<lambda>s n w. (0, w)),
      sys_connect = (\<lambda>s a w. (0, w)), sys_setsockopt = (\<lambda>s opt w. (0, w)), sys_getfl = (\<lambda>s w. (0, w)),
      sys_setfl = (\<lambda>s n w. (0, w)), sys_inet_pton = (\<lambda>s. Some 1)\<rparr>"

definition host_inp :: "int \<Rightarrow> host_world \<Rightarrow> u8 list" where
  "host_inp t w = pipe_inp t (fst w)"

definition host_mem :: "nat \<Rightarrow> host_world probe_mem" where
  "host_mem c =
     \<lparr>pm_map = \<lparr>map_sizeof = 16, map_fd = (\<lambda>fd w. (if c = 0 then None else Some c, w)), unmap = (\<lambda>p w. w)\<rparr>,
      pm_token = (\<lambda>p w. fst (snd w) p), pm_ack = (\<lambda>p w. snd (snd w) p),
      pm_set_token = (\<lambda>p x w. (fst w, (fst (snd w))(p := x), snd (snd w))),
      pm_set_ack = (\<lambda>p x w. (fst w, fst (snd w), (snd (snd w))(p := x)))\<rparr>"

lemma host_calls:
  "sys_send host_os s buf w = (r, w') \<longleftrightarrow> sys_send pipe_os s buf (fst w) = (r, fst w') \<and> snd w' = snd w"
  "sys_recv host_os s k w = (d, w') \<longleftrightarrow> sys_recv pipe_os s k (fst w) = (d, fst w') \<and> snd w' = snd w"
  "sys_readv host_os s ks w = (d, w') \<longleftrightarrow> sys_readv pipe_os s ks (fst w) = (d, fst w') \<and> snd w' = snd w"
  by (auto simp: host_os_def apsnd_def map_prod_def prod_eq_iff split: prod.splits)

lemma host_io_keeps: "io_keeps host_os (\<lambda>w. f (snd w))"
  unfolding io_keeps_def send_keeps_def recv_keeps_def by (auto simp: host_os_def apsnd_def map_prod_def split: prod.split)

interpretation hosts: probe_world host_os host_inp pipe_peer 5 "host_mem 1" "host_mem c" "(=)" for c
proof unfold_locales
  show "send_ok host_os" unfolding send_ok_def using pipe.send(1) by (simp add: send_ok_def host_os_def)
  show "send_progress host_os" unfolding send_progress_def using pipe.send(2) by (simp add: send_progress_def host_os_def)
  show "recv_ok host_os" unfolding recv_ok_def using recv_okD [OF pipe.recv(1)] by (auto simp: host_calls split: prod.split)
  show "new_ok host_os" by (simp add: new_ok_def host_os_def)
  show "host_inp t w' = (if t = pipe_peer s then host_inp t w @ take (nat ret) buf else host_inp t w)"
    if "sys_send host_os s buf w = (ret, w')" for s buf w ret w' t
    using that pipe.send_inp [of s buf "fst w" ret "fst w'" t] by (simp add: host_calls host_inp_def)
  show "host_inp t w = (if t = s \<and> 0 < ret then data else []) @ host_inp t w'"
    if "sys_recv host_os s n w = ((ret, data), w')" for s n w ret data w' t
    using that pipe.recv_inp [of s n "fst w" ret data "fst w'" t] by (simp add: host_calls host_inp_def)
  show "host_inp t w = (if t = s \<and> 0 < ret then data else []) @ host_inp t w'"
    if "sys_readv host_os s n w = ((ret, data), w')" for s n w ret data w' t
    using that pipe.readv_inp [of s n "fst w" ret data "fst w'" t] by (simp add: host_calls host_inp_def)
  show "io_keeps host_os (pm_token (host_mem 1) p)" "io_keeps host_os (pm_ack (host_mem 1) p)" for p
    using host_io_keeps by (simp_all add: host_mem_def)
  show "0 < fst (sys_send host_os s buf w)" if "s = 5 \<or> s = pipe_peer 5" "buf \<noteq> []" for s buf w
    using that by (auto simp: host_os_def pipe_os_def pipe_peer_def)
  show "0 < fst (fst (sys_recv host_os s n w))" if "s = 5 \<or> s = pipe_peer 5" "0 < n" "host_inp s w \<noteq> []" for s n w
    using that by (auto simp: host_os_def pipe_os_def pipe_recv_def host_inp_def Let_def)
  show "pm_token (host_mem 1) p w' = pm_token (host_mem 1) p w \<and> pm_ack (host_mem 1) p w' = pm_ack (host_mem 1) p w \<and> host_inp t w' = host_inp t w"
    if "my_mmap_existing host_os (pm_map (host_mem c)) name use_shm w = (r, w')" for name use_shm w r w' p t
    using that by (simp add: my_mmap_existing_def mmap_and_close_def host_os_def host_mem_def split: if_split_asm)
qed (use pipe.send_invalid pipe.recv_invalid pipe.peer_peer pipe.peer_neq in \<open>auto simp: host_os_def host_inp_def host_mem_def\<close>)

section \<open>Properties\<close>

text \<open>C25: the probe of a shared-memory login tells shared memory from its absence. When the server has stored its token in
  the object it created, and both ends run the code of the repository over a connection that delivers,
  on hosts of any byte orders, then \<open>VerifyShmProbe\<close> returns true exactly when the object the client finds under the
  name is the server's own: a client on another host, or one that finds another object of that name even with the same
  token in it, is refused although the exchange over TCP works. (The token must not be the mask itself.)\<close>

theorem probe_accepts_iff_shared:
  assumes "probe_world os inp peer fd PS PC same" and "se_os E = os" and "se_probe E = PS" and "same_protocol cf cf'"
    and "probe_publish E sname fd cname w0 = (Some (token, name, p), w6)"
    and "inp fd w6 = []" and "inp (peer fd) w6 = []" and "token \<noteq> ShmProbeAckMask"
    and "\<And>w. (case fst (my_mmap_existing os (pm_map PC) name True w) of Inl p' \<Rightarrow> same p p' | Inr _ \<Rightarrow> False) = shared"
  shows "\<exists>w'. VerifyShmProbe_with (client_turn os PC cf' (peer fd)) E cf sname fd cname w0 = Some (shared, w')"
proof -
  have "ToLittleEndian cf' = ToLittleEndian cf" using assms(4) by (simp add: same_protocol_def)
  then show ?thesis by (rule probe_world.handshake [OF assms(1-3) _ assms(5-9)])
qed

definition host_env :: "host_world srv_env" where
  "host_env =
     \<lparr>se_os = host_os, se_maps = \<lparr>map_ptcp = plain_map 84 (ptcp_zeroed 64), map_shm = plain_map 512 (spsc_zeroed 256)\<rparr>,
      se_probe = host_mem 1, se_cb = idle_cb, se_clock = (\<lambda>w. (77, w)), se_this = 4096\<rparr>"

definition host_w0 :: host_world where
  "host_w0 = (([], []), (\<lambda>p. 0), (\<lambda>p. 0))"

theorem probe_accepts_iff_shared_witness:
  "(\<exists>w'. VerifyShmProbe_with (client_turn host_os (host_mem 1) little_conf 4) host_env sample_conf ''srv'' 5 ''c'' host_w0 = Some (True, w')) \<and>
   (\<exists>w'. VerifyShmProbe_with (client_turn host_os (host_mem 2) little_conf 4) host_env sample_conf ''srv'' 5 ''c'' host_w0 = Some (False, w')) \<and>
   (\<exists>w'. VerifyShmProbe_with (client_turn host_os (host_mem 0) little_conf 4) host_env sample_conf ''srv'' 5 ''c'' host_w0 = Some (False, w'))"
proof -
  have same: "same_protocol sample_conf little_conf" by (simp add: same_protocol_def little_conf_def)
  let ?t = "fst (MakeShmProbeToken host_env ''c'' host_w0)"
  have pub: "probe_publish host_env ''srv'' 5 ''c'' host_w0 =
      (Some (?t, probe_name ''srv'' ''c'' ?t, 1), (([], []), (\<lambda>p. 0)(1 := ?t), (\<lambda>p. 0)(1 := 0)))"
    by (simp add: probe_publish_def host_env_def host_os_def host_mem_def host_w0_def tcp_set_blocking_def tcp_set_timeout_def
        my_mmap_def mmap_and_close_def MakeShmProbeToken_def Let_def)
  have mask: "?t \<noteq> ShmProbeAckMask"
    by (simp add: MakeShmProbeToken_def host_env_def host_w0_def cstr_def ShmProbeAckMask_def Let_def)
  have maps: "(case fst (my_mmap_existing host_os (pm_map (host_mem c)) name True w) of Inl p' \<Rightarrow> 1 = p' | Inr _ \<Rightarrow> False) = (c = 1)" for c name w
    by (auto simp: my_mmap_existing_def mmap_and_close_def host_os_def host_mem_def)
  have "\<exists>w'. VerifyShmProbe_with (client_turn host_os (host_mem c) little_conf (pipe_peer 5)) host_env sample_conf ''srv'' 5 ''c'' host_w0 = Some (c = 1, w')" for c
    by (rule probe_accepts_iff_shared [OF hosts.probe_world_axioms [of c] _ _ same pub _ _ mask maps])
      (simp_all add: host_env_def host_inp_def pipe_inp_def pipe_peer_def)
  from this [of 1] this [of 2] this [of 0] show ?thesis by (simp add: pipe_peer_def)
qed

end
