(* ===== verification/Spec2Isabelle.thy ===== *)
theory Spec2Isabelle
  imports Login_Handshake Session_Live Spsc_Interleaving Os_Windows Probe_Handshake
begin

text \<open>
  A verification of tcpshm, a C++ framework for connections that carry messages either over TCP,
  with a persistent queue that survives disconnects and restarts, or over queues in shared memory.

  \<^bold>\<open>The program and its theories.\<close>

  \<^item> \<^verbatim>\<open>Tcpshm_Prelude\<close>: word types, sizes in blocks, segments of lists, wrapping 32-bit differences
    (\<open>sdiff\<close>, the code's \<open>(int)(a - b)\<close>), and the lemmas on them that all other theories use.
  \<^item> \<^verbatim>\<open>Endian_Header\<close>: \<^verbatim>\<open>endian.h\<close>, \<^verbatim>\<open>msg_header.h\<close> and the byte swaps of \<^verbatim>\<open>os.h\<close>; the bytes of a header in
    memory, on hosts of both byte orders.
  \<^item> \<^verbatim>\<open>Stored_Message\<close>, \<^verbatim>\<open>Queue_Interface\<close>: what an application writes into an allocated message, and the
    contracts of a queue as locales: \<open>send_queue\<close> (a write appends a message or leaves the queue as it
    was) and \<open>fifo_queue\<close>, which adds reading.
  \<^item> \<^verbatim>\<open>Ptcp_Queue\<close>: \<^verbatim>\<open>ptcp_queue.h\<close>, the persistent queue of unacknowledged messages. The state is a record
    with the array of 8-byte cells and the five counters; \<open>ptcp_rel\<close> relates it to the list of messages
    it holds, and the locale \<open>send_queue\<close> is interpreted on it.
  \<^item> \<^verbatim>\<open>Spsc_Varq\<close>: \<^verbatim>\<open>spsc_varq.h\<close>, the ring in shared memory; it interprets \<open>fifo_queue\<close>.
  \<^item> \<^verbatim>\<open>Spsc_Concurrent\<close>, \<^verbatim>\<open>Spsc_Interleaving\<close>: the same ring with the single loads and stores of the writing and
    the reading thread interleaved (\<open>w_step\<close>, \<open>r_step\<close>, \<open>conc_step\<close>), \<open>WaitForData\<close> included.
  \<^item> \<^verbatim>\<open>Os_Layer\<close>: the POSIX branches of \<^verbatim>\<open>os.h\<close> over a record of system calls (\<open>os\<close>) on a world of any
    type. What the code relies on is stated as predicates on that record (\<open>send_ok\<close>, \<open>recv_ok\<close>,
    \<open>stream_send\<close>, \<open>stream_recv\<close>, ...); \<open>script_os\<close> is a concrete kernel for which they hold.
  \<^item> \<^verbatim>\<open>Os_Windows\<close>: the Windows branches of \<^verbatim>\<open>os.h\<close> over a record of Win32 and Winsock calls (\<open>win\<close>); the locale
    \<open>win_kernel\<close> states what the mapping functions rely on. The theories below use the POSIX branches.
  \<^item> \<^verbatim>\<open>Ptcp_Conn\<close>, \<^verbatim>\<open>Ptcp_Recv\<close>, \<^verbatim>\<open>Ptcp_Send\<close>: the class \<open>PTCPConnection\<close> of \<^verbatim>\<open>ptcp_conn.h\<close>, with the
    lemmas on receiving (buffer management, parsing, acknowledgements) and on sending (partial
    transfers, heartbeats, closing).
  \<^item> \<^verbatim>\<open>Tcpshm_Conn\<close>: \<^verbatim>\<open>tcpshm_conn.h\<close>, one interface over both transports; again a \<open>send_queue\<close>.
  \<^item> \<^verbatim>\<open>Login_Msg\<close>: the login and probe messages of \<^verbatim>\<open>ptcp_conn.h\<close> with their memory layout.
  \<^item> \<^verbatim>\<open>Conn_Frame\<close>: which descriptors every operation of a connection touches.
  \<^item> \<^verbatim>\<open>Tcpshm_Server\<close>, \<^verbatim>\<open>Server_Inv\<close>, \<^verbatim>\<open>Server_Props\<close>: \<^verbatim>\<open>tcpshm_server.h\<close>; the state is a record with the
    pool of connections, the groups of references into it and the new connections; its invariant is
    proved over a step relation of all public operations.
  \<^item> \<^verbatim>\<open>Tcpshm_Client\<close>, \<^verbatim>\<open>Client_Props\<close>: \<^verbatim>\<open>tcpshm_client.h\<close>, the same way.
  \<^item> \<^verbatim>\<open>Session_Net\<close>, \<^verbatim>\<open>Session_Flow\<close>, \<^verbatim>\<open>Session_Steps\<close>, \<^verbatim>\<open>Session_Props\<close>: two connections and the
    network between them. The locale \<open>duplex\<close> states what TCP promises; \<open>flow\<close> relates queue file, bytes under way,
    receive buffer and application of one direction; \<open>sess_step\<close> has the steps of both applications, the
    loss of bytes on a broken connection, and logins.
  \<^item> \<^verbatim>\<open>Session_Live\<close>: progress of a session. A kernel that \<open>delivers\<close> hands over bytes that have arrived; then every poll takes
    bytes off the stream or hands over a message, because the receive buffer always has room for more or a whole message in it.
  \<^item> \<^verbatim>\<open>Delivery\<close>: the locale \<open>delivering\<close>, a connection that hands over what was sent, and whole messages over it.
  \<^item> \<^verbatim>\<open>Login_Handshake\<close>: a login over TCP with the code of both parties: \<open>Connect\<close> up to the login it sends, the server's pass
    over the new connection (\<open>visit_new\<close>, \<open>HandleLogin\<close>), the rest of \<open>Connect\<close>. The locale \<open>login_parties\<close> states what the two
    programs share, and is interpreted on the callbacks of the example programs over a pipe.
  \<^item> \<^verbatim>\<open>Probe_Handshake\<close>: the probe of a login over shared memory with both parties, the client's code running
    while the server waits for its answer.
  \<^item> \<^verbatim>\<open>String_Apps\<close>, \<^verbatim>\<open>String_Session\<close>, \<^verbatim>\<open>String_Props\<close>: the example programs \<^verbatim>\<open>client.cpp\<close> and \<^verbatim>\<open>server.cpp\<close>, as values
    of the callback records and schedules of their threads, with their \<open>main\<close> functions, and at the two ends of a session.

  A server polls sockets and logs clients in (\<open>PollCtl\<close>, \<open>HandleLogin\<close>); a login compares the two sides'
  sequence numbers and opens the connection (\<open>tc_Open\<close>), after which both sides write with \<open>Alloc\<close> and
  \<open>Push\<close> and read with \<open>Front\<close> and \<open>Pop\<close> through the polling functions. The callbacks of the derived
  classes are parameters: functions of the arguments the code passes, the connection they may use, and
  the world.

  \<^bold>\<open>What is shown.\<close> Queues: a write appends the message intact or is refused exactly when it does not
  fit; acknowledgements remove exactly the acknowledged messages, with 32-bit wrap-around; a reconnect
  makes exactly the unacknowledged messages pending again; every interleaving of writes and reads of
  the shared-memory queue delivers each accepted message once and in order, also when the single
  accesses of the two threads interleave, and the threads never use the same cell at the same time. Connection: receiving
  conserves the byte stream inside the buffer and delivers the application messages of the stream in
  order; sending puts a prefix of the unsent cells on the stream and counts whole cells. Server and
  client: descriptors have exactly one owner in every reachable state and are given back by \<open>Stop\<close>,
  groups keep live connections first and names unique, and a login is accepted exactly when both
  acknowledgement numbers are in range and then resumes with the unreceived messages. Messages cross
  between hosts of different byte order. The probe of a shared-memory login accepts exactly the clients that
  map the server's own object. Sessions: however writes, polls, closes, losses and new logins interleave, each side receives
  what the other wrote once and in order, no state is stuck, and enough polls of an
  open connection deliver everything the other side has sent; and the code of \<open>Connect\<close> and of the server together
  performs such a login: it returns on both sides and the session goes on from the connections it opened. Example programs: the client receives
  the answers to its requests in order, and both programs give back every descriptor. Windows layer: the table of mapping handles is exact
  after any sequence of calls by one thread, and \<open>my_munmap\<close> races with a mapping by another. The theorems on errors state what the code does outside these
  conditions: sizes that wrap, headers of size zero, a failed \<open>Start\<close>, a change of transport.

  \<^bold>\<open>Modelling decisions.\<close> A call that would read or write outside an array, or dereference a null
  pointer, has the value \<open>None\<close>, and so has a loop that does not end (\<open>partial_function (option)\<close>): a
  theorem that a call equals \<open>Some\<close> a result states that it returns and stays in bounds. No fuel is used.
  Machine integers keep their width; an \<open>int\<close> that the code only compares after a subtraction is
  \<open>sdiff\<close>. Mapped memory is part of the state of the process that mapped it; indeterminate memory is a
  parameter. Sizes of the configuration are bounded only where the code compares them as \<open>int\<close>
  (\<open>recv_conf\<close>).

  \<^bold>\<open>Not modelled.\<close> The layers above \<^verbatim>\<open>os.h\<close> in a Windows build, which differ only in the calls of that layer;
  the vendored libraries under \<^verbatim>\<open>third_party\<close> (the encoding of requests and answers is a parameter); the
  formatting of what the example programs print. Memory ordering
  weaker than sequential consistency, and interleavings inside one poll of the server's control
  thread with the group threads, are not modelled; one call is one step. The two-party login assumes that the login message
  arrives in one piece, which the server's single \<open>recv\<close> needs.
\<close>

end
